(* ===== verification/Xv6_Prelude.thy ===== *)
theory Xv6_Prelude
  imports Main "HOL-Library.Word"
begin

unbundle bit_operations_syntax

text \<open>
  What every component of the development shares: the outcome type of a C function that may
  panic, block or run forever, the byte-addressed memory with little-endian multi-byte loads and
  stores, and the arithmetic of aligned ranges of addresses.

  The machine is RV64: an address is a 64-bit word, memory is a total function from addresses to
  bytes, a multi-byte access touches consecutive addresses in little-endian order.
\<close>

section \<open>Outcomes\<close>

text \<open>
  A C function of the kernel that returns normally gives \<open>Ok\<close>. \<open>Panic\<close> is a call of
  \<open>panic()\<close> with its message: the kernel prints it and stops. \<open>Blocks\<close> is a sequential
  function that would go to sleep on a sleep lock somebody holds. \<open>Diverge\<close> is a loop that used
  up its fuel; wherever fuel is used, the development proves that the fuel given is enough.
  \<open>Undefined\<close> is an access that C gives no meaning, such as one outside an array.
\<close>

datatype 'a outcome = Ok 'a | Panic string | Blocks | Diverge | Undefined

definition obind :: "'a outcome \<Rightarrow> ('a \<Rightarrow> 'b outcome) \<Rightarrow> 'b outcome" where
  "obind m f = (case m of Ok a \<Rightarrow> f a | Panic e \<Rightarrow> Panic e | Blocks \<Rightarrow> Blocks | Diverge \<Rightarrow> Diverge
     | Undefined \<Rightarrow> Undefined)"

named_theorems outcome_simps \<open>equations and inversions of outcomes\<close>

lemma obind_simps [simp, outcome_simps]:
  "obind (Ok a) f = f a"
  "obind (Panic e) f = Panic e"
  "obind Blocks f = Blocks"
  "obind Diverge f = Diverge"
  "obind Undefined f = Undefined"
  by (simp_all add: obind_def)

lemma obind_assoc: "obind (obind m f) g = obind m (\<lambda>x. obind (f x) g)"
  by (cases m) simp_all

lemma obind_eq_Ok [outcome_simps]: "obind m f = Ok b \<longleftrightarrow> (\<exists>a. m = Ok a \<and> f a = Ok b)"
  by (cases m) auto

lemma obind_eq_Panic [outcome_simps]:
  "obind m f = Panic e \<longleftrightarrow> m = Panic e \<or> (\<exists>a. m = Ok a \<and> f a = Panic e)"
  by (cases m) auto

lemma obind_cong [fundef_cong]:
  "m = m' \<Longrightarrow> (\<And>a. m' = Ok a \<Longrightarrow> f a = f' a) \<Longrightarrow> obind m f = obind m' f'"
  by (cases m') (auto simp: obind_def)

primrec is_Ok :: "'a outcome \<Rightarrow> bool" where
  "is_Ok (Ok a) = True"
| "is_Ok (Panic e) = False"
| "is_Ok Blocks = False"
| "is_Ok Diverge = False"
| "is_Ok Undefined = False"

text \<open>A \<open>for\<close> loop over the elements of a list.\<close>

primrec ofold :: "('a \<Rightarrow> 's \<Rightarrow> 's outcome) \<Rightarrow> 'a list \<Rightarrow> 's \<Rightarrow> 's outcome" where
  "ofold f [] s = Ok s"
| "ofold f (x # xs) s = obind (f x s) (ofold f xs)"

lemma ofold_append: "ofold f (xs @ ys) s = obind (ofold f xs s) (ofold f ys)"
  by (induction xs arbitrary: s) (simp_all add: obind_assoc cong: obind_cong)

text \<open>
  Code that threads a state through many calls is written with \<open>bnd\<close> (sequencing), \<open>ret\<close>,
  \<open>panic\<close> and accessors of the state.
\<close>

type_synonym ('s, 'a) cmd = "'s \<Rightarrow> ('a \<times> 's) outcome"

definition ret :: "'a \<Rightarrow> ('s, 'a) cmd" where
  "ret a s = Ok (a, s)"

definition bnd :: "('s, 'a) cmd \<Rightarrow> ('a \<Rightarrow> ('s, 'b) cmd) \<Rightarrow> ('s, 'b) cmd" where
  "bnd m f s = obind (m s) (\<lambda>(a, t). f a t)"

definition thn :: "('s, 'a) cmd \<Rightarrow> ('s, 'b) cmd \<Rightarrow> ('s, 'b) cmd" where
  "thn m k = bnd m (\<lambda>_. k)"

definition panic :: "string \<Rightarrow> ('s, 'a) cmd" where
  "panic msg s = Panic msg"

definition gets :: "('s \<Rightarrow> 'a) \<Rightarrow> ('s, 'a) cmd" where
  "gets f s = Ok (f s, s)"

definition modify :: "('s \<Rightarrow> 's) \<Rightarrow> ('s, unit) cmd" where
  "modify f s = Ok ((), f s)"

named_theorems cmd_simps \<open>commands applied to a state\<close>

lemma cmd_apply [cmd_simps]:
  "ret a s = Ok (a, s)" "panic e s = Panic e" "gets f s = Ok (f s, s)" "modify g s = Ok ((), g s)"
  "bnd m k s = obind (m s) (\<lambda>(a, t). k a t)" "thn m l s = obind (m s) (\<lambda>(a, t). l t)"
  by (simp_all add: ret_def panic_def gets_def modify_def bnd_def thn_def)

lemma bnd_cong [fundef_cong]:
  "m s = m' s' \<Longrightarrow> (\<And>a t. m' s' = Ok (a, t) \<Longrightarrow> f a t = f' a t) \<Longrightarrow> bnd m f s = bnd m' f' s'"
  unfolding bnd_def by (rule obind_cong) auto

section \<open>Bytes, addresses and memory\<close>

type_synonym byte = "8 word"
type_synonym u16 = "16 word"
type_synonym u32 = "32 word"
type_synonym u64 = "64 word"
type_synonym addr = "64 word"
type_synonym mem = "addr \<Rightarrow> byte"

text \<open>Little-endian bytes of a word, and the word of a list of bytes.\<close>

definition le_bytes :: "nat \<Rightarrow> 'a::len word \<Rightarrow> byte list" where
  "le_bytes n w = map (\<lambda>i. ucast (drop_bit (8 * i) w)) [0..<n]"

primrec le_word :: "byte list \<Rightarrow> 'a::len word" where
  "le_word [] = 0"
| "le_word (b # bs) = ucast b OR push_bit 8 (le_word bs)"

lemma length_le_bytes [simp]: "length (le_bytes n w) = n"
  by (simp add: le_bytes_def)

lemma le_bytes_Suc: "le_bytes (Suc n) w = ucast w # le_bytes n (drop_bit 8 w)"
  by (simp add: le_bytes_def upt_conv_Cons map_Suc_upt [symmetric] del: upt_Suc)
     (simp add: add.commute)

lemma le_word_le_bytes: "le_word (le_bytes n (w :: 'a::len word)) = take_bit (8 * n) w"
proof (induction n arbitrary: w)
  case 0
  then show ?case by (simp add: le_bytes_def)
next
  case (Suc n)
  have "ucast (ucast w :: byte) OR push_bit 8 (take_bit (8 * n) (drop_bit 8 w)) =
        take_bit (8 + 8 * n) (w :: 'a word)"
    by (rule bit_word_eqI) (auto simp: bit_simps)
  then show ?case
    by (simp add: le_bytes_Suc Suc.IH)
qed

lemma le_word_le_bytes_full:
  "LENGTH('a) \<le> 8 * n \<Longrightarrow> le_word (le_bytes n (w :: 'a::len word)) = w"
  by (simp add: le_word_le_bytes take_bit_word_eq_self)

lemma le_bytes_le_word:
  "8 * length bs \<le> LENGTH('a) \<Longrightarrow> le_bytes (length bs) (le_word bs :: 'a::len word) = bs"
proof (induction bs)
  case Nil
  then show ?case by (simp add: le_bytes_def)
next
  case (Cons b bs)
  let ?w = "le_word bs :: 'a word"
  have hd: "(ucast (ucast b OR push_bit 8 ?w) :: byte) = b"
    by (rule bit_word_eqI) (use Cons.prems in \<open>auto simp: bit_simps\<close>)
  have "drop_bit 8 (ucast b OR push_bit 8 ?w) = take_bit (LENGTH('a) - 8) ?w"
    by (rule bit_word_eqI)
       (auto simp: bit_simps dest: bit_imp_le_length)
  moreover have "take_bit (LENGTH('a) - 8) ?w = ?w"
  proof -
    have "take_bit (8 * length bs) ?w = le_word (le_bytes (length bs) ?w)"
      by (simp add: le_word_le_bytes)
    also have "\<dots> = ?w"
      using Cons by simp
    finally have t: "take_bit (8 * length bs) ?w = ?w" .
    have "8 * length bs \<le> LENGTH('a) - 8"
      using Cons.prems by simp
    then have "take_bit (LENGTH('a) - 8) (take_bit (8 * length bs) ?w) = take_bit (8 * length bs) ?w"
      by simp
    with t show ?thesis by simp
  qed
  ultimately show ?case
    using Cons hd by (simp add: le_bytes_Suc)
qed

subsection \<open>Loads and stores\<close>

definition ld_bytes :: "mem \<Rightarrow> addr \<Rightarrow> nat \<Rightarrow> byte list" where
  "ld_bytes m a n = map (\<lambda>i. m (a + of_nat i)) [0..<n]"

definition st_bytes :: "mem \<Rightarrow> addr \<Rightarrow> byte list \<Rightarrow> mem" where
  "st_bytes m a bs = (\<lambda>x. if unat (x - a) < length bs then bs ! unat (x - a) else m x)"

definition ld64 :: "mem \<Rightarrow> addr \<Rightarrow> u64" where
  "ld64 m a = le_word (ld_bytes m a 8)"

definition st64 :: "mem \<Rightarrow> addr \<Rightarrow> u64 \<Rightarrow> mem" where
  "st64 m a v = st_bytes m a (le_bytes 8 v)"

lemma length_ld_bytes [simp]: "length (ld_bytes m a n) = n"
  by (simp add: ld_bytes_def)

lemma unat_of_nat_small: "i < 2 ^ LENGTH('a) \<Longrightarrow> unat (of_nat i :: 'a::len word) = i"
  by (simp add: unat_of_nat take_bit_nat_eq_self)

lemma ld_st_same:
  assumes "length bs = n" and "n \<le> 2 ^ 64"
  shows "ld_bytes (st_bytes m a bs) a n = bs"
  using assms by (intro nth_equalityI) (auto simp: ld_bytes_def st_bytes_def unat_of_nat_small)

lemma ld_bytes_cong:
  "(\<And>i. i < n \<Longrightarrow> m (a + of_nat i) = m' (a + of_nat i)) \<Longrightarrow> ld_bytes m a n = ld_bytes m' a n"
  by (simp add: ld_bytes_def)

lemma ld64_cong:
  "(\<And>i. i < 8 \<Longrightarrow> m (a + of_nat i) = m' (a + of_nat i)) \<Longrightarrow> ld64 m a = ld64 m' a"
  unfolding ld64_def by (metis ld_bytes_cong)

lemma ld64_zero: "(\<And>i. i < 8 \<Longrightarrow> m (a + of_nat i) = 0) \<Longrightarrow> ld64 m a = 0"
proof -
  assume "\<And>i. i < 8 \<Longrightarrow> m (a + of_nat i) = 0"
  then have "ld_bytes m a 8 = replicate 8 0"
    by (auto simp: ld_bytes_def map_replicate_const intro!: nth_equalityI)
  moreover have "(le_word (replicate n 0) :: u64) = 0" for n by (induction n) simp_all
  ultimately show ?thesis by (simp add: ld64_def)
qed

lemma ld64_zeros [simp]: "ld64 (\<lambda>_. 0) a = 0"
  by (rule ld64_zero) simp

lemma ld64_st64_same [simp]: "ld64 (st64 m a v) a = v"
  by (simp add: ld64_def st64_def ld_st_same le_word_le_bytes_full)

section \<open>Aligned ranges\<close>

text \<open>
  A range of \<open>k\<close> addresses from \<open>p\<close> is written \<open>unat (x - p) < k\<close>, which is right also where
  the range wraps around. For a range aligned to its own size, it is the set of addresses with one
  quotient: \<open>cell\<close> numbers the 8-byte words, \<open>pfn\<close> the 4096-byte pages.
\<close>

definition cell :: "addr \<Rightarrow> nat" where "cell x = unat x div 8"

definition pfn :: "addr \<Rightarrow> nat" where "pfn x = unat x div 4096"

lemma unat_diff_less_iff:
  fixes x p :: "'a::len word"
  assumes k: "k dvd 2 ^ LENGTH('a)" and p: "k dvd unat p"
  shows "unat (x - p) < k \<longleftrightarrow> unat x div k = unat p div k"
proof -
  have k0: "0 < k"
    using k by (metis dvd_pos_nat zero_less_numeral zero_less_power)
  obtain c where c: "unat p = k * c" using p by (elim dvdE)
  obtain d where d: "2 ^ LENGTH('a) = k * d" using k by (elim dvdE)
  have cd: "c < d"
    using unsigned_less [of p, where 'a = nat] c d k0 by (metis nat_mult_less_cancel_disj)
  have x: "unat x < k * d" using unsigned_less [of x, where 'a = nat] d by simp
  show ?thesis
  proof (cases "p \<le> x")
    case True
    then have ge: "k * c \<le> unat x" using c by (simp add: word_le_nat_alt)
    have "unat (x - p) = unat x - k * c"
      using True by (simp add: unat_sub_if' c word_le_nat_alt)
    also have "\<dots> < k \<longleftrightarrow> unat x < k * c + k"
      using ge by linarith
    also have "\<dots> \<longleftrightarrow> unat x div k < Suc c"
      using k0 by (simp add: div_less_iff_less_mult algebra_simps)
    also have "\<dots> \<longleftrightarrow> unat x div k = c"
      using ge k0 less_eq_div_iff_mult_less_eq [of k c "unat x"] by (auto simp: mult.commute)
    finally show ?thesis
      using k0 c by simp
  next
    case False
    then have lt: "unat x < k * c" using c by (simp add: word_le_nat_alt)
    have "unat (x - p) = unat x + k * d - k * c"
      using False by (simp add: unat_sub_if' c d word_le_nat_alt)
    moreover have "k * c + k \<le> k * d"
      using cd by (metis Suc_leI mult_Suc_right add.commute mult_le_mono2)
    ultimately have "\<not> unat (x - p) < k" by linarith
    moreover have "unat x div k < c"
      using lt k0 by (simp add: div_less_iff_less_mult mult.commute)
    ultimately show ?thesis
      using k0 c by simp
  qed
qed

lemma cell_range_iff: "8 dvd unat a \<Longrightarrow> unat (x - a) < 8 \<longleftrightarrow> cell x = cell a"
  unfolding cell_def by (rule unat_diff_less_iff) simp_all

lemma pfn_range_iff: "4096 dvd unat p \<Longrightarrow> unat (x - p) < 4096 \<longleftrightarrow> pfn x = pfn p"
  unfolding pfn_def by (rule unat_diff_less_iff) simp_all

lemma cell_add [simp]: "8 dvd unat a \<Longrightarrow> i < 8 \<Longrightarrow> cell (a + of_nat i) = cell a"
  using cell_range_iff [of a "a + of_nat i"] by (simp add: unat_of_nat_small)

lemma pfn_cell: "cell x = cell y \<Longrightarrow> pfn x = pfn y"
proof -
  have "pfn z = cell z div 512" for z :: addr
    by (simp add: pfn_def cell_def div_mult2_eq [symmetric])
  then show "cell x = cell y \<Longrightarrow> pfn x = pfn y" by simp
qed

lemma cell_eq: "8 dvd unat a \<Longrightarrow> 8 dvd unat b \<Longrightarrow> cell a = cell b \<longleftrightarrow> a = b"
  by (auto simp: cell_def word_unat_eq_iff)

lemma pfn_eq: "4096 dvd unat p \<Longrightarrow> 4096 dvd unat q \<Longrightarrow> pfn p = pfn q \<longleftrightarrow> p = q"
  by (auto simp: pfn_def word_unat_eq_iff)

lemma st64_apply: "8 dvd unat a \<Longrightarrow> cell x \<noteq> cell a \<Longrightarrow> st64 m a v x = m x"
  by (simp add: st64_def st_bytes_def cell_range_iff)

lemma ld64_st64_other [simp]:
  assumes "8 dvd unat a" and "8 dvd unat b" and "a \<noteq> b"
  shows "ld64 (st64 m a v) b = ld64 m b"
proof (rule ld64_cong)
  fix i :: nat
  assume "i < 8"
  then have "cell (b + of_nat i) \<noteq> cell a"
    using assms by (simp add: cell_eq)
  then show "st64 m a v (b + of_nat i) = m (b + of_nat i)"
    using assms(1) by (rule st64_apply [rotated])
qed

lemma ld64_eqI:
  assumes "8 dvd unat a" and "\<And>x. cell x = cell a \<Longrightarrow> m x = m' x"
  shows "ld64 m a = ld64 m' a"
  using assms by (intro ld64_cong) simp

end
