(* ===== verification/Xv6_Riscv.thy ===== *)
theory Xv6_Riscv
  imports Xv6_Prelude
begin

unbundle bit_operations_syntax

text \<open>
  The constants and macros of \<open>kernel/param.h\<close>, \<open>kernel/riscv.h\<close> and \<open>kernel/memlayout.h\<close>
  the kernel computes with: page rounding, the Sv39 page-table-entry format, the split of a virtual
  address into three 9-bit indices, and the memory map of the OrangePi RV2. A macro that takes an
  argument is a definition, an object-like macro is an abbreviation. The lemmas read the bit
  operations as arithmetic on the unsigned value.
\<close>

section \<open>Constants\<close>

abbreviation (input) PGSIZE :: u64 where "PGSIZE \<equiv> 4096"
abbreviation (input) PTE_V :: u64 where "PTE_V \<equiv> 1"
abbreviation (input) PTE_R :: u64 where "PTE_R \<equiv> 2"
abbreviation (input) PTE_W :: u64 where "PTE_W \<equiv> 4"
abbreviation (input) PTE_X :: u64 where "PTE_X \<equiv> 8"
abbreviation (input) PTE_U :: u64 where "PTE_U \<equiv> 16"

abbreviation (input) MAXVA :: u64 where "MAXVA \<equiv> 0x4000000000"
abbreviation (input) TRAMPOLINE :: u64 where "TRAMPOLINE \<equiv> 0x3FFFFFF000"
abbreviation (input) TRAPFRAME :: u64 where "TRAPFRAME \<equiv> 0x3FFFFFE000"
abbreviation (input) UART0 :: u64 where "UART0 \<equiv> 0xd4017000"
abbreviation (input) SDHCI0 :: u64 where "SDHCI0 \<equiv> 0xd4280000"
abbreviation (input) PLIC :: u64 where "PLIC \<equiv> 0xe0000000"
abbreviation (input) KERNBASE :: u64 where "KERNBASE \<equiv> 0x40000000"
abbreviation (input) PHYSTOP :: u64 where "PHYSTOP \<equiv> 0x60000000"

abbreviation (input) NPROC :: nat where "NPROC \<equiv> 64"
abbreviation (input) NCPU :: nat where "NCPU \<equiv> 8"
abbreviation (input) NOFILE :: nat where "NOFILE \<equiv> 16"
abbreviation (input) NFILE :: nat where "NFILE \<equiv> 100"
abbreviation (input) NINODE :: nat where "NINODE \<equiv> 50"
abbreviation (input) NDEV :: nat where "NDEV \<equiv> 10"
abbreviation (input) ROOTDEV :: nat where "ROOTDEV \<equiv> 1"
abbreviation (input) MAXARG :: nat where "MAXARG \<equiv> 32"
abbreviation (input) MAXOPBLOCKS :: nat where "MAXOPBLOCKS \<equiv> 10"
abbreviation (input) LOGBLOCKS :: nat where "LOGBLOCKS \<equiv> 30"
abbreviation (input) NBUF :: nat where "NBUF \<equiv> 30"
abbreviation (input) FSSIZE :: nat where "FSSIZE \<equiv> 2000"
abbreviation (input) MAXPATH :: nat where "MAXPATH \<equiv> 128"

section \<open>Macros\<close>

definition PGROUNDUP :: "u64 \<Rightarrow> u64" where
  "PGROUNDUP sz = (sz + PGSIZE - 1) AND NOT (PGSIZE - 1)"

definition PGROUNDDOWN :: "u64 \<Rightarrow> u64" where
  "PGROUNDDOWN a = a AND NOT (PGSIZE - 1)"

definition PA2PTE :: "u64 \<Rightarrow> u64" where
  "PA2PTE pa = push_bit 10 (drop_bit 12 pa)"

definition PTE2PA :: "u64 \<Rightarrow> u64" where
  "PTE2PA pte = push_bit 12 (drop_bit 10 pte)"

definition PTE_FLAGS :: "u64 \<Rightarrow> u64" where
  "PTE_FLAGS pte = pte AND 0x3FF"

definition PXSHIFT :: "nat \<Rightarrow> nat" where
  "PXSHIFT level = 12 + 9 * level"

definition PX :: "nat \<Rightarrow> u64 \<Rightarrow> u64" where
  "PX level va = drop_bit (PXSHIFT level) va AND 0x1FF"

definition MAKE_SATP :: "u64 \<Rightarrow> u64" where
  "MAKE_SATP pagetable = push_bit 60 8 OR drop_bit 12 pagetable"

definition KSTACK :: "nat \<Rightarrow> u64" where
  "KSTACK p = TRAMPOLINE - (of_nat p + 1) * 2 * PGSIZE"

definition PLIC_SENABLE :: "nat \<Rightarrow> u64" where
  "PLIC_SENABLE hart = PLIC + 0x2080 + (of_nat hart * 2 + 1) * 0x80"

definition PLIC_SPRIORITY :: "nat \<Rightarrow> u64" where
  "PLIC_SPRIORITY hart = PLIC + 0x201000 + (of_nat hart * 2 + 1) * 0x1000"

definition PLIC_SCLAIM :: "nat \<Rightarrow> u64" where
  "PLIC_SCLAIM hart = PLIC + 0x201004 + (of_nat hart * 2 + 1) * 0x1000"

section \<open>Bit operations as arithmetic\<close>

lemma and_not_mask_arith:
  fixes a :: "'a::len word"
  shows "unat (a AND NOT (mask n)) = unat a div 2 ^ n * 2 ^ n"
proof -
  have "a AND NOT (mask n) = push_bit n (drop_bit n a)"
    by (rule bit_word_eqI) (auto simp: bit_simps)
  also have "unat \<dots> = take_bit LENGTH('a) (unat a div 2 ^ n * 2 ^ n)"
    by (simp only: unsigned_push_bit_eq unat_drop_bit_eq) (simp add: push_bit_eq_mult drop_bit_eq_div)
  also have "\<dots> = unat a div 2 ^ n * 2 ^ n"
  proof (rule take_bit_nat_eq_self)
    have "unat a div 2 ^ n * 2 ^ n \<le> unat a" by (rule div_times_less_eq_dividend)
    then show "unat a div 2 ^ n * 2 ^ n < 2 ^ LENGTH('a)"
      using unsigned_less [of a, where 'a = nat] by linarith
  qed
  finally show ?thesis .
qed

lemma unat_PGROUNDDOWN: "unat (PGROUNDDOWN a) = unat a div 4096 * 4096"
  using and_not_mask_arith [of a 12] by (simp add: PGROUNDDOWN_def mask_eq_exp_minus_1)

lemma PGROUNDDOWN_aligned [simp]: "4096 dvd unat (PGROUNDDOWN a)"
  by (simp add: unat_PGROUNDDOWN)

lemma pfn_PGROUNDDOWN [simp]: "pfn (PGROUNDDOWN a) = pfn a"
  by (simp add: pfn_def unat_PGROUNDDOWN)

lemma PGROUNDDOWN_le: "PGROUNDDOWN a \<le> a"
  by (simp add: word_le_nat_alt unat_PGROUNDDOWN)

lemma unat_PGROUNDUP:
  assumes "unat sz + 4095 < 2 ^ 64"
  shows "unat (PGROUNDUP sz) = (unat sz + 4095) div 4096 * 4096"
proof -
  have "unat (sz + 4095) = unat sz + 4095"
    using assms by (simp add: unat_word_ariths)
  then show ?thesis
    using and_not_mask_arith [of "sz + 4095" 12] by (simp add: PGROUNDUP_def mask_eq_exp_minus_1 add.commute)
qed

lemma PGROUNDUP_aligned [simp]: "4096 dvd unat (PGROUNDUP sz)"
  using and_not_mask_arith [of "sz + 4095" 12] by (simp add: PGROUNDUP_def mask_eq_exp_minus_1 add.commute)

lemma unat_PX: "unat (PX l va) = unat va div 2 ^ PXSHIFT l mod 512"
proof -
  have "drop_bit (PXSHIFT l) va AND 0x1FF = take_bit 9 (drop_bit (PXSHIFT l) va)"
    by (simp add: take_bit_eq_mask mask_eq_exp_minus_1)
  then have "unat (PX l va) = take_bit 9 (drop_bit (PXSHIFT l) (unat va))"
    by (simp only: PX_def unsigned_take_bit_eq unat_drop_bit_eq)
  then show ?thesis
    by (simp add: take_bit_eq_mod drop_bit_eq_div)
qed

lemma PX_less: "unat (PX l va) < 512"
  by (simp add: unat_PX)

text \<open>Below \<open>MAXVA\<close> the three indices determine the page, and the page the indices.\<close>

lemma PX_eq_iff_pfn:
  assumes "va < MAXVA" and "va' < MAXVA"
  shows "PX 2 va = PX 2 va' \<and> PX 1 va = PX 1 va' \<and> PX 0 va = PX 0 va' \<longleftrightarrow> pfn va = pfn va'"
proof -
  have arith: "(a div 2 ^ 30 mod 512 = b div 2 ^ 30 mod 512 \<and> a div 2 ^ 21 mod 512 = b div 2 ^ 21 mod 512
      \<and> a div 2 ^ 12 mod 512 = b div 2 ^ 12 mod 512) \<longleftrightarrow> a div 4096 = b div 4096"
    if "a < 2 ^ 38" "b < 2 ^ 38" for a b :: nat
  proof -
    have split: "c div 4096 = (c div 2 ^ 30 mod 512) * 262144 + (c div 2 ^ 21 mod 512) * 512 + c div 2 ^ 12 mod 512"
      if "c < 2 ^ 38" for c :: nat
    proof -
      have "c div 2 ^ 21 = c div 4096 div 512" "c div 2 ^ 30 = c div 4096 div 512 div 512"
        by (simp_all add: div_mult2_eq [symmetric])
      moreover have "c div 4096 < 2 ^ 26" using that by (simp add: div_less_iff_less_mult)
      moreover have "q = q div 512 div 512 mod 512 * 262144 + q div 512 mod 512 * 512 + q mod 512"
        if "q < 2 ^ 26" for q :: nat
      proof -
        have "q div 512 div 512 < 512" using that by (simp add: div_less_iff_less_mult)
        moreover have "q = q div 512 * 512 + q mod 512" by simp
        moreover have "q div 512 = q div 512 div 512 * 512 + q div 512 mod 512"
          by (rule div_mult_mod_eq [symmetric])
        ultimately show ?thesis by (simp only: mod_less)
      qed
      ultimately have "c div 4096 = c div 4096 div 512 div 512 mod 512 * 262144
          + c div 4096 div 512 mod 512 * 512 + c div 4096 mod 512"
        by blast
      then show ?thesis
        using \<open>c div 2 ^ 21 = _\<close> \<open>c div 2 ^ 30 = _\<close> by simp
    qed
    have fine: "c div 2 ^ 21 = c div 4096 div 512" "c div 2 ^ 30 = c div 4096 div 512 div 512" for c :: nat
      by (simp_all add: div_mult2_eq [symmetric])
    show ?thesis
      using split [OF that(1)] split [OF that(2)] fine by auto
  qed
  have "unat va < 2 ^ 38" "unat va' < 2 ^ 38"
    using assms by (simp_all add: word_less_nat_alt)
  then show ?thesis
    using arith [of "unat va" "unat va'"]
    by (simp add: word_unat_eq_iff unat_PX PXSHIFT_def pfn_def)
qed

text \<open>The physical address and the flags of a page-table entry are recovered from it.\<close>

lemma unat_PA2PTE: "unat pa < 2 ^ 56 \<Longrightarrow> unat (PA2PTE pa) = unat pa div 4096 * 1024"
  by (simp only: PA2PTE_def unsigned_push_bit_eq unat_drop_bit_eq)
     (simp add: push_bit_eq_mult drop_bit_eq_div take_bit_nat_eq_self)

lemma PTE2PA_aligned [simp]: "4096 dvd unat (PTE2PA pte)"
  by (simp only: PTE2PA_def unsigned_push_bit_eq) (simp add: push_bit_eq_mult take_bit_eq_mod dvd_mod)

lemma flags_small_bit: "f < 1024 \<Longrightarrow> bit f n \<Longrightarrow> n < 10" for f :: u64
proof (rule ccontr)
  assume f: "f < 1024" and b: "bit f n" and "\<not> n < 10"
  have "unat f < 2 ^ 10" using f by (simp add: word_less_nat_alt)
  then have "unat (take_bit 10 f) = unat f"
    by (simp only: unsigned_take_bit_eq) (simp add: take_bit_nat_eq_self)
  then have "take_bit 10 f = f" by (simp only: word_unat_eq_iff)
  then have "bit (take_bit 10 f) n" using b by simp
  with \<open>\<not> n < 10\<close> show False by (simp add: bit_simps)
qed

lemma PTE2PA_PA2PTE:
  assumes "4096 dvd unat pa" and "unat pa < 2 ^ 56" and "f < 1024"
  shows "PTE2PA (PA2PTE pa OR f) = pa"
proof -
  have low: "\<not> bit pa n" if "n < 12" for n
  proof -
    have "take_bit 12 (unat pa) = 0"
      using assms(1) by (simp add: take_bit_eq_mod)
    then have "\<not> bit (take_bit 12 (unat pa)) n" by simp
    then show ?thesis using that by (simp add: bit_simps)
  qed
  have high: "n < 56" if "bit pa n" for n
  proof (rule ccontr)
    assume "\<not> n < 56"
    have "take_bit 56 (unat pa) = unat pa" using assms(2) by (simp add: take_bit_nat_eq_self)
    moreover have "bit (unat pa) n" using that by (simp add: bit_simps)
    ultimately have "bit (take_bit 56 (unat pa)) n" by simp
    with \<open>\<not> n < 56\<close> show False by (simp add: bit_simps)
  qed
  show ?thesis
  proof (rule bit_word_eqI)
    fix n :: nat
    assume "n < LENGTH(64)"
    show "bit (PTE2PA (PA2PTE pa OR f)) n = bit pa n"
    proof (cases "n < 12")
      case True
      then show ?thesis using low by (simp add: PTE2PA_def bit_simps)
    next
      case False
      then obtain k where n: "n = 12 + k" using le_Suc_ex not_less by blast
      have "\<not> bit f (10 + k)" using flags_small_bit [OF assms(3), of "10 + k"] by auto
      then show ?thesis
        using n \<open>n < LENGTH(64)\<close> high [of n] by (auto simp: PTE2PA_def PA2PTE_def bit_simps)
    qed
  qed
qed

lemma PTE_FLAGS_PA2PTE:
  assumes "f < 1024"
  shows "PTE_FLAGS (PA2PTE pa OR f) = f"
proof (rule bit_word_eqI)
  fix n :: nat
  assume "n < LENGTH(64)"
  have m: "PTE_FLAGS w = w AND mask 10" for w by (simp add: PTE_FLAGS_def mask_eq_exp_minus_1)
  show "bit (PTE_FLAGS (PA2PTE pa OR f)) n = bit f n"
    using flags_small_bit [OF assms, of n] by (auto simp: m PA2PTE_def bit_simps)
qed

lemma PTE_flag_test:
  assumes "k < 10"
  shows "(PA2PTE pa OR f) AND 2 ^ k = 0 \<longleftrightarrow> \<not> bit f k"
proof -
  have "(PA2PTE pa OR f) AND 2 ^ k = 0 \<longleftrightarrow> \<not> bit (PA2PTE pa OR f) k"
    by (simp add: and_exp_eq_0_iff_not_bit)
  then show ?thesis using assms by (simp add: PA2PTE_def bit_simps)
qed

end
