(* ===== verification/Xv6_String.thy ===== *)
theory Xv6_String
  imports Xv6_Riscv
begin

unbundle bit_operations_syntax

text \<open>
  \<open>kernel/string.c\<close>. The functions that write through a pointer into memory that may overlap their
  source (\<open>memset\<close>, \<open>memmove\<close>, \<open>memcpy\<close>) work on the byte-addressed memory, loop by loop, as
  the C code does, and are proved equal to closed forms which the other components use. The
  functions that only read take a view of the array behind the pointer, a function from the index to
  the byte, so that they serve kernel memory and the arrays inside kernel structures alike;
  \<open>strncpy\<close> and \<open>safestrcpy\<close> give the list of bytes they write from their destination on.
\<close>

type_synonym view = "nat \<Rightarrow> byte"

abbreviation (input) shift :: "view \<Rightarrow> view" where
  "shift v \<equiv> (\<lambda>i. v (Suc i))"

definition mem_view :: "mem \<Rightarrow> addr \<Rightarrow> view" where
  "mem_view m a = (\<lambda>i. m (a + of_nat i))"

definition list_view :: "byte list \<Rightarrow> view" where
  "list_view bs = (\<lambda>i. if i < length bs then bs ! i else 0)"

section \<open>Definitions\<close>

text \<open>\<open>for(i = 0; i < n; i++) cdst[i] = c\<close>\<close>

function memset_loop :: "mem \<Rightarrow> addr \<Rightarrow> byte \<Rightarrow> nat \<Rightarrow> nat \<Rightarrow> mem" where
  "memset_loop m dst c i n =
     (if i < n then memset_loop (m(dst + of_nat i := c)) dst c (Suc i) n else m)"
  by pat_completeness auto
termination
  by (relation "measure (\<lambda>(m, dst, c, i, n). n - i)") auto

declare memset_loop.simps [simp del]

definition memset :: "mem \<Rightarrow> addr \<Rightarrow> byte \<Rightarrow> u32 \<Rightarrow> mem" where
  "memset m dst c n = memset_loop m dst c 0 (unat n)"

fun memcmp :: "view \<Rightarrow> view \<Rightarrow> nat \<Rightarrow> int" where
  "memcmp s1 s2 0 = 0"
| "memcmp s1 s2 (Suc n) =
     (if s1 0 \<noteq> s2 0 then int (unat (s1 0)) - int (unat (s2 0))
      else memcmp (shift s1) (shift s2) n)"

text \<open>\<open>while(n-- > 0) *--d = *--s\<close> and \<open>while(n-- > 0) *d++ = *s++\<close>\<close>

primrec memmove_bwd :: "nat \<Rightarrow> mem \<Rightarrow> addr \<Rightarrow> addr \<Rightarrow> mem" where
  "memmove_bwd 0 m d s = m"
| "memmove_bwd (Suc n) m d s = memmove_bwd n (m(d - 1 := m (s - 1))) (d - 1) (s - 1)"

primrec memmove_fwd :: "nat \<Rightarrow> mem \<Rightarrow> addr \<Rightarrow> addr \<Rightarrow> mem" where
  "memmove_fwd 0 m d s = m"
| "memmove_fwd (Suc n) m d s = memmove_fwd n (m(d := m s)) (d + 1) (s + 1)"

definition memmove :: "mem \<Rightarrow> addr \<Rightarrow> addr \<Rightarrow> u32 \<Rightarrow> mem" where
  "memmove m dst src n =
     (if n = 0 then m
      else if src < dst \<and> src + ucast n > dst
      then memmove_bwd (unat n) m (dst + ucast n) (src + ucast n)
      else memmove_fwd (unat n) m dst src)"

definition memcpy :: "mem \<Rightarrow> addr \<Rightarrow> addr \<Rightarrow> u32 \<Rightarrow> mem" where
  "memcpy m dst src n = memmove m dst src n"

fun strncmp :: "view \<Rightarrow> view \<Rightarrow> nat \<Rightarrow> int" where
  "strncmp p q 0 = 0"
| "strncmp p q (Suc n) =
     (if p 0 \<noteq> 0 \<and> p 0 = q 0 then strncmp (shift p) (shift q) n
      else int (unat (p 0)) - int (unat (q 0)))"

fun strncpy :: "view \<Rightarrow> nat \<Rightarrow> byte list" where
  "strncpy t 0 = []"
| "strncpy t (Suc n) = (if t 0 = 0 then 0 # replicate n 0 else t 0 # strncpy (shift t) n)"

text \<open>
  \<open>while(--n > 0 && (*s++ = *t++) != 0); *s = 0\<close>: after a copied terminator the final store
  writes one more zero.
\<close>

fun safestrcpy_loop :: "view \<Rightarrow> nat \<Rightarrow> byte list" where
  "safestrcpy_loop t 0 = [0]"
| "safestrcpy_loop t (Suc k) = (if t 0 = 0 then [0, 0] else t 0 # safestrcpy_loop (shift t) k)"

definition safestrcpy :: "view \<Rightarrow> int \<Rightarrow> byte list" where
  "safestrcpy t n = (if n \<le> 0 then [] else safestrcpy_loop t (nat n - 1))"

partial_function (option) strlen_loop :: "view \<Rightarrow> nat \<Rightarrow> nat option" where
  "strlen_loop s n = (if s n = 0 then Some n else strlen_loop s (Suc n))"

definition strlen :: "view \<Rightarrow> nat option" where
  "strlen s = strlen_loop s 0"

section \<open>Closed forms\<close>

lemma memset_loop_eq:
  assumes "i \<le> n" and "n \<le> 2 ^ 64"
  shows "memset_loop m dst c i n = (\<lambda>x. if i \<le> unat (x - dst) \<and> unat (x - dst) < n then c else m x)"
  using assms
proof (induction m dst c i n rule: memset_loop.induct)
  case (1 m dst c i n)
  show ?case
  proof (cases "i < n")
    case True
    have "x = dst + of_nat i \<longleftrightarrow> unat (x - dst) = i" for x
    proof -
      have "x = dst + of_nat i \<longleftrightarrow> x - dst = of_nat i" by (auto simp: algebra_simps)
      also have "\<dots> \<longleftrightarrow> unat (x - dst) = i"
        using True 1(3) by (auto simp: word_unat_eq_iff unat_of_nat_small)
      finally show ?thesis .
    qed
    then have upd: "m(dst + of_nat i := c) = (\<lambda>x. if unat (x - dst) = i then c else m x)"
      by (auto simp: fun_eq_iff)
    have "memset_loop m dst c i n = memset_loop (m(dst + of_nat i := c)) dst c (Suc i) n"
      using True by (subst memset_loop.simps) simp
    also have "\<dots> = (\<lambda>x. if Suc i \<le> unat (x - dst) \<and> unat (x - dst) < n then c
        else (m(dst + of_nat i := c)) x)"
      by (rule 1(1)) (use 1(2,3) True in auto)
    also have "\<dots> = (\<lambda>x. if i \<le> unat (x - dst) \<and> unat (x - dst) < n then c else m x)"
      unfolding upd using True by (auto simp: fun_eq_iff)
    finally show ?thesis .
  next
    case False
    then show ?thesis
      using 1 by (subst memset_loop.simps) (auto simp: fun_eq_iff)
  qed
qed

lemma memset_eq: "memset m dst c n = (\<lambda>x. if unat (x - dst) < unat n then c else m x)"
proof -
  have "unat n < 2 ^ 32" using unsigned_less [of n, where 'a = nat] by simp
  then show ?thesis by (simp add: memset_def memset_loop_eq)
qed

lemma memmove_fwd_eq:
  assumes "n \<le> 2 ^ 64" and "s = d \<or> n \<le> unat (d - s)"
  shows "memmove_fwd n m d s = (\<lambda>x. if unat (x - d) < n then m (s + (x - d)) else m x)"
  using assms
proof (induction n arbitrary: m d s)
  case 0
  then show ?case by simp
next
  case (Suc n)
  have "memmove_fwd n m' (d + 1) (s + 1) =
      (\<lambda>x. if unat (x - (d + 1)) < n then m' (s + 1 + (x - (d + 1))) else m' x)" for m'
    by (rule Suc.IH) (use Suc.prems in auto)
  moreover have "s + 1 + (x - (d + 1)) = s + (x - d)" for x by simp
  ultimately have IH: "memmove_fwd (Suc n) m d s =
      (\<lambda>x. if unat (x - (d + 1)) < n then (m(d := m s)) (s + (x - d)) else (m(d := m s)) x)"
    by (simp only: memmove_fwd.simps)
  show ?case
  proof (rule ext)
    fix x
    show "memmove_fwd (Suc n) m d s x = (if unat (x - d) < Suc n then m (s + (x - d)) else m x)"
    proof (cases "x = d")
      case True
      have "unat (d - (d + 1)) = 2 ^ 64 - 1"
        by (simp add: unsigned_minus_1_eq_mask mask_eq_exp_minus_1)
      then show ?thesis unfolding IH using True Suc.prems(1) by simp
    next
      case False
      then have nz: "x - d \<noteq> 0" by simp
      have step: "unat (x - (d + 1)) = unat (x - d) - 1"
        using unat_minus_one [OF nz] by (simp add: algebra_simps)
      have pos: "0 < unat (x - d)" using nz by (simp add: unat_gt_0)
      have "s + (x - d) \<noteq> d" if "unat (x - d) < Suc n"
      proof
        assume "s + (x - d) = d"
        then have "d - s = x - d" by (simp add: algebra_simps)
        then show False using Suc.prems(2) that nz by auto
      qed
      then show ?thesis
        unfolding IH using False step pos by auto
    qed
  qed
qed

lemma memmove_bwd_eq:
  assumes "n < 2 ^ 64" and "s = d \<or> n \<le> unat (s - d)"
  shows "memmove_bwd n m d s =
    (\<lambda>x. if unat (x - (d - of_nat n)) < n then m (s + (x - d)) else m x)"
  using assms
proof (induction n arbitrary: m d s)
  case 0
  then show ?case by simp
next
  case (Suc n)
  have "memmove_bwd n m' (d - 1) (s - 1) =
      (\<lambda>x. if unat (x - (d - 1 - of_nat n)) < n then m' (s - 1 + (x - (d - 1))) else m' x)" for m'
    by (rule Suc.IH) (use Suc.prems in auto)
  moreover have "s - 1 + (x - (d - 1)) = s + (x - d)" and "d - 1 - of_nat n = d - of_nat (Suc n)" for x
    by simp_all
  ultimately have IH: "memmove_bwd (Suc n) m d s =
      (\<lambda>x. if unat (x - (d - of_nat (Suc n))) < n then (m(d - 1 := m (s - 1))) (s + (x - d))
           else (m(d - 1 := m (s - 1))) x)"
    by (simp only: memmove_bwd.simps)
  show ?case
  proof (rule ext)
    fix x
    let ?k = "x - (d - of_nat (Suc n))"
    have last: "x = d - 1 \<longleftrightarrow> unat ?k = n"
    proof -
      have "x = d - 1 \<longleftrightarrow> ?k = of_nat n" by (auto simp: algebra_simps)
      then show ?thesis using Suc.prems(1) by (auto simp: word_unat_eq_iff unat_of_nat_small)
    qed
    have "s + (x - d) \<noteq> d - 1" if "unat ?k < n"
    proof
      assume eq: "s + (x - d) = d - 1"
      then have sd: "s - d = of_nat n - ?k" by (simp add: algebra_simps)
      have un: "unat (of_nat n :: addr) = n" using Suc.prems(1) by (simp add: unat_of_nat_small)
      have "?k \<le> of_nat n" using that unfolding word_le_nat_alt un by linarith
      then have "unat (s - d) = n - unat ?k" unfolding sd by (simp only: unat_sub un)
      then show False using Suc.prems(2) that eq last by auto
    qed
    then show "memmove_bwd (Suc n) m d s x =
        (if unat ?k < Suc n then m (s + (x - d)) else m x)"
      unfolding IH using last by (auto simp: less_Suc_eq)
  qed
qed


lemma ucast_u32_unat: "unat (ucast (n :: u32) :: addr) = unat n"
  by (simp add: unsigned_ucast_eq take_bit_nat_eq_self less_le_trans [OF unsigned_less])

lemma memmove_eq:
  assumes "unat src + unat n < 2 ^ 64"
  shows "memmove m dst src n = (\<lambda>x. if unat (x - dst) < unat n then m (src + (x - dst)) else m x)"
proof (cases "n = 0")
  case True
  then show ?thesis by (simp add: memmove_def)
next
  case False
  have n32: "unat n < 2 ^ 32" using unsigned_less [of n, where 'a = nat] by simp
  have sn: "unat (src + ucast n) = unat src + unat n"
    using assms by (subst unat_add_lem [THEN iffD1]) (simp_all add: ucast_u32_unat)
  have nn: "ucast n = (of_nat (unat n) :: addr)" by (simp add: word_unat_eq_iff ucast_u32_unat)
  show ?thesis
  proof (cases "src < dst \<and> src + ucast n > dst")
    case True
    then have lt: "unat src < unat dst" "unat dst < unat src + unat n"
      by (simp_all add: word_less_nat_alt sn)
    have "unat (src - dst) = 2 ^ 64 + unat src - unat dst"
      using lt by (subst unat_sub_if') (auto simp: word_size)
    then have "unat n \<le> unat ((src + ucast n) - (dst + ucast n))"
      using lt n32 by simp
    moreover have idx: "src + ucast n + (x - (dst + ucast n)) = src + (x - dst)" for x by simp
    ultimately have "memmove_bwd (unat n) m (dst + ucast n) (src + ucast n) =
      (\<lambda>x. if unat (x - dst) < unat n then m (src + (x - dst)) else m x)"
      using memmove_bwd_eq [of "unat n" "src + ucast n" "dst + ucast n" m] n32
      by (simp add: nn [symmetric] idx cong: if_cong)
    then show ?thesis using True False by (simp add: memmove_def)
  next
    case F: False
    have "src = dst \<or> unat n \<le> unat (dst - src)"
      using F assms by (auto simp: word_less_nat_alt sn unat_sub_if' word_size word_unat_eq_iff)
    then show ?thesis
      using F False memmove_fwd_eq [of "unat n" src dst m] n32 by (auto simp: memmove_def)
  qed
qed


section \<open>Strings\<close>

text \<open>The C string a view holds within its first n bytes.\<close>

definition cstr :: "view \<Rightarrow> nat \<Rightarrow> byte list" where
  "cstr p n = takeWhile (\<lambda>b. b \<noteq> 0) (map p [0..<n])"

lemma map_upt_Suc_shift: "map p [0..<Suc n] = p 0 # map (shift p) [0..<n]"
  by (simp add: upt_conv_Cons map_Suc_upt [symmetric] comp_def del: upt_Suc)

lemma cstr_0 [simp]: "cstr p 0 = []"
  by (simp add: cstr_def)

lemma cstr_Suc [simp]: "cstr p (Suc n) = (if p 0 = 0 then [] else p 0 # cstr (shift p) n)"
  unfolding cstr_def by (simp only: map_upt_Suc_shift) simp

lemma cstr_numeral [simp]:
  "cstr p (numeral k) = (if p 0 = 0 then [] else p 0 # cstr (shift p) (pred_numeral k))"
  by (simp add: numeral_eq_Suc)

lemma length_cstr_le: "length (cstr p n) \<le> n"
  unfolding cstr_def by (metis length_map length_takeWhile_le length_upt minus_nat.diff_0)

lemma strncmp_0_iff: "strncmp p q n = 0 \<longleftrightarrow> cstr p n = cstr q n"
  by (induction p q n rule: strncmp.induct) (auto simp: word_uint_eq_iff)

lemma memcmp_0_iff: "memcmp p q n = 0 \<longleftrightarrow> (\<forall>i<n. p i = q i)"
  by (induction p q n rule: memcmp.induct) (auto simp: less_Suc_eq_0_disj word_uint_eq_iff)

lemma list_view_Cons [simp]:
  "list_view (b # bs) 0 = b" "(\<lambda>i. list_view (b # bs) (Suc i)) = list_view bs"
  by (auto simp: list_view_def)

lemma list_view_replicate_0 [simp]: "list_view (replicate n 0) = (\<lambda>_. 0)"
  by (auto simp: list_view_def)

lemma length_strncpy [simp]: "length (strncpy t n) = n"
  by (induction t n rule: strncpy.induct) auto

lemma strncpy_cstr: "strncpy t n = cstr t n @ replicate (n - length (cstr t n)) 0"
  by (induction t n rule: strncpy.induct) auto

lemma cstr_strncpy: "cstr (list_view (strncpy t n)) n = cstr t n"
  by (induction t n rule: strncpy.induct) auto

lemma safestrcpy_loop_cstr: "cstr (list_view (safestrcpy_loop t k)) (Suc k) = cstr t k"
  by (induction t k rule: safestrcpy_loop.induct) auto

lemma safestrcpy_loop_bounds: "length (safestrcpy_loop t k) \<le> Suc k" "0 \<in> set (safestrcpy_loop t k)"
  by (induction t k rule: safestrcpy_loop.induct) auto

lemma strlen_loop_Least:
  assumes "s (i + k) = 0" and "\<And>j. j < k \<Longrightarrow> s (i + j) \<noteq> 0"
  shows "strlen_loop s i = Some (i + k)"
  using assms
proof (induction k arbitrary: i)
  case 0
  then show ?case by (subst strlen_loop.simps) simp
next
  case (Suc k)
  have "s i \<noteq> 0" using Suc.prems(2) [of 0] by simp
  moreover have "strlen_loop s (Suc i) = Some (Suc i + k)"
    by (rule Suc.IH) (use Suc.prems(1) Suc.prems(2) [of "Suc _"] in auto)
  ultimately show ?case by (subst strlen_loop.simps) simp
qed

lemma strlen_Some:
  assumes "s k = 0" and "\<And>j. j < k \<Longrightarrow> s j \<noteq> 0"
  shows "strlen s = Some k"
  using strlen_loop_Least [of s 0 k] assms by (simp add: strlen_def)

section \<open>Properties\<close>

text \<open>
  C40: \<open>memmove\<close> copies correctly even when source and destination overlap: whichever of its two
  loops runs, the destination holds what the source held before the call and every other byte of
  memory is unchanged, provided the source does not wrap around the address space.
\<close>

theorem memmove_overlap_correct:
  assumes "unat src + unat n < 2 ^ 64"
  shows "(\<forall>i < unat n. memmove m dst src n (dst + of_nat i) = m (src + of_nat i)) \<and>
    (\<forall>x. unat (x - dst) \<ge> unat n \<longrightarrow> memmove m dst src n x = m x)"
proof -
  have "unat (of_nat i :: addr) = i" if "i < unat n" for i
    using that assms by (intro unat_of_nat_small) simp
  then show ?thesis by (simp add: memmove_eq [OF assms])
qed

theorem memmove_overlap_correct_witness:
  "memmove (\<lambda>x. ucast x) 0x1004 0x1000 8 (0x1004 + of_nat 5) = 5"
proof -
  have "\<forall>i < unat (8 :: u32). memmove (\<lambda>x. ucast x) 0x1004 0x1000 8 (0x1004 + of_nat i) =
      ucast (0x1000 + of_nat i :: addr)"
    using memmove_overlap_correct [of "0x1000" 8 "\<lambda>x. ucast x" "0x1004"] by simp
  then have "memmove (\<lambda>x. ucast x) 0x1004 0x1000 8 (0x1004 + of_nat 5) =
      ucast (0x1000 + of_nat 5 :: addr)"
    by (rule allE [of _ 5]) simp
  then show ?thesis by simp
qed

text \<open>
  \<open>strncpy\<close> followed by \<open>strncmp\<close> agrees with the original: a directory name stored with
  \<open>strncpy(de.name, name, n)\<close> compares equal with exactly those names that have the same first n
  bytes up to the terminator.
\<close>

theorem strncpy_strncmp_roundtrip:
  "length (strncpy t n) = n \<and>
   (strncmp (list_view (strncpy t n)) s n = 0 \<longleftrightarrow> cstr t n = cstr s n)"
  by (simp add: strncmp_0_iff cstr_strncpy)

text \<open>
  \<open>safestrcpy\<close> never writes more than n bytes, always leaves a terminated string, and that
  string is the source cut to n - 1 characters.
\<close>

theorem safestrcpy_terminates_within:
  assumes "0 < n"
  shows "length (safestrcpy t n) \<le> nat n \<and> 0 \<in> set (safestrcpy t n) \<and>
    cstr (list_view (safestrcpy t n)) (nat n) = cstr t (nat n - 1)"
proof -
  obtain k where "nat n = Suc k" using assms by (metis gr0_implies_Suc zero_less_nat_eq)
  then show ?thesis
    using assms safestrcpy_loop_bounds [of t k] safestrcpy_loop_cstr [of t k]
    by (simp add: safestrcpy_def)
qed

theorem safestrcpy_terminates_within_witness:
  "cstr (list_view (safestrcpy (list_view [0x69, 0x6e, 0x69, 0x74]) 3)) 3 = [0x69, 0x6e]"
  using safestrcpy_terminates_within [of 3 "list_view [0x69, 0x6e, 0x69, 0x74]"]
  by simp

end
