(* ===== verification/Xv6_Kalloc.thy ===== *)
theory Xv6_Kalloc
  imports Xv6_String
begin

unbundle bit_operations_syntax

text \<open>
  \<open>kernel/kalloc.c\<close>: the physical page allocator. The kernel runs with physical memory mapped at
  its own addresses, so one byte-addressed memory serves for both. The free list is threaded through
  the free pages themselves (\<open>struct run\<close> lies at the start of each free page), and the model
  keeps it there: \<open>kfree\<close> and \<open>kalloc\<close> read and write the next pointer in memory. The critical
  sections under \<open>kmem.lock\<close> are atomic here. \<open>kend\<close> stands for the linker symbol \<open>end\<close>, the
  first address after the kernel.

  The list of free pages is the abstraction; \<open>page_allocator\<close> is the contract that the
  page-table code relies on, in terms of the set of free pages.
\<close>

record kstate =
  pmem :: mem
  freelist :: addr

section \<open>Operations\<close>

definition kfree :: "addr \<Rightarrow> addr \<Rightarrow> kstate \<Rightarrow> kstate outcome" where
  "kfree kend pa s =
     (if pa mod PGSIZE \<noteq> 0 \<or> pa < kend \<or> pa \<ge> PHYSTOP then Panic ''kfree''
      else (let m = memset (pmem s) pa 1 4096
            in Ok (s\<lparr>pmem := st64 m pa (freelist s), freelist := pa\<rparr>)))"

definition kalloc :: "kstate \<Rightarrow> addr \<times> kstate" where
  "kalloc s =
     (let r = freelist s;
          s1 = (if r \<noteq> 0 then s\<lparr>freelist := ld64 (pmem s) r\<rparr> else s);
          s2 = (if r \<noteq> 0 then s1\<lparr>pmem := memset (pmem s1) r 5 4096\<rparr> else s1)
      in (r, s2))"

lemma kfree_Ok_bounds: "kfree kend pa s = Ok s' \<Longrightarrow> pa < PHYSTOP"
  by (auto simp: kfree_def split: if_splits)

function freerange_loop :: "addr \<Rightarrow> addr \<Rightarrow> addr \<Rightarrow> kstate \<Rightarrow> kstate outcome" where
  "freerange_loop kend p pa_end s =
     (if p + PGSIZE \<le> pa_end
      then obind (kfree kend p s) (\<lambda>s'. freerange_loop kend (p + PGSIZE) pa_end s')
      else Ok s)"
  by pat_completeness auto
termination
proof (relation "measure (\<lambda>(kend, p, pa_end, s). unat PHYSTOP + 4096 - unat p)", goal_cases)
  case 1
  then show ?case by simp
next
  case (2 kend p pa_end s s')
  then have "unat p < unat PHYSTOP" using kfree_Ok_bounds word_less_nat_alt by blast
  moreover from this have "unat (p + PGSIZE) = unat p + 4096"
    by (subst unat_add_lem [THEN iffD1]) auto
  ultimately show ?case by simp
qed

declare freerange_loop.simps [simp del]

definition freerange :: "addr \<Rightarrow> addr \<Rightarrow> addr \<Rightarrow> kstate \<Rightarrow> kstate outcome" where
  "freerange kend pa_start pa_end s = freerange_loop kend (PGROUNDUP pa_start) pa_end s"

definition kinit :: "addr \<Rightarrow> mem \<Rightarrow> kstate outcome" where
  "kinit kend m = freerange kend kend PHYSTOP \<lparr>pmem = m, freelist = 0\<rparr>"

section \<open>The free list\<close>

primrec flist :: "mem \<Rightarrow> addr \<Rightarrow> addr list \<Rightarrow> bool" where
  "flist m p [] \<longleftrightarrow> p = 0"
| "flist m p (x # xs) \<longleftrightarrow> p = x \<and> x \<noteq> 0 \<and> flist m (ld64 m x) xs"

definition page_ok :: "addr \<Rightarrow> addr \<Rightarrow> bool" where
  "page_ok kend p \<longleftrightarrow> 0 < kend \<and> p mod PGSIZE = 0 \<and> kend \<le> p \<and> p < PHYSTOP"

definition kmem_list :: "addr \<Rightarrow> kstate \<Rightarrow> addr list \<Rightarrow> bool" where
  "kmem_list kend s ps \<longleftrightarrow> flist (pmem s) (freelist s) ps \<and> distinct ps \<and> list_all (page_ok kend) ps"

definition kmem_inv :: "addr \<Rightarrow> kstate \<Rightarrow> addr set \<Rightarrow> bool" where
  "kmem_inv kend s F \<longleftrightarrow> (\<exists>ps. kmem_list kend s ps \<and> set ps = F)"

lemma mod_4096_iff: "(p :: u64) mod 4096 = 0 \<longleftrightarrow> 4096 dvd unat p"
  by (simp add: word_unat_eq_iff unat_mod dvd_eq_mod_eq_0)

lemma page_ok_aligned [dest]: "page_ok kend p \<Longrightarrow> 4096 dvd unat p"
  by (simp add: page_ok_def mod_4096_iff)

lemma aligned_8: "4096 dvd unat p \<Longrightarrow> 8 dvd unat p"
  by (rule dvd_trans [of _ 4096]) simp_all

lemma page_ok_not_0: "page_ok kend p \<Longrightarrow> p \<noteq> 0"
  by (auto simp: page_ok_def)

lemma memset_page: "4096 dvd unat p \<Longrightarrow> memset m p c 4096 = (\<lambda>x. if pfn x = pfn p then c else m x)"
  by (simp add: memset_eq pfn_range_iff cong: if_cong)

lemma st64_page: "8 dvd unat a \<Longrightarrow> pfn x \<noteq> pfn a \<Longrightarrow> st64 m a v x = m x"
  by (rule st64_apply) (auto dest: pfn_cell)

lemma ld64_page_cong:
  "8 dvd unat a \<Longrightarrow> (\<And>x. pfn x = pfn a \<Longrightarrow> m x = m' x) \<Longrightarrow> ld64 m a = ld64 m' a"
  by (rule ld64_eqI) (auto dest: pfn_cell)

lemma ld64_memset:
  assumes "8 dvd unat a" "4096 dvd unat p"
  shows "pfn a \<noteq> pfn p \<Longrightarrow> ld64 (memset m p c 4096) a = ld64 m a" "pfn a = pfn p \<Longrightarrow> ld64 (memset m p 0 4096) a = 0"
proof -
  show "ld64 (memset m p c 4096) a = ld64 m a" if "pfn a \<noteq> pfn p"
    by (rule ld64_page_cong [OF assms(1)]) (use that in \<open>simp add: memset_page [OF assms(2)]\<close>)
  have "ld64 (memset m p 0 4096) a = ld64 (\<lambda>_. 0) a" if "pfn a = pfn p"
    by (rule ld64_page_cong [OF assms(1)]) (use that in \<open>simp add: memset_page [OF assms(2)]\<close>)
  then show "ld64 (memset m p 0 4096) a = 0" if "pfn a = pfn p" using that by simp
qed

lemma flist_cong:
  assumes "\<forall>x. pfn x \<in> pfn ` set ps \<longrightarrow> m' x = m x" and "\<forall>p \<in> set ps. 4096 dvd unat p"
  shows "flist m' h ps = flist m h ps"
  using assms
proof (induction ps arbitrary: h)
  case (Cons p ps)
  have "ld64 m' p = ld64 m p"
    using Cons.prems by (intro ld64_page_cong) (auto intro: aligned_8)
  then show ?case using Cons by simp
qed simp

lemma kmem_list_aligned: "kmem_list kend s ps \<Longrightarrow> \<forall>p \<in> set ps. 4096 dvd unat p"
  by (auto simp: kmem_list_def list_all_iff)

lemma pfn_notin:
  "4096 dvd unat p \<Longrightarrow> \<forall>q \<in> S. 4096 dvd unat q \<Longrightarrow> p \<notin> S \<Longrightarrow> pfn p \<notin> pfn ` S"
  using pfn_eq by blast

lemma kmem_list_cong:
  assumes "kmem_list kend s ps" and "freelist s' = freelist s"
    and "\<forall>x. pfn x \<in> pfn ` set ps \<longrightarrow> pmem s' x = pmem s x"
  shows "kmem_list kend s' ps"
  using assms flist_cong [OF assms(3) kmem_list_aligned [OF assms(1)]]
  by (simp add: kmem_list_def)

lemma kfree_panic_iff: "0 < kend \<Longrightarrow> kfree kend pa s = Panic ''kfree'' \<longleftrightarrow> \<not> page_ok kend pa"
  by (auto simp: kfree_def page_ok_def Let_def)

lemma kfree_Ok:
  assumes "page_ok kend pa"
  obtains s' where "kfree kend pa s = Ok s'" and "freelist s' = pa"
    and "ld64 (pmem s') pa = freelist s" and "\<And>x. pfn x \<noteq> pfn pa \<Longrightarrow> pmem s' x = pmem s x"
proof
  let ?s' = "s\<lparr>pmem := st64 (memset (pmem s) pa 1 4096) pa (freelist s), freelist := pa\<rparr>"
  have al: "4096 dvd unat pa" using assms by (rule page_ok_aligned)
  show "kfree kend pa s = Ok ?s'"
    using assms by (auto simp: kfree_def page_ok_def Let_def)
  show "pmem ?s' x = pmem s x" if "pfn x \<noteq> pfn pa" for x
    using that by (simp add: st64_page aligned_8 [OF al] memset_page [OF al])
qed simp_all

lemma kfree_kmem_list:
  assumes inv: "kmem_list kend s ps" and ok: "page_ok kend pa" and new: "pa \<notin> set ps"
    and fr: "kfree kend pa s = Ok s'"
  shows "kmem_list kend s' (pa # ps) \<and> (\<forall>x. pfn x \<noteq> pfn pa \<longrightarrow> pmem s' x = pmem s x)"
proof -
  from kfree_Ok [OF ok, of s] fr have fl: "freelist s' = pa" "ld64 (pmem s') pa = freelist s"
    and frame: "\<forall>x. pfn x \<noteq> pfn pa \<longrightarrow> pmem s' x = pmem s x"
    by auto
  have al: "\<forall>p \<in> set ps. 4096 dvd unat p" using inv by (auto simp: kmem_list_def list_all_iff)
  have "\<forall>x. pfn x \<in> pfn ` set ps \<longrightarrow> pmem s' x = pmem s x"
    using frame new al page_ok_aligned [OF ok] pfn_eq by fastforce
  then have "flist (pmem s') (freelist s) ps"
    using inv flist_cong [of ps "pmem s'" "pmem s"] al by (simp add: kmem_list_def)
  then show ?thesis
    using fl inv ok new frame page_ok_not_0 [OF ok] by (simp add: kmem_list_def)
qed

lemma kalloc_Nil: "kmem_list kend s [] \<Longrightarrow> kalloc s = (0, s)"
  by (simp add: kmem_list_def kalloc_def)

lemma kalloc_Cons:
  assumes "kmem_list kend s (p # ps)" and "kalloc s = (r, s')"
  shows "r = p \<and> p \<noteq> 0 \<and> kmem_list kend s' ps \<and> (\<forall>x. pmem s' x = (if pfn x = pfn p then 5 else pmem s x))"
proof -
  have p: "freelist s = p" "p \<noteq> 0" "flist (pmem s) (ld64 (pmem s) p) ps" "page_ok kend p"
    and ps: "distinct ps" "p \<notin> set ps" "list_all (page_ok kend) ps"
    using assms(1) by (auto simp: kmem_list_def)
  have al: "4096 dvd unat p" using p(4) by (rule page_ok_aligned)
  have kmem_aligned: "\<forall>q \<in> set ps. 4096 dvd unat q" using ps(3) by (auto simp: list_all_iff)
  have s': "r = p" "pmem s' = memset (pmem s) p 5 4096" "freelist s' = ld64 (pmem s) p"
    using assms(2) p(1,2) by (auto simp: kalloc_def Let_def)
  have "\<forall>x. pfn x \<in> pfn ` set ps \<longrightarrow> pmem s' x = pmem s x"
    using pfn_notin [OF al kmem_aligned ps(2)] by (auto simp: s'(2) memset_page [OF al])
  then have "flist (pmem s') (freelist s') ps"
    using p(3) flist_cong [of ps "pmem s'" "pmem s"] kmem_aligned by (simp add: s'(3))
  then show ?thesis
    using ps p s' by (simp add: kmem_list_def memset_page [OF al])
qed


section \<open>The contract of the allocator\<close>

text \<open>
  What the page-table and pipe code may assume. \<open>inv s F\<close> says that \<open>F\<close> are the free pages.
  The last law is what makes ownership work: whoever writes only outside the free pages does not
  disturb the allocator.
\<close>

locale page_allocator =
  fixes alloc :: "'s \<Rightarrow> addr \<times> 's"
    and free :: "addr \<Rightarrow> 's \<Rightarrow> 's outcome"
    and mem_of :: "'s \<Rightarrow> mem"
    and set_mem :: "mem \<Rightarrow> 's \<Rightarrow> 's"
    and ok_page :: "addr \<Rightarrow> bool"
    and inv :: "'s \<Rightarrow> addr set \<Rightarrow> bool"
  assumes inv_ok: "inv s F \<Longrightarrow> p \<in> F \<Longrightarrow> ok_page p"
    and inv_finite: "inv s F \<Longrightarrow> finite F"
    and ok_page_pos: "ok_page p \<Longrightarrow> p \<noteq> 0"
    and ok_page_aligned: "ok_page p \<Longrightarrow> 4096 dvd unat p"
    and alloc_none: "inv s {} \<Longrightarrow> alloc s = (0, s)"
    and alloc_some: "inv s F \<Longrightarrow> F \<noteq> {} \<Longrightarrow> alloc s = (r, s') \<Longrightarrow>
      r \<in> F \<and> inv s' (F - {r}) \<and> (\<forall>x. pfn x \<noteq> pfn r \<longrightarrow> mem_of s' x = mem_of s x)"
    and free_ok: "inv s F \<Longrightarrow> ok_page p \<Longrightarrow> p \<notin> F \<Longrightarrow>
      \<exists>s'. free p s = Ok s' \<and> inv s' (insert p F) \<and> (\<forall>x. pfn x \<noteq> pfn p \<longrightarrow> mem_of s' x = mem_of s x)"
    and mem_set_mem: "mem_of (set_mem m s) = m"
    and inv_frame: "inv s F \<Longrightarrow> (\<And>x. pfn x \<in> pfn ` F \<Longrightarrow> m x = mem_of s x) \<Longrightarrow> inv (set_mem m s) F"
begin

lemma alloc_zero_iff: "inv s F \<Longrightarrow> fst (alloc s) = 0 \<longleftrightarrow> F = {}"
  using alloc_none alloc_some [of s F "fst (alloc s)" "snd (alloc s)"] inv_ok ok_page_pos
  by (cases "F = {}") auto

lemma alloc_cases:
  assumes "inv s F" and "alloc s = (r, s')"
  obtains (none) "F = {}" "r = 0" "s' = s"
  | (some) "r \<in> F" "r \<noteq> 0" "ok_page r" "4096 dvd unat r" "inv s' (F - {r})"
      "\<And>x. pfn x \<noteq> pfn r \<Longrightarrow> mem_of s' x = mem_of s x"
proof (cases "F = {}")
  case True
  then show ?thesis using assms alloc_none none by auto
next
  case False
  then show ?thesis
    using alloc_some [OF assms(1) False assms(2)] inv_ok [OF assms(1)] ok_page_pos ok_page_aligned some
    by auto
qed

text \<open>A page that is written only by its owner keeps the free pages as they are.\<close>

lemma inv_write_owned:
  assumes "inv s F" and "4096 dvd unat p" and "p \<notin> F" and "\<And>x. pfn x \<noteq> pfn p \<Longrightarrow> m x = mem_of s x"
  shows "inv (set_mem m s) F"
proof (rule inv_frame [OF assms(1)])
  fix x
  assume "pfn x \<in> pfn ` F"
  moreover have "pfn p \<notin> pfn ` F"
    using assms(1-3) inv_ok ok_page_aligned by (intro pfn_notin) auto
  ultimately show "m x = mem_of s x" using assms(4) by metis
qed

text \<open>Allocated and freed at once, a page comes back: the free set is restored.\<close>

lemma alloc_free:
  assumes "inv s F" and "alloc s = (r, s')" and "r \<noteq> 0"
  shows "\<exists>s''. free r s' = Ok s'' \<and> inv s'' F"
  using assms(1,2)
proof (cases rule: alloc_cases)
  case some
  then obtain s'' where "free r s' = Ok s''" "inv s'' (insert r (F - {r}))"
    using free_ok by blast
  then show ?thesis using some(1) by (auto simp: insert_absorb)
qed (use assms(3) in simp)

end

lemma kmem_inv_alloc:
  assumes "kmem_inv kend s F" and "F \<noteq> {}" and "kalloc s = (r, s')"
  shows "r \<in> F \<and> kmem_inv kend s' (F - {r}) \<and> (\<forall>x. pfn x \<noteq> pfn r \<longrightarrow> pmem s' x = pmem s x)"
proof -
  obtain ps where ps: "kmem_list kend s ps" "set ps = F" using assms(1) by (auto simp: kmem_inv_def)
  then obtain p qs where Cons: "ps = p # qs" using assms(2) by (cases ps) auto
  have "distinct ps" using ps(1) by (simp add: kmem_list_def)
  then have "set qs = F - {p}" using ps(2) Cons by auto
  then show ?thesis
    using kalloc_Cons [of kend s p qs r s'] ps Cons assms(3) by (auto simp: kmem_inv_def)
qed

lemma kmem_inv_free:
  assumes "kmem_inv kend s F" and "page_ok kend p" and "p \<notin> F"
  shows "\<exists>s'. kfree kend p s = Ok s' \<and> kmem_inv kend s' (insert p F) \<and>
    (\<forall>x. pfn x \<noteq> pfn p \<longrightarrow> pmem s' x = pmem s x)"
proof -
  obtain ps where ps: "kmem_list kend s ps" "set ps = F" using assms(1) by (auto simp: kmem_inv_def)
  obtain s' where s': "kfree kend p s = Ok s'" using kfree_Ok [OF assms(2)] by metis
  have "kmem_list kend s' (p # ps)" "\<forall>x. pfn x \<noteq> pfn p \<longrightarrow> pmem s' x = pmem s x"
    using kfree_kmem_list [OF ps(1) assms(2) _ s'] ps(2) assms(3) by auto
  moreover have "set (p # ps) = insert p F" using ps(2) by simp
  ultimately show ?thesis using s' unfolding kmem_inv_def by blast
qed

lemma kmem_inv_frame:
  assumes "kmem_inv kend s F" and "\<And>x. pfn x \<in> pfn ` F \<Longrightarrow> m x = pmem s x"
  shows "kmem_inv kend (s\<lparr>pmem := m\<rparr>) F"
  using assms kmem_list_cong [of kend s _ "s\<lparr>pmem := m\<rparr>"] by (auto simp: kmem_inv_def)

interpretation ka: page_allocator kalloc "kfree kend" pmem "\<lambda>m s. s\<lparr>pmem := m\<rparr>"
    "page_ok kend" "kmem_inv kend" for kend
proof unfold_locales
  show "kmem_inv kend s F \<Longrightarrow> p \<in> F \<Longrightarrow> page_ok kend p" for s F p
    by (auto simp: kmem_inv_def kmem_list_def list_all_iff)
  show "kmem_inv kend s {} \<Longrightarrow> kalloc s = (0, s)" for s
    using kalloc_Nil by (auto simp: kmem_inv_def)
  show "kmem_inv kend s F \<Longrightarrow> finite F" for s F
    by (auto simp: kmem_inv_def)
qed (auto dest: kmem_inv_alloc page_ok_not_0 intro: kmem_inv_free kmem_inv_frame)

section \<open>Initialisation\<close>

lemma aligned_step:
  fixes p q :: addr
  assumes "4096 dvd unat p" and "4096 dvd unat q" and "p < q" and "unat p + 4096 < 2 ^ 64"
  shows "p + 4096 \<le> q"
proof -
  obtain i j where ij: "unat p = 4096 * i" "unat q = 4096 * j"
    using assms(1,2) by (metis dvd_def)
  have "unat (p + 4096) = unat p + 4096"
    using assms(4) by (subst unat_add_lem [THEN iffD1]) auto
  then show ?thesis using assms(3) ij by (simp add: word_le_nat_alt word_less_nat_alt)
qed

lemma freerange_loop_inv:
  assumes "kmem_inv kend s F" and "4096 dvd unat p" and "0 < kend" and "kend \<le> p" and "p \<le> PHYSTOP"
    and "\<forall>q \<in> F. q < p"
  shows "\<exists>s'. freerange_loop kend p PHYSTOP s = Ok s' \<and>
    kmem_inv kend s' (F \<union> {q. page_ok kend q \<and> p \<le> q})"
  using assms
proof (induction kend p "PHYSTOP :: addr" s arbitrary: F rule: freerange_loop.induct)
  case (1 kend p s)
  have small: "unat p \<le> 0x60000000" using 1(6) by (simp add: word_le_nat_alt)
  show ?case
  proof (cases "p = PHYSTOP")
    case True
    then have "{q. page_ok kend q \<and> p \<le> q} = {}" by (auto simp: page_ok_def)
    moreover have "freerange_loop kend p PHYSTOP s = Ok s"
      using True by (subst freerange_loop.simps) simp
    ultimately show ?thesis using 1(2) by (metis sup_bot_right)
  next
    case False
    then have lt: "p < PHYSTOP" using 1(6) by simp
    have step: "p + 4096 \<le> PHYSTOP" using 1(3) lt small by (intro aligned_step) auto
    have ok: "page_ok kend p" using 1 lt by (simp add: page_ok_def mod_4096_iff)
    then obtain s1 where s1: "kfree kend p s = Ok s1" "kmem_inv kend s1 (insert p F)"
      using ka.free_ok [OF 1(2) ok] 1(7) by auto
    have un: "unat (p + 4096) = unat p + 4096"
      using small by (subst unat_add_lem [THEN iffD1]) auto
    then have pp: "p < p + 4096" by (simp add: word_less_nat_alt)
    have "\<exists>s'. freerange_loop kend (p + 4096) PHYSTOP s1 = Ok s' \<and>
        kmem_inv kend s' (insert p F \<union> {q. page_ok kend q \<and> p + 4096 \<le> q})"
      using 1(1) [OF step s1(1) s1(2)] 1(3-7) pp step un by fastforce
    moreover have "insert p F \<union> {q. page_ok kend q \<and> p + 4096 \<le> q} = F \<union> {q. page_ok kend q \<and> p \<le> q}"
    proof -
      have "p + 4096 \<le> q" if "page_ok kend q" "p \<le> q" "q \<noteq> p" for q
        using that 1(3) small by (intro aligned_step) auto
      then show ?thesis using ok pp by auto
    qed
    moreover have "freerange_loop kend p PHYSTOP s = freerange_loop kend (p + 4096) PHYSTOP s1"
      using step s1(1) by (subst freerange_loop.simps) simp
    ultimately show ?thesis by simp
  qed
qed

section \<open>Properties\<close>

text \<open>
  C15: \<open>kinit\<close> succeeds for every position of the kernel image below \<open>PHYSTOP\<close> and leaves every
  whole page between the kernel and \<open>PHYSTOP\<close> on the free list, each once.
\<close>

theorem kinit_frees_all_pages:
  assumes "0 < kend" and "kend \<le> PHYSTOP"
  shows "\<exists>s. kinit kend m = Ok s \<and> kmem_inv kend s {p. page_ok kend p}"
proof -
  have "unat (PGROUNDUP kend) = (unat kend + 4095) div 4096 * 4096"
    using assms(2) by (intro unat_PGROUNDUP) (simp add: word_le_nat_alt)
  then have b: "kend \<le> PGROUNDUP kend" "PGROUNDUP kend \<le> PHYSTOP"
    using assms(2) by (auto simp: word_le_nat_alt)
  have "PGROUNDUP kend \<le> q" if "page_ok kend q" for q
  proof -
    have "4096 dvd unat q" using that by (rule page_ok_aligned)
    moreover have "unat kend \<le> unat q" using that by (simp add: page_ok_def word_le_nat_alt)
    ultimately show ?thesis
      using \<open>unat (PGROUNDUP kend) = _\<close> by (auto simp: word_le_nat_alt elim!: dvdE)
  qed
  then have "{q. page_ok kend q \<and> PGROUNDUP kend \<le> q} = {p. page_ok kend p}" by auto
  moreover have "kmem_inv kend \<lparr>pmem = m, freelist = 0\<rparr> {}"
    by (simp add: kmem_inv_def kmem_list_def)
  ultimately show ?thesis
    using freerange_loop_inv [of kend _ "{}" "PGROUNDUP kend"] assms b
    by (fastforce simp: kinit_def freerange_def)
qed

theorem kinit_frees_all_pages_witness:
  "\<exists>s. kinit 0x40021000 (\<lambda>_. 0) = Ok s \<and> kmem_inv 0x40021000 s {p. page_ok 0x40021000 p}"
  using kinit_frees_all_pages [of "0x40021000" "\<lambda>_. 0"] by simp

text \<open>
  C14: the free list is a stack of pages. From a well-formed list, \<open>kalloc\<close> returns 0 and changes
  nothing when it is empty, and otherwise returns its head, fills exactly that page with 5 and leaves
  the tail; \<open>kfree\<close> of a page that is not free pushes it and changes memory in that page only.
\<close>

theorem kalloc_kfree_stack:
  assumes "kmem_list kend s ps"
  shows "(case kalloc s of (r, s1) \<Rightarrow>
      (case ps of [] \<Rightarrow> r = 0 \<and> s1 = s
       | p # qs \<Rightarrow> r = p \<and> kmem_list kend s1 qs \<and>
           (\<forall>x. pmem s1 x = (if pfn x = pfn p then 5 else pmem s x)))) \<and>
    (\<forall>pa. page_ok kend pa \<and> pa \<notin> set ps \<longrightarrow>
      (\<exists>s2. kfree kend pa s = Ok s2 \<and> kmem_list kend s2 (pa # ps) \<and>
        (\<forall>x. pfn x \<noteq> pfn pa \<longrightarrow> pmem s2 x = pmem s x)))"
proof
  obtain r s1 where k: "kalloc s = (r, s1)" by (cases "kalloc s")
  show "case kalloc s of (r, s1) \<Rightarrow>
      (case ps of [] \<Rightarrow> r = 0 \<and> s1 = s
       | p # qs \<Rightarrow> r = p \<and> kmem_list kend s1 qs \<and>
           (\<forall>x. pmem s1 x = (if pfn x = pfn p then 5 else pmem s x)))"
    using assms k kalloc_Nil [of kend s] kalloc_Cons [of kend s] by (cases ps) auto
  show "\<forall>pa. page_ok kend pa \<and> pa \<notin> set ps \<longrightarrow>
      (\<exists>s2. kfree kend pa s = Ok s2 \<and> kmem_list kend s2 (pa # ps) \<and>
        (\<forall>x. pfn x \<noteq> pfn pa \<longrightarrow> pmem s2 x = pmem s x))"
    using kfree_kmem_list [OF assms] kfree_Ok by meson
qed

theorem kalloc_kfree_stack_witness:
  "\<exists>s2. kfree 0x40021000 0x50000000 \<lparr>pmem = (\<lambda>_. 0), freelist = 0\<rparr> = Ok s2 \<and>
     kmem_list 0x40021000 s2 [0x50000000]"
proof -
  have "kmem_list 0x40021000 \<lparr>pmem = (\<lambda>_. 0), freelist = 0\<rparr> []" by (simp add: kmem_list_def)
  note this [THEN kalloc_kfree_stack, THEN conjunct2, rule_format, of "0x50000000"]
  then show ?thesis by (auto simp: page_ok_def)
qed

end
