(* ===== verification/Xv6_Vm.thy ===== *)
theory Xv6_Vm
  imports Xv6_Kalloc
begin

unbundle bit_operations_syntax

text \<open>
  \<open>kernel/vm.c\<close>: Sv39 page tables held in the modelled memory. Every operation walks and writes
  the three-level tree of table pages as the C code does; a table entry is the 64-bit word at
  \<open>&pagetable[PX(level, va)]\<close>.

  The abstraction of a page table is \<open>vmap\<close>, the partial function from virtual addresses to valid
  leaf entries. Its well-formedness \<open>pt_wf\<close> says that the table pages form a tree (two different
  paths never reach the same page), lie in allocatable memory and are not on the free list.
\<close>

section \<open>Operations\<close>

definition pte_addr :: "addr \<Rightarrow> nat \<Rightarrow> u64 \<Rightarrow> addr" where
  "pte_addr pagetable level va = pagetable + 8 * PX level va"

fun walk_loop :: "nat \<Rightarrow> addr \<Rightarrow> u64 \<Rightarrow> bool \<Rightarrow> kstate \<Rightarrow> addr \<times> kstate" where
  "walk_loop 0 pagetable va alloc s = (pte_addr pagetable 0 va, s)"
| "walk_loop (Suc l) pagetable va alloc s =
     (let pte = pte_addr pagetable (Suc l) va; e = ld64 (pmem s) pte
      in if e AND PTE_V \<noteq> 0 then walk_loop l (PTE2PA e) va alloc s
         else if \<not> alloc then (0, s)
         else case kalloc s of (r, s1) \<Rightarrow>
           if r = 0 then (0, s1)
           else walk_loop l r va alloc
             (s1\<lparr>pmem := st64 (memset (pmem s1) r 0 4096) pte (PA2PTE r OR PTE_V)\<rparr>))"

definition walk :: "addr \<Rightarrow> u64 \<Rightarrow> bool \<Rightarrow> kstate \<Rightarrow> (addr \<times> kstate) outcome" where
  "walk pagetable va alloc s =
     (if va \<ge> MAXVA then Panic ''walk'' else Ok (walk_loop 2 pagetable va alloc s))"

definition walkaddr :: "addr \<Rightarrow> u64 \<Rightarrow> kstate \<Rightarrow> u64 outcome" where
  "walkaddr pagetable va s =
     (if va \<ge> MAXVA then Ok 0
      else obind (walk pagetable va False s) (\<lambda>(pte, s1).
        if pte = 0 then Ok 0
        else let e = ld64 (pmem s1) pte
             in if e AND PTE_V = 0 then Ok 0
                else if e AND PTE_U = 0 then Ok 0
                else Ok (PTE2PA e)))"

lemma walk_Ok_bound: "walk pagetable va alloc s = Ok r \<Longrightarrow> unat va < 2 ^ 38"
  by (auto simp: walk_def word_le_nat_alt split: if_splits)

lemma unat_step: "unat (a :: u64) < 2 ^ 38 \<Longrightarrow> unat (a + 4096) = unat a + 4096"
  by (subst unat_add_lem [THEN iffD1]) auto

function mappages_loop ::
    "addr \<Rightarrow> u64 \<Rightarrow> u64 \<Rightarrow> u64 \<Rightarrow> u64 \<Rightarrow> kstate \<Rightarrow> (int \<times> kstate) outcome" where
  "mappages_loop pagetable a lastva pa perm s =
     obind (walk pagetable a True s) (\<lambda>(pte, s1).
       if pte = 0 then Ok (-1, s1)
       else if ld64 (pmem s1) pte AND PTE_V \<noteq> 0 then Panic ''mappages: remap''
       else let s2 = s1\<lparr>pmem := st64 (pmem s1) pte (PA2PTE pa OR perm OR PTE_V)\<rparr>
            in if a = lastva then Ok (0, s2)
               else mappages_loop pagetable (a + PGSIZE) lastva (pa + PGSIZE) perm s2)"
  by pat_completeness auto
termination
  by (relation "measure (\<lambda>(pagetable, a, lastva, pa, perm, s). 2 ^ 38 + 4096 - unat a)")
     (auto dest!: walk_Ok_bound simp: unat_step)

declare mappages_loop.simps [simp del]

definition mappages :: "addr \<Rightarrow> u64 \<Rightarrow> u64 \<Rightarrow> u64 \<Rightarrow> u64 \<Rightarrow> kstate \<Rightarrow> (int \<times> kstate) outcome" where
  "mappages pagetable va sz pa perm s =
     (if va mod PGSIZE \<noteq> 0 then Panic ''mappages: va not aligned''
      else if sz mod PGSIZE \<noteq> 0 then Panic ''mappages: size not aligned''
      else if sz = 0 then Panic ''mappages: size''
      else mappages_loop pagetable va (va + sz - PGSIZE) pa perm s)"

definition uvmcreate :: "kstate \<Rightarrow> addr \<times> kstate" where
  "uvmcreate s =
     (case kalloc s of (pagetable, s1) \<Rightarrow>
       if pagetable = 0 then (0, s1)
       else (pagetable, s1\<lparr>pmem := memset (pmem s1) pagetable 0 4096\<rparr>))"

text \<open>One iteration of the loop of \<open>uvmunmap\<close>, then the loop.\<close>

definition uvmunmap_page :: "addr \<Rightarrow> addr \<Rightarrow> u64 \<Rightarrow> bool \<Rightarrow> kstate \<Rightarrow> kstate outcome" where
  "uvmunmap_page kend pagetable a do_free s =
     obind (walk pagetable a False s) (\<lambda>(pte, s1).
       if pte = 0 then Ok s1
       else let e = ld64 (pmem s1) pte
            in if e AND PTE_V = 0 then Ok s1
               else obind (if do_free then kfree kend (PTE2PA e) s1 else Ok s1)
                 (\<lambda>s2. Ok (s2\<lparr>pmem := st64 (pmem s2) pte 0\<rparr>)))"

lemma uvmunmap_page_bound: "uvmunmap_page kend pt a do_free s = Ok s' \<Longrightarrow> unat a < 2 ^ 38"
  by (auto simp: uvmunmap_page_def obind_eq_Ok dest: walk_Ok_bound)

function uvmunmap_loop :: "addr \<Rightarrow> addr \<Rightarrow> u64 \<Rightarrow> u64 \<Rightarrow> bool \<Rightarrow> kstate \<Rightarrow> kstate outcome" where
  "uvmunmap_loop kend pagetable a stop do_free s =
     (if a < stop
      then obind (uvmunmap_page kend pagetable a do_free s)
        (\<lambda>s'. uvmunmap_loop kend pagetable (a + PGSIZE) stop do_free s')
      else Ok s)"
  by pat_completeness auto
termination
  by (relation "measure (\<lambda>(kend, pagetable, a, stop, do_free, s). 2 ^ 38 + 4096 - unat a)")
     (auto dest!: uvmunmap_page_bound simp: unat_step)

declare uvmunmap_loop.simps [simp del]

definition uvmunmap :: "addr \<Rightarrow> addr \<Rightarrow> u64 \<Rightarrow> u64 \<Rightarrow> bool \<Rightarrow> kstate \<Rightarrow> kstate outcome" where
  "uvmunmap kend pagetable va npages do_free s =
     (if va mod PGSIZE \<noteq> 0 then Panic ''uvmunmap: not aligned''
      else uvmunmap_loop kend pagetable va (va + npages * PGSIZE) do_free s)"

text \<open>\<open>int npages\<close> holds the low 32 bits of the page count and is sign-extended when passed on.\<close>

definition uvmdealloc :: "addr \<Rightarrow> addr \<Rightarrow> u64 \<Rightarrow> u64 \<Rightarrow> kstate \<Rightarrow> (u64 \<times> kstate) outcome" where
  "uvmdealloc kend pagetable oldsz newsz s =
     (if newsz \<ge> oldsz then Ok (oldsz, s)
      else obind
        (if PGROUNDUP newsz < PGROUNDUP oldsz
         then let npages = (ucast ((PGROUNDUP oldsz - PGROUNDUP newsz) div PGSIZE) :: u32)
              in uvmunmap kend pagetable (PGROUNDUP newsz) (scast npages) True s
         else Ok s)
        (\<lambda>s1. Ok (newsz, s1)))"

text \<open>One iteration of \<open>uvmalloc\<close>: \<open>None\<close> when a page was mapped, else the function's result.\<close>

definition uvmalloc_page ::
    "addr \<Rightarrow> addr \<Rightarrow> u64 \<Rightarrow> u64 \<Rightarrow> u64 \<Rightarrow> kstate \<Rightarrow> (u64 option \<times> kstate) outcome" where
  "uvmalloc_page kend pagetable oldsz a xperm s =
     (case kalloc s of (mem, s1) \<Rightarrow>
       if mem = 0
       then obind (uvmdealloc kend pagetable a oldsz s1) (\<lambda>(_, s2). Ok (Some 0, s2))
       else let s2 = s1\<lparr>pmem := memset (pmem s1) mem 0 4096\<rparr>
            in obind (mappages pagetable a PGSIZE mem (PTE_R OR PTE_U OR xperm) s2) (\<lambda>(r, s3).
              if r \<noteq> 0
              then obind (kfree kend mem s3) (\<lambda>s4.
                   obind (uvmdealloc kend pagetable a oldsz s4) (\<lambda>(_, s5). Ok (Some 0, s5)))
              else Ok (None, s3)))"

lemma mappages_bound: "mappages pt a sz pa perm s = Ok r \<Longrightarrow> unat a < 2 ^ 38"
  by (auto simp: mappages_def mappages_loop.simps [of pt a] obind_eq_Ok dest: walk_Ok_bound
      split: if_splits)

lemma uvmalloc_page_bound: "uvmalloc_page kend pt oldsz a xperm s = Ok (None, s') \<Longrightarrow> unat a < 2 ^ 38"
  by (auto simp: uvmalloc_page_def obind_eq_Ok Let_def dest: mappages_bound
      split: if_splits prod.splits)

function uvmalloc_loop ::
    "addr \<Rightarrow> addr \<Rightarrow> u64 \<Rightarrow> u64 \<Rightarrow> u64 \<Rightarrow> u64 \<Rightarrow> kstate \<Rightarrow> (u64 \<times> kstate) outcome" where
  "uvmalloc_loop kend pagetable oldsz a newsz xperm s =
     (if a < newsz
      then obind (uvmalloc_page kend pagetable oldsz a xperm s) (\<lambda>(r, s').
        case r of Some v \<Rightarrow> Ok (v, s')
        | None \<Rightarrow> uvmalloc_loop kend pagetable oldsz (a + PGSIZE) newsz xperm s')
      else Ok (newsz, s))"
  by pat_completeness auto
termination
  by (relation "measure (\<lambda>(kend, pagetable, oldsz, a, newsz, xperm, s). 2 ^ 38 + 4096 - unat a)")
     (auto dest!: uvmalloc_page_bound simp: unat_step)

declare uvmalloc_loop.simps [simp del]

definition uvmalloc ::
    "addr \<Rightarrow> addr \<Rightarrow> u64 \<Rightarrow> u64 \<Rightarrow> u64 \<Rightarrow> kstate \<Rightarrow> (u64 \<times> kstate) outcome" where
  "uvmalloc kend pagetable oldsz newsz xperm s =
     (if newsz < oldsz then Ok (oldsz, s)
      else uvmalloc_loop kend pagetable (PGROUNDUP oldsz) (PGROUNDUP oldsz) newsz xperm s)"


text \<open>
  The C function recurses until it finds no valid non-leaf entry; the depth is fuel. A well-formed
  table has three levels, and \<open>freewalk_depth\<close> is enough for it.
\<close>

primrec freewalk :: "addr \<Rightarrow> nat \<Rightarrow> addr \<Rightarrow> kstate \<Rightarrow> kstate outcome" where
  "freewalk kend 0 pagetable s = Diverge"
| "freewalk kend (Suc d) pagetable s =
     obind
       (ofold (\<lambda>i s.
          let pte = ld64 (pmem s) (pagetable + 8 * of_nat i)
          in if pte AND PTE_V \<noteq> 0 \<and> pte AND (PTE_R OR PTE_W OR PTE_X) = 0
             then obind (freewalk kend d (PTE2PA pte) s)
               (\<lambda>s'. Ok (s'\<lparr>pmem := st64 (pmem s') (pagetable + 8 * of_nat i) 0\<rparr>))
             else if pte AND PTE_V \<noteq> 0 then Panic ''freewalk: leaf''
             else Ok s) [0..<512] s)
       (kfree kend pagetable)"

definition freewalk_depth :: nat where "freewalk_depth = 3"

definition uvmfree :: "addr \<Rightarrow> addr \<Rightarrow> u64 \<Rightarrow> kstate \<Rightarrow> kstate outcome" where
  "uvmfree kend pagetable sz s =
     obind (if sz > 0 then uvmunmap kend pagetable 0 (PGROUNDUP sz div PGSIZE) True s else Ok s)
       (freewalk kend freewalk_depth pagetable)"

text \<open>One iteration of \<open>uvmcopy\<close>: \<open>False\<close> is \<open>goto err\<close>.\<close>

definition uvmcopy_page :: "addr \<Rightarrow> addr \<Rightarrow> addr \<Rightarrow> u64 \<Rightarrow> kstate \<Rightarrow> (bool \<times> kstate) outcome" where
  "uvmcopy_page kend old new i s =
     obind (walk old i False s) (\<lambda>(pte, s1).
       if pte = 0 then Ok (True, s1)
       else let e = ld64 (pmem s1) pte
            in if e AND PTE_V = 0 then Ok (True, s1)
               else case kalloc s1 of (mem, s2) \<Rightarrow>
                 if mem = 0 then Ok (False, s2)
                 else let s3 = s2\<lparr>pmem := memmove (pmem s2) mem (PTE2PA e) 4096\<rparr>
                      in obind (mappages new i PGSIZE mem (PTE_FLAGS e) s3) (\<lambda>(r, s4).
                        if r \<noteq> 0 then obind (kfree kend mem s4) (\<lambda>s5. Ok (False, s5))
                        else Ok (True, s4)))"

lemma uvmcopy_page_bound: "uvmcopy_page kend old new i s = Ok r \<Longrightarrow> unat i < 2 ^ 38"
  by (auto simp: uvmcopy_page_def obind_eq_Ok dest: walk_Ok_bound)

function uvmcopy_loop ::
    "addr \<Rightarrow> addr \<Rightarrow> addr \<Rightarrow> u64 \<Rightarrow> u64 \<Rightarrow> kstate \<Rightarrow> (int \<times> kstate) outcome" where
  "uvmcopy_loop kend old new i sz s =
     (if i < sz
      then obind (uvmcopy_page kend old new i s) (\<lambda>(ok, s1).
        if ok then uvmcopy_loop kend old new (i + PGSIZE) sz s1
        else obind (uvmunmap kend new 0 (i div PGSIZE) True s1) (\<lambda>s2. Ok (-1, s2)))
      else Ok (0, s))"
  by pat_completeness auto
termination
  by (relation "measure (\<lambda>(kend, old, new, i, sz, s). 2 ^ 38 + 4096 - unat i)")
     (auto dest!: uvmcopy_page_bound simp: unat_step)

declare uvmcopy_loop.simps [simp del]

definition uvmcopy :: "addr \<Rightarrow> addr \<Rightarrow> addr \<Rightarrow> u64 \<Rightarrow> kstate \<Rightarrow> (int \<times> kstate) outcome" where
  "uvmcopy kend old new sz s = uvmcopy_loop kend old new 0 sz s"

definition uvmclear :: "addr \<Rightarrow> u64 \<Rightarrow> kstate \<Rightarrow> kstate outcome" where
  "uvmclear pagetable va s =
     obind (walk pagetable va False s) (\<lambda>(pte, s1).
       if pte = 0 then Panic ''uvmclear''
       else Ok (s1\<lparr>pmem := st64 (pmem s1) pte (ld64 (pmem s1) pte AND NOT PTE_U)\<rparr>))"

definition ismapped :: "addr \<Rightarrow> u64 \<Rightarrow> kstate \<Rightarrow> bool outcome" where
  "ismapped pagetable va s =
     obind (walk pagetable va False s) (\<lambda>(pte, s1).
       Ok (pte \<noteq> 0 \<and> ld64 (pmem s1) pte AND PTE_V \<noteq> 0))"

text \<open>
  \<open>vmfault\<close> looks at the running process: \<open>psz\<close> is \<open>myproc()->sz\<close> and \<open>ppt\<close> is
  \<open>myproc()->pagetable\<close>.
\<close>

definition vmfault ::
    "addr \<Rightarrow> u64 \<Rightarrow> addr \<Rightarrow> addr \<Rightarrow> u64 \<Rightarrow> kstate \<Rightarrow> (u64 \<times> kstate) outcome" where
  "vmfault kend psz ppt pagetable va s =
     (if va \<ge> psz then Ok (0, s)
      else let va = PGROUNDDOWN va in
        obind (ismapped pagetable va s) (\<lambda>mapped.
          if mapped then Ok (0, s)
          else case kalloc s of (mem, s1) \<Rightarrow>
            if mem = 0 then Ok (0, s1)
            else let s2 = s1\<lparr>pmem := memset (pmem s1) mem 0 4096\<rparr>
                 in obind (mappages ppt va PGSIZE mem (PTE_W OR PTE_U OR PTE_R) s2) (\<lambda>(r, s3).
                   if r \<noteq> 0 then obind (kfree kend mem s3) (\<lambda>s4. Ok (0, s4))
                   else Ok (mem, s3))))"

definition copy_chunk :: "u64 \<Rightarrow> u64 \<Rightarrow> u64" where
  "copy_chunk va len = (let n = PGSIZE - (va - PGROUNDDOWN va) in if n > len then len else n)"

lemma unat_page_offset: "unat (va - PGROUNDDOWN va) = unat va mod 4096"
proof -
  have "unat (va - PGROUNDDOWN va) = unat va - unat va div 4096 * 4096"
    by (simp add: unat_sub PGROUNDDOWN_le unat_PGROUNDDOWN)
  then show ?thesis by (simp add: minus_div_mult_eq_mod)
qed

lemma unat_copy_chunk: "unat (copy_chunk va len) = min (4096 - unat va mod 4096) (unat len)"
proof -
  have "va - PGROUNDDOWN va \<le> 4096" by (simp add: word_le_nat_alt unat_page_offset)
  then have "unat (4096 - (va - PGROUNDDOWN va)) = 4096 - unat va mod 4096"
    by (simp add: unat_sub unat_page_offset)
  then show ?thesis
    by (auto simp: copy_chunk_def Let_def word_less_nat_alt min_def)
qed

lemma copy_chunk_pos: "len \<noteq> 0 \<Longrightarrow> 0 < unat (copy_chunk va len)"
  by (simp add: unat_copy_chunk unat_gt_0)

lemma copy_chunk_le: "copy_chunk va len \<le> len"
  by (simp add: word_le_nat_alt unat_copy_chunk)

lemma copy_chunk_decr: "len \<noteq> 0 \<Longrightarrow> unat (len - copy_chunk va len) < unat len"
  using copy_chunk_pos [of len va] copy_chunk_le [of va len] unat_gt_0 [of len]
  by (simp add: unat_sub)

text \<open>The page-table lookup with its fallback to \<open>vmfault\<close> that starts each round of the copies.\<close>

definition copy_page ::
    "addr \<Rightarrow> u64 \<Rightarrow> addr \<Rightarrow> addr \<Rightarrow> u64 \<Rightarrow> kstate \<Rightarrow> (u64 \<times> kstate) outcome" where
  "copy_page kend psz ppt pagetable va0 s =
     obind (walkaddr pagetable va0 s) (\<lambda>pa0.
       if pa0 = 0 then vmfault kend psz ppt pagetable va0 s else Ok (pa0, s))"

text \<open>
  A null \<open>pte\<close> would be dereferenced: the kernel does not map page 0, so the load faults and
  \<open>kerneltrap\<close> panics.
\<close>

function copyout ::
    "addr \<Rightarrow> u64 \<Rightarrow> addr \<Rightarrow> addr \<Rightarrow> u64 \<Rightarrow> addr \<Rightarrow> u64 \<Rightarrow> kstate \<Rightarrow> (int \<times> kstate) outcome" where
  "copyout kend psz ppt pagetable dstva src len s =
     (if len = 0 then Ok (0, s)
      else let va0 = PGROUNDDOWN dstva in
        if va0 \<ge> MAXVA then Ok (-1, s)
        else obind (copy_page kend psz ppt pagetable va0 s) (\<lambda>(pa0, s1).
          if pa0 = 0 then Ok (-1, s1)
          else obind (walk pagetable va0 False s1) (\<lambda>(pte, s2).
            if pte = 0 then Panic ''kerneltrap''
            else if ld64 (pmem s2) pte AND PTE_W = 0 then Ok (-1, s2)
            else let n = copy_chunk dstva len;
                     s3 = s2\<lparr>pmem := memmove (pmem s2) (pa0 + (dstva - va0)) src (ucast n)\<rparr>
                 in copyout kend psz ppt pagetable (va0 + PGSIZE) (src + n) (len - n) s3)))"
  by pat_completeness auto
termination
  by (relation "measure (\<lambda>(kend, psz, ppt, pagetable, dstva, src, len, s). unat len)")
     (simp_all add: copy_chunk_decr)

declare copyout.simps [simp del]

function copyin ::
    "addr \<Rightarrow> u64 \<Rightarrow> addr \<Rightarrow> addr \<Rightarrow> addr \<Rightarrow> u64 \<Rightarrow> u64 \<Rightarrow> kstate \<Rightarrow> (int \<times> kstate) outcome" where
  "copyin kend psz ppt pagetable dst srcva len s =
     (if len = 0 then Ok (0, s)
      else let va0 = PGROUNDDOWN srcva in
        obind (copy_page kend psz ppt pagetable va0 s) (\<lambda>(pa0, s1).
          if pa0 = 0 then Ok (-1, s1)
          else let n = copy_chunk srcva len;
                   s2 = s1\<lparr>pmem := memmove (pmem s1) dst (pa0 + (srcva - va0)) (ucast n)\<rparr>
               in copyin kend psz ppt pagetable (dst + n) (va0 + PGSIZE) (len - n) s2))"
  by pat_completeness auto
termination
  by (relation "measure (\<lambda>(kend, psz, ppt, pagetable, dst, srcva, len, s). unat len)")
     (simp_all add: copy_chunk_decr)

declare copyin.simps [simp del]

text \<open>The inner loop of \<open>copyinstr\<close> gives \<open>got_null\<close>, \<open>dst\<close>, \<open>max\<close> and the memory.\<close>

primrec copyinstr_chars :: "nat \<Rightarrow> addr \<Rightarrow> addr \<Rightarrow> u64 \<Rightarrow> mem \<Rightarrow> bool \<times> addr \<times> u64 \<times> mem" where
  "copyinstr_chars 0 p dst mx m = (False, dst, mx, m)"
| "copyinstr_chars (Suc n) p dst mx m =
     (if m p = 0 then (True, dst, mx, m(dst := 0))
      else copyinstr_chars n (p + 1) (dst + 1) (mx - 1) (m(dst := m p)))"

lemma copyinstr_chars_max:
  "copyinstr_chars n p dst mx m = (False, dst', mx', m') \<Longrightarrow> mx' = mx - of_nat n"
  by (induction n arbitrary: p dst mx m) (auto split: if_splits simp: algebra_simps)

lemma copyinstr_chars_decr:
  assumes "(False, dst', mx', m') = copyinstr_chars (unat (copy_chunk srcva mx)) p dst mx m"
    and "mx \<noteq> 0"
  shows "unat mx' < unat mx"
  using copyinstr_chars_max [OF assms(1) [symmetric]] copy_chunk_decr [OF assms(2), of srcva] by simp

function copyinstr_loop ::
    "addr \<Rightarrow> addr \<Rightarrow> u64 \<Rightarrow> u64 \<Rightarrow> bool \<Rightarrow> kstate \<Rightarrow> (int \<times> kstate) outcome" where
  "copyinstr_loop pagetable dst srcva mx got_null s =
     (if \<not> got_null \<and> mx > 0
      then let va0 = PGROUNDDOWN srcva in
        obind (walkaddr pagetable va0 s) (\<lambda>pa0.
          if pa0 = 0 then Ok (-1, s)
          else case copyinstr_chars (unat (copy_chunk srcva mx)) (pa0 + (srcva - va0)) dst mx (pmem s)
            of (got, dst', mx', m) \<Rightarrow>
              copyinstr_loop pagetable dst' (va0 + PGSIZE) mx' got (s\<lparr>pmem := m\<rparr>))
      else Ok (if got_null then 0 else -1, s))"
  by pat_completeness auto
termination
  by (relation "measure (\<lambda>(pagetable, dst, srcva, mx, got, s). if got then 0 else Suc (unat mx))")
     (auto dest: copyinstr_chars_decr)

declare copyinstr_loop.simps [simp del]

definition copyinstr :: "addr \<Rightarrow> addr \<Rightarrow> u64 \<Rightarrow> u64 \<Rightarrow> kstate \<Rightarrow> (int \<times> kstate) outcome" where
  "copyinstr pagetable dst srcva mx s = copyinstr_loop pagetable dst srcva mx False s"

end
