(* ===== verification/Xv6_Vm_Tree.thy ===== *)
theory Xv6_Vm_Tree
  imports Xv6_Vm
begin

unbundle bit_operations_syntax

text \<open>
  The page-table tree behind \<open>kernel/vm.c\<close>: which table page a path of indices reaches, the
  well-formedness of a table, its abstraction \<open>vmap\<close>, and how the two kinds of stores that the
  code makes (a leaf entry, and a new zeroed table page hung into an invalid entry) change them.
  \<open>walk\<close> is specified in these terms for every state, allocation failure included.
\<close>

section \<open>Entries\<close>

definition entry :: "mem \<Rightarrow> addr \<Rightarrow> nat \<Rightarrow> u64" where
  "entry m t i = ld64 m (t + 8 * of_nat i)"

definition px :: "nat \<Rightarrow> u64 \<Rightarrow> nat" where
  "px l va = unat (PX l va)"

abbreviation valid :: "u64 \<Rightarrow> bool" where
  "valid e \<equiv> e AND PTE_V \<noteq> 0"

lemma px_less [simp]: "px l va < 512"
  by (simp add: px_def PX_less)

lemma pte_addr_px: "pte_addr t l va = t + 8 * of_nat (px l va)"
  by (simp add: pte_addr_def px_def)

lemma unat_entry_addr:
  assumes "4096 dvd unat t" and "i < 512"
  shows "unat (t + 8 * of_nat i :: addr) = unat t + 8 * i"
proof -
  have i8: "unat (8 * of_nat i :: addr) = 8 * i"
    using assms(2) unat_of_nat_small [of "8 * i", where 'a = 64] by simp
  obtain c where c: "unat t = 4096 * c" using assms(1) by (elim dvdE)
  have "unat t < 2 ^ 64" using unsigned_less [of t, where 'a = nat] by simp
  then have "c < 2 ^ 52" using c by simp
  then have "unat t + 8 * i < 2 ^ 64" using c assms(2) by simp
  then show ?thesis using i8 by (subst unat_add_lem [THEN iffD1]) auto
qed

lemma entry_addr_8 [simp]: "4096 dvd unat t \<Longrightarrow> i < 512 \<Longrightarrow> 8 dvd unat (t + 8 * of_nat i :: addr)"
  by (simp add: unat_entry_addr aligned_8)

lemma pfn_entry_addr [simp]: "4096 dvd unat t \<Longrightarrow> i < 512 \<Longrightarrow> pfn (t + 8 * of_nat i) = pfn t"
  by (auto simp: pfn_def unat_entry_addr elim!: dvdE)

lemma entry_addr_eq:
  assumes "4096 dvd unat t" "4096 dvd unat t'" "i < 512" "j < 512"
  shows "t + 8 * of_nat i = (t' + 8 * of_nat j :: addr) \<longleftrightarrow> t = t' \<and> i = j"
proof
  assume eq: "t + 8 * of_nat i = t' + 8 * of_nat j"
  then have "pfn t = pfn t'" using assms pfn_entry_addr by metis
  then have "t = t'" using assms pfn_eq by blast
  moreover have "unat t + 8 * i = unat t' + 8 * j" using eq assms unat_entry_addr by metis
  ultimately show "t = t' \<and> i = j" by simp
qed simp

lemma entry_st64:
  assumes "4096 dvd unat t" "4096 dvd unat t'" "i < 512" "j < 512"
  shows "entry (st64 m (t + 8 * of_nat i) v) t' j = (if t' = t \<and> j = i then v else entry m t' j)"
  using assms entry_addr_eq [of t t' i j] by (auto simp: entry_def)

lemma entry_cong:
  "4096 dvd unat t \<Longrightarrow> i < 512 \<Longrightarrow> (\<And>x. pfn x = pfn t \<Longrightarrow> m x = m' x) \<Longrightarrow> entry m t i = entry m' t i"
  unfolding entry_def by (rule ld64_page_cong) simp_all

lemma entry_zeroed:
  assumes "4096 dvd unat t" and "i < 512" and "\<And>x. pfn x = pfn t \<Longrightarrow> m x = 0"
  shows "entry m t i = 0"
  unfolding entry_def
proof (rule ld64_zero)
  fix k :: nat
  assume "k < 8"
  then have "cell (t + 8 * of_nat i + of_nat k) = cell (t + 8 * of_nat i)"
    using assms(1,2) by (intro cell_add) simp_all
  then have "pfn (t + 8 * of_nat i + of_nat k) = pfn (t + 8 * of_nat i)" by (rule pfn_cell)
  also have "\<dots> = pfn t" using assms(1,2) by simp
  finally have "pfn (t + 8 * of_nat i + of_nat k) = pfn t" .
  then show "m (t + 8 * of_nat i + of_nat k) = 0" using assms(3) by simp
qed

section \<open>Paths and tables\<close>

text \<open>
  \<open>tab m root p\<close> is the table page that the path \<open>p\<close> reaches; the last index taken is the head
  of the list, so the leaf table of \<open>va\<close> is reached by \<open>[PX 1 va, PX 2 va]\<close>.
\<close>

primrec tab :: "mem \<Rightarrow> addr \<Rightarrow> nat list \<Rightarrow> addr option" where
  "tab m root [] = Some root"
| "tab m root (i # p) =
     (case tab m root p of None \<Rightarrow> None
      | Some t \<Rightarrow> if valid (entry m t i) then Some (PTE2PA (entry m t i)) else None)"

definition vpath :: "nat list \<Rightarrow> bool" where
  "vpath p \<longleftrightarrow> length p \<le> 2 \<and> (\<forall>i \<in> set p. i < 512)"

definition tabs :: "mem \<Rightarrow> addr \<Rightarrow> addr set" where
  "tabs m root = {t. \<exists>p. vpath p \<and> tab m root p = Some t}"

definition vmap :: "mem \<Rightarrow> addr \<Rightarrow> u64 \<Rightarrow> u64 option" where
  "vmap m root va =
     (case tab m root [px 1 va, px 2 va] of None \<Rightarrow> None
      | Some t \<Rightarrow> if valid (entry m t (px 0 va)) then Some (entry m t (px 0 va)) else None)"

definition tabs_inj :: "mem \<Rightarrow> addr \<Rightarrow> bool" where
  "tabs_inj m root \<longleftrightarrow>
     (\<forall>p q t. vpath p \<longrightarrow> vpath q \<longrightarrow> tab m root p = Some t \<longrightarrow> tab m root q = Some t \<longrightarrow> p = q)"

definition inner_ok :: "mem \<Rightarrow> addr \<Rightarrow> bool" where
  "inner_ok m root \<longleftrightarrow>
     (\<forall>p t i. vpath (i # p) \<longrightarrow> tab m root p = Some t \<longrightarrow> valid (entry m t i) \<longrightarrow>
        entry m t i AND (PTE_R OR PTE_W OR PTE_X) = 0)"

definition pt_wf :: "addr \<Rightarrow> addr set \<Rightarrow> mem \<Rightarrow> addr \<Rightarrow> bool" where
  "pt_wf kend F m root \<longleftrightarrow>
     (\<forall>t \<in> tabs m root. page_ok kend t \<and> t \<notin> F) \<and> tabs_inj m root \<and> inner_ok m root"

lemma vpath_simps [simp]:
  "vpath []"
  "vpath (i # p) \<longleftrightarrow> i < 512 \<and> length p \<le> Suc 0 \<and> vpath p"
  by (auto simp: vpath_def)

lemma tabI: "vpath p \<Longrightarrow> tab m root p = Some t \<Longrightarrow> t \<in> tabs m root"
  by (auto simp: tabs_def)

lemma root_tabs [simp]: "root \<in> tabs m root"
  using tabI [of "[]"] by simp

lemma pt_wf_ok: "pt_wf kend F m root \<Longrightarrow> t \<in> tabs m root \<Longrightarrow> page_ok kend t"
  by (simp add: pt_wf_def)

lemma pt_wf_aligned: "pt_wf kend F m root \<Longrightarrow> t \<in> tabs m root \<Longrightarrow> 4096 dvd unat t"
  using pt_wf_ok page_ok_aligned by blast

lemma pt_wf_free: "pt_wf kend F m root \<Longrightarrow> t \<in> tabs m root \<Longrightarrow> t \<notin> F"
  by (simp add: pt_wf_def)

lemma pt_wf_inj:
  "pt_wf kend F m root \<Longrightarrow> tab m root p = Some t \<Longrightarrow> tab m root q = Some t \<Longrightarrow> vpath p \<Longrightarrow> vpath q \<Longrightarrow> p = q"
  by (simp add: pt_wf_def tabs_inj_def)

lemma pt_wf_inner:
  "pt_wf kend F m root \<Longrightarrow> tab m root p = Some t \<Longrightarrow> vpath (i # p) \<Longrightarrow> valid (entry m t i) \<Longrightarrow>
   entry m t i AND (PTE_R OR PTE_W OR PTE_X) = 0"
  unfolding pt_wf_def inner_ok_def by blast

text \<open>The tables depend on the contents of the table pages only.\<close>

lemma tab_cong:
  assumes "pt_wf kend F m root" and "\<And>x. pfn x \<in> pfn ` tabs m root \<Longrightarrow> m' x = m x" and "vpath p"
  shows "tab m' root p = tab m root p"
  using assms(3)
proof (induction p)
  case (Cons i p)
  then have vp: "vpath p" "i < 512" by simp_all
  show ?case
  proof (cases "tab m root p")
    case (Some t)
    then have t: "t \<in> tabs m root" using vp by (blast intro: tabI)
    then have "entry m' t i = entry m t i"
      using vp assms(2) pt_wf_aligned [OF assms(1)] by (intro entry_cong) auto
    then show ?thesis using Cons Some by simp
  qed (use Cons in simp)
qed simp

lemma entry_cong_tabs:
  assumes "pt_wf kend F m root" and "\<And>x. pfn x \<in> pfn ` tabs m root \<Longrightarrow> m' x = m x"
    and "t \<in> tabs m root" and "i < 512"
  shows "entry m' t i = entry m t i"
  using assms pt_wf_aligned [OF assms(1)] by (intro entry_cong) auto

lemma tabs_cong:
  assumes "pt_wf kend F m root" and "\<And>x. pfn x \<in> pfn ` tabs m root \<Longrightarrow> m' x = m x"
  shows "tabs m' root = tabs m root"
  using tab_cong [OF assms] by (auto simp: tabs_def)

lemma vmap_cong:
  assumes "pt_wf kend F m root" and "\<And>x. pfn x \<in> pfn ` tabs m root \<Longrightarrow> m' x = m x"
  shows "vmap m' root va = vmap m root va"
proof -
  have "tab m' root [px 1 va, px 2 va] = tab m root [px 1 va, px 2 va]"
    by (rule tab_cong [OF assms]) simp_all
  moreover have "entry m' t (px 0 va) = entry m t (px 0 va)" if "tab m root [px 1 va, px 2 va] = Some t" for t
    by (rule entry_cong_tabs [OF assms]) (use tabI [OF _ that] in simp_all)
  ultimately show ?thesis
    unfolding vmap_def by (cases "tab m root [px 1 va, px 2 va]") (simp_all del: tab.simps)
qed

lemma pt_wf_cong:
  assumes wf: "pt_wf kend F m root" and eq: "\<And>x. pfn x \<in> pfn ` tabs m root \<Longrightarrow> m' x = m x"
    and "F' \<inter> tabs m root = {}"
  shows "pt_wf kend F' m' root"
proof -
  have tab: "tab m' root p = tab m root p" if "vpath p" for p
    by (rule tab_cong [OF wf _ that]) (rule eq)
  have tabs_eq: "tabs m' root = tabs m root" by (rule tabs_cong [OF wf eq])
  have ent: "entry m' t i = entry m t i" if "vpath (i # p)" "tab m root p = Some t" for i p t
    using that by (intro entry_cong_tabs [OF wf eq]) (auto intro: tabI)
  have "\<forall>t \<in> tabs m' root. page_ok kend t \<and> t \<notin> F'"
    using wf assms(3) tabs_eq by (auto simp: pt_wf_def)
  moreover have "tabs_inj m' root"
    using tab pt_wf_inj [OF wf] unfolding tabs_inj_def by metis
  moreover have "inner_ok m' root"
    unfolding inner_ok_def
  proof (intro allI impI)
    fix p t i
    assume *: "vpath (i # p)" "tab m' root p = Some t" "valid (entry m' t i)"
    then have "tab m root p = Some t" using tab [of p] by simp
    then show "entry m' t i AND (PTE_R OR PTE_W OR PTE_X) = 0"
      using *(1,3) ent pt_wf_inner [OF wf] by metis
  qed
  ultimately show ?thesis by (simp only: pt_wf_def simp_thms)
qed


section \<open>Storing a leaf entry\<close>

lemma tab_leaf_store:
  assumes wf: "pt_wf kend F m root" and t: "tab m root p = Some t" "vpath p" "length p = 2"
    and i: "i < 512" and q: "vpath q"
  shows "tab (st64 m (t + 8 * of_nat i) v) root q = tab m root q"
  using q
proof (induction q)
  case (Cons j q)
  then have vq: "vpath q" "j < 512" "length q \<le> 1" by simp_all
  show ?case
  proof (cases "tab m root q")
    case (Some t')
    have "q \<noteq> p" using vq(3) t(3) by auto
    then have "t' \<noteq> t" using pt_wf_inj [OF wf Some, of p] t vq(1) by blast
    moreover have "t \<in> tabs m root" "t' \<in> tabs m root" using t Some vq tabI by blast+
    ultimately have "entry (st64 m (t + 8 * of_nat i) v) t' j = entry m t' j"
      using i vq(2) pt_wf_aligned [OF wf] by (simp add: entry_st64)
    then show ?thesis using Cons Some vq by simp
  qed (use Cons in simp)
qed simp

lemma tabs_leaf_store:
  assumes "pt_wf kend F m root" and "tab m root p = Some t" "vpath p" "length p = 2" and "i < 512"
  shows "tabs (st64 m (t + 8 * of_nat i) v) root = tabs m root"
  using tab_leaf_store [OF assms] by (auto simp: tabs_def)

lemma pt_wf_leaf_store:
  assumes wf: "pt_wf kend F m root" and t: "tab m root p = Some t" "vpath p" "length p = 2"
    and i: "i < 512"
  shows "pt_wf kend F (st64 m (t + 8 * of_nat i) v) root"
proof -
  let ?m = "st64 m (t + 8 * of_nat i) v"
  note tab = tab_leaf_store [OF wf t i, of _ v]
  have "tabs_inj ?m root"
    using tab pt_wf_inj [OF wf] unfolding tabs_inj_def by metis
  moreover have "inner_ok ?m root"
    unfolding inner_ok_def
  proof (intro allI impI)
    fix q t' j
    assume *: "vpath (j # q)" "tab ?m root q = Some t'" "valid (entry ?m t' j)"
    then have q: "vpath q" "length q \<le> 1" "j < 512" "tab m root q = Some t'" using tab [of q] by simp_all
    then have "t' \<noteq> t" using pt_wf_inj [OF wf q(4), of p] t by fastforce
    moreover have "t \<in> tabs m root" "t' \<in> tabs m root" using t q tabI by blast+
    ultimately have "entry ?m t' j = entry m t' j"
      using i q(3) pt_wf_aligned [OF wf] by (simp add: entry_st64)
    then show "entry ?m t' j AND (PTE_R OR PTE_W OR PTE_X) = 0"
      using * q(4) pt_wf_inner [OF wf, of q t' j] by simp
  qed
  ultimately show ?thesis
    using wf tabs_leaf_store [OF wf t i, of v] by (simp add: pt_wf_def)
qed

abbreviation leafpath :: "u64 \<Rightarrow> nat list" where
  "leafpath va \<equiv> [px 1 va, px 2 va]"

lemma px_eq_iff:
  assumes "va < MAXVA" and "va' < MAXVA"
  shows "leafpath va = leafpath va' \<and> px 0 va = px 0 va' \<longleftrightarrow> pfn va = pfn va'"
  using PX_eq_iff_pfn [OF assms] by (auto simp: px_def word_unat_eq_iff)

lemma vmap_leaf_store:
  assumes wf: "pt_wf kend F m root" and t: "tab m root (leafpath va) = Some t"
    and va: "va < MAXVA" "va' < MAXVA"
  shows "vmap (st64 m (t + 8 * of_nat (px 0 va)) v) root va' =
    (if pfn va' = pfn va then (if valid v then Some v else None) else vmap m root va')"
proof -
  let ?m = "st64 m (t + 8 * of_nat (px 0 va)) v"
  have tab: "tab ?m root (leafpath va') = tab m root (leafpath va')"
    by (rule tab_leaf_store [OF wf t]) simp_all
  show ?thesis
  proof (cases "tab m root (leafpath va')")
    case None
    have "pfn va' \<noteq> pfn va"
    proof
      assume "pfn va' = pfn va"
      then have "leafpath va' = leafpath va" using px_eq_iff [OF va(2,1)] by blast
      then show False using None t by (simp only: option.distinct)
    qed
    then show ?thesis using None tab by (simp add: vmap_def del: tab.simps)
  next
    case (Some t')
    have al: "4096 dvd unat t" "4096 dvd unat t'"
      using pt_wf_aligned [OF wf] tabI [OF _ t] tabI [OF _ Some] by simp_all
    have "t' = t \<longleftrightarrow> leafpath va' = leafpath va"
    proof
      assume "t' = t"
      then show "leafpath va' = leafpath va"
        using pt_wf_inj [OF wf Some, of "leafpath va"] t by (simp del: tab.simps)
    next
      assume "leafpath va' = leafpath va"
      then show "t' = t" using Some t by (simp only: option.inject)
    qed
    then have "t' = t \<and> px 0 va' = px 0 va \<longleftrightarrow> pfn va' = pfn va"
      using px_eq_iff [OF va(2,1)] by blast
    then have "entry ?m t' (px 0 va') = (if pfn va' = pfn va then v else entry m t' (px 0 va'))"
      using entry_st64 [OF al, of "px 0 va" "px 0 va'" m v] by simp
    then show ?thesis using Some tab by (simp add: vmap_def del: tab.simps)
  qed
qed

section \<open>Hanging in a new table page\<close>

definition hang :: "mem \<Rightarrow> addr \<Rightarrow> nat \<Rightarrow> addr \<Rightarrow> mem" where
  "hang m t i r = st64 (memset m r 0 4096) (t + 8 * of_nat i) (PA2PTE r OR PTE_V)"

lemma PTE2PA_table:
  assumes "page_ok kend r"
  shows "PTE2PA (PA2PTE r OR PTE_V) = r" and "valid (PA2PTE r OR PTE_V)"
    and "(PA2PTE r OR PTE_V) AND (PTE_R OR PTE_W OR PTE_X) = 0"
proof -
  have r: "4096 dvd unat r" "unat r < 2 ^ 56"
    using assms by (auto simp: page_ok_def mod_4096_iff word_less_nat_alt)
  show "PTE2PA (PA2PTE r OR PTE_V) = r" using PTE2PA_PA2PTE [OF r, of 1] by simp
  show "valid (PA2PTE r OR PTE_V)" using PTE_flag_test [of 0 r 1] by simp
  have "PTE_FLAGS (PA2PTE r OR 1) = 1" by (rule PTE_FLAGS_PA2PTE) simp
  then have "((PA2PTE r OR 1) AND 0x3FF) AND 14 = 1 AND 14" unfolding PTE_FLAGS_def by (rule arg_cong)
  moreover have "(e AND 0x3FF) AND 14 = e AND 14" for e :: u64 by (simp only: and.assoc) simp
  ultimately show "(PA2PTE r OR PTE_V) AND (PTE_R OR PTE_W OR PTE_X) = 0" by simp
qed

lemma entry_hang_new:
  assumes "page_ok kend r" and "4096 dvd unat t" and "t \<noteq> r" and "i < 512" and "j < 512"
  shows "entry (hang m t i r) r j = 0"
proof -
  have r: "4096 dvd unat r" using assms(1) by auto
  have "entry (hang m t i r) r j = entry (memset m r 0 4096) r j"
    using assms r by (simp add: hang_def entry_st64)
  also have "\<dots> = 0" by (rule entry_zeroed) (use r assms(5) in \<open>simp_all add: memset_page\<close>)
  finally show ?thesis .
qed

lemma entry_hang_old:
  assumes "page_ok kend r" and "4096 dvd unat t" and "4096 dvd unat t'" and "t' \<noteq> r" and "i < 512" and "j < 512"
  shows "entry (hang m t i r) t' j = (if t' = t \<and> j = i then PA2PTE r OR PTE_V else entry m t' j)"
proof -
  have r: "4096 dvd unat r" using assms(1) by auto
  have "entry (memset m r 0 4096) t' j = entry m t' j"
    using assms(3,4,6) r by (intro entry_cong) (simp_all add: memset_page pfn_eq)
  then show ?thesis using assms(2,3,5,6) by (simp add: hang_def entry_st64)
qed

lemma hang_frame:
  assumes "page_ok kend r" and "4096 dvd unat t" and "i < 512" and "pfn x \<noteq> pfn r" and "pfn x \<noteq> pfn t"
  shows "hang m t i r x = m x"
  using assms by (simp add: hang_def st64_page memset_page page_ok_aligned [OF assms(1)])


lemma tab_hang:
  assumes wf: "pt_wf kend F m root" and t: "tab m root p = Some t" and v: "vpath (i # p)"
    and inv: "\<not> valid (entry m t i)" and r: "page_ok kend r" "r \<notin> tabs m root" and q: "vpath q"
  shows "tab (hang m t i r) root q = (if q = i # p then Some r else tab m root q)"
  using q
proof (induction q)
  case (Cons j q)
  have tt: "t \<in> tabs m root" using t v tabI by auto
  have al: "4096 dvd unat t" using pt_wf_aligned [OF wf tt] .
  have tr: "t \<noteq> r" using tt r(2) by blast
  have vq: "vpath q" "j < 512" "length q \<le> 1" and ip: "i < 512" "vpath p" using Cons v by simp_all
  consider (new) "q = i # p" | (none) "q \<noteq> i # p" "tab m root q = None"
    | (old) t' where "q \<noteq> i # p" "tab m root q = Some t'"
    by (cases "tab m root q") auto
  then show ?case
  proof cases
    case new
    have "tab (hang m t i r) root q = Some r" using Cons.IH [OF vq(1)] new by simp
    moreover have "entry (hang m t i r) r j = 0"
      by (rule entry_hang_new [OF r(1) al tr ip(1) vq(2)])
    moreover have "tab m root (j # q) = None" using new t inv by simp
    ultimately show ?thesis using new by simp
  next
    case none
    then show ?thesis using Cons.IH [OF vq(1)] t by auto
  next
    case old
    have t': "t' \<in> tabs m root" using old(2) vq(1) by (rule tabI [rotated])
    have "t' = t \<longleftrightarrow> q = p" using old(2) t pt_wf_inj [OF wf old(2), of p] vq(1) ip(2) by auto
    moreover have "entry (hang m t i r) t' j = (if t' = t \<and> j = i then PA2PTE r OR PTE_V else entry m t' j)"
      using r t' pt_wf_aligned [OF wf t'] ip vq by (intro entry_hang_old [OF r(1) al]) auto
    ultimately show ?thesis
      using old Cons.IH [OF vq(1)] PTE2PA_table(1,2) [OF r(1)] by (cases "q = p \<and> j = i") auto
  qed
qed simp

lemma tabs_hang:
  assumes "pt_wf kend F m root" and "tab m root p = Some t" and "vpath (i # p)"
    and "\<not> valid (entry m t i)" and "page_ok kend r" "r \<notin> tabs m root"
  shows "tabs (hang m t i r) root = insert r (tabs m root)"
proof -
  have none: "tab m root (i # p) = None" using assms(2,4) by simp
  note tab = tab_hang [OF assms]
  show ?thesis
  proof (rule set_eqI, rule iffI)
    fix x
    assume "x \<in> tabs (hang m t i r) root"
    then obtain q where "vpath q" "tab (hang m t i r) root q = Some x" by (auto simp: tabs_def)
    then show "x \<in> insert r (tabs m root)" using tab [of q] by (auto split: if_splits intro: tabI)
  next
    fix x
    assume "x \<in> insert r (tabs m root)"
    then consider "x = r" | q where "vpath q" "tab m root q = Some x" by (auto simp: tabs_def)
    then show "x \<in> tabs (hang m t i r) root"
    proof cases
      case 1
      then show ?thesis using tab [OF assms(3)] by (intro tabI [OF assms(3)]) simp
    next
      case 2
      then have "q \<noteq> i # p" using none by auto
      then show ?thesis using tab [OF 2(1)] 2 by (intro tabI [OF 2(1)]) simp
    qed
  qed
qed

lemma pt_wf_hang:
  assumes wf: "pt_wf kend F m root" and t: "tab m root p = Some t" and v: "vpath (i # p)"
    and inv: "\<not> valid (entry m t i)" and r: "page_ok kend r" "r \<notin> tabs m root" "r \<notin> F'" "F' \<subseteq> F"
  shows "pt_wf kend F' (hang m t i r) root"
proof -
  let ?m = "hang m t i r"
  note tab = tab_hang [OF wf t v inv r(1,2)]
  have tt: "t \<in> tabs m root" using t v tabI by auto
  have al: "4096 dvd unat t" using pt_wf_aligned [OF wf tt] .
  have tr: "t \<noteq> r" using tt r(2) by blast
  have not_r: "tab m root q \<noteq> Some r" if "vpath q" for q using that r(2) tabI by blast
  have "tabs_inj ?m root"
    unfolding tabs_inj_def
  proof (intro allI impI)
    fix q q' x
    assume "vpath q" "vpath q'" "tab ?m root q = Some x" "tab ?m root q' = Some x"
    then show "q = q'"
      using tab [of q] tab [of q'] not_r [of q] not_r [of q'] pt_wf_inj [OF wf, of q x q']
      by (auto split: if_splits)
  qed
  moreover have "inner_ok ?m root"
    unfolding inner_ok_def
  proof (intro allI impI)
    fix q t' j
    assume *: "vpath (j # q)" "tab ?m root q = Some t'" "valid (entry ?m t' j)"
    then have q: "vpath q" "j < 512" by simp_all
    have "t' \<noteq> r"
      using entry_hang_new [OF r(1) al tr, of i j m] *(3) q(2) v by auto
    then have old: "tab m root q = Some t'" using tab [OF q(1)] *(2) by (simp split: if_splits)
    have "entry ?m t' j = (if t' = t \<and> j = i then PA2PTE r OR PTE_V else entry m t' j)"
      using \<open>t' \<noteq> r\<close> q(2) v pt_wf_aligned [OF wf] tabI [OF q(1) old]
      by (intro entry_hang_old [OF r(1) al]) auto
    then show "entry ?m t' j AND (PTE_R OR PTE_W OR PTE_X) = 0"
      using PTE2PA_table(3) [OF r(1)] pt_wf_inner [OF wf old *(1)] *(3) by (simp split: if_splits)
  qed
  moreover have "\<forall>x \<in> tabs ?m root. page_ok kend x \<and> x \<notin> F'"
    using r(1,3,4) wf by (auto simp: tabs_hang [OF wf t v inv r(1,2)] pt_wf_def)
  ultimately show ?thesis by (simp add: pt_wf_def)
qed

lemma vmap_hang:
  assumes wf: "pt_wf kend F m root" and t: "tab m root p = Some t" and v: "vpath (i # p)"
    and inv: "\<not> valid (entry m t i)" and r: "page_ok kend r" "r \<notin> tabs m root"
  shows "vmap (hang m t i r) root va = vmap m root va"
proof -
  have tt: "t \<in> tabs m root" using t v tabI by auto
  have al: "4096 dvd unat t" using pt_wf_aligned [OF wf tt] .
  have tr: "t \<noteq> r" using tt r(2) by blast
  have new: "tab (hang m t i r) root (leafpath va) = (if leafpath va = i # p then Some r else tab m root (leafpath va))"
    by (rule tab_hang [OF assms]) simp
  show ?thesis
  proof (cases "leafpath va = i # p")
    case True
    then have "tab m root (leafpath va) = None" using t inv by simp
    then show ?thesis
      using True new entry_hang_new [OF r(1) al tr, of i "px 0 va" m] v
      by (auto simp: vmap_def simp del: tab.simps)
  next
    case False
    show ?thesis
    proof (cases "tab m root (leafpath va)")
      case (Some t')
      have t': "t' \<in> tabs m root" using tabI [OF _ Some] by simp
      have "length p \<le> 1" "vpath p" using v by simp_all
      then have "p \<noteq> leafpath va" by auto
      then have "t' \<noteq> t" using pt_wf_inj [OF wf Some, of p] t \<open>vpath p\<close> by auto
      then have "entry (hang m t i r) t' (px 0 va) = entry m t' (px 0 va)"
        using entry_hang_old [OF r(1) al, of t' i "px 0 va" m] v t' r(2) pt_wf_aligned [OF wf t'] by auto
      moreover have "tab (hang m t i r) root (leafpath va) = Some t'" using new False Some by argo
      ultimately show ?thesis using Some by (simp add: vmap_def del: tab.simps)
    qed (use new False in \<open>simp add: vmap_def del: tab.simps\<close>)
  qed
qed


section \<open>walk\<close>

definition vm_inv :: "addr \<Rightarrow> addr \<Rightarrow> kstate \<Rightarrow> addr set \<Rightarrow> bool" where
  "vm_inv kend root s F \<longleftrightarrow> kmem_inv kend s F \<and> pt_wf kend F (pmem s) root"

text \<open>
  What allocating table pages may do: the tables grow by exactly the pages taken from the free set,
  and memory outside the free pages and the tables is untouched.
\<close>

definition pt_grow :: "addr \<Rightarrow> addr \<Rightarrow> kstate \<Rightarrow> addr set \<Rightarrow> kstate \<Rightarrow> addr set \<Rightarrow> bool" where
  "pt_grow kend root s F s' F' \<longleftrightarrow>
     F' \<subseteq> F \<and> vm_inv kend root s' F' \<and> tabs (pmem s') root = tabs (pmem s) root \<union> (F - F') \<and>
     (\<forall>x. pfn x \<notin> pfn ` (F \<union> tabs (pmem s) root) \<longrightarrow> pmem s' x = pmem s x)"

lemma pt_grow_refl: "vm_inv kend root s F \<Longrightarrow> pt_grow kend root s F s F"
  by (simp add: pt_grow_def)

lemma pt_grow_trans:
  assumes "pt_grow kend root s F s1 F1" and "pt_grow kend root s1 F1 s2 F2"
  shows "pt_grow kend root s F s2 F2"
proof -
  have eq: "F1 \<union> tabs (pmem s1) root = F \<union> tabs (pmem s) root" using assms(1) by (auto simp: pt_grow_def)
  have "\<forall>x. pfn x \<notin> pfn ` (F \<union> tabs (pmem s) root) \<longrightarrow> pmem s2 x = pmem s x"
    using assms eq by (metis pt_grow_def)
  moreover have "tabs (pmem s2) root = tabs (pmem s) root \<union> (F - F2)"
    using assms by (auto simp: pt_grow_def)
  ultimately show ?thesis using assms by (auto simp: pt_grow_def)
qed

lemma pt_grow_hang:
  assumes inv: "vm_inv kend root s F" and k: "kalloc s = (r, s1)" "r \<noteq> 0"
    and t: "tab (pmem s) root p = Some t" and v: "vpath (i # p)" and nv: "\<not> valid (entry (pmem s) t i)"
    and s2: "s2 = s1\<lparr>pmem := hang (pmem s1) t i r\<rparr>"
  shows "pt_grow kend root s F s2 (F - {r}) \<and> tab (pmem s2) root (i # p) = Some r \<and>
    (\<forall>va. vmap (pmem s2) root va = vmap (pmem s) root va)"
proof -
  have ki: "kmem_inv kend s F" and wf: "pt_wf kend F (pmem s) root" using inv by (auto simp: vm_inv_def)
  from ki k(1) have rF: "r \<in> F" and ok: "page_ok kend r" and i1: "kmem_inv kend s1 (F - {r})"
    and fr: "\<And>x. pfn x \<noteq> pfn r \<Longrightarrow> pmem s1 x = pmem s x"
    using ka.alloc_cases [OF ki k(1)] k(2) by metis+
  have rt: "r \<notin> tabs (pmem s) root" using pt_wf_free [OF wf] rF by blast
  have al: "\<forall>q \<in> tabs (pmem s) root. 4096 dvd unat q" using pt_wf_aligned [OF wf] by blast
  have "pfn r \<notin> pfn ` tabs (pmem s) root" using pfn_notin [OF page_ok_aligned [OF ok] al rt] .
  then have eq: "pmem s1 x = pmem s x" if "pfn x \<in> pfn ` tabs (pmem s) root" for x
    using fr [of x] that by metis
  have wf1: "pt_wf kend (F - {r}) (pmem s1) root"
    by (rule pt_wf_cong [OF wf eq]) (use pt_wf_free [OF wf] in auto)
  have tabs1: "tabs (pmem s1) root = tabs (pmem s) root" by (rule tabs_cong [OF wf eq])
  have t1: "tab (pmem s1) root p = Some t"
    using tab_cong [OF wf eq, of p] v t by simp
  have tt: "t \<in> tabs (pmem s) root" using t v tabI by auto
  have nv1: "\<not> valid (entry (pmem s1) t i)"
    using entry_cong_tabs [OF wf eq tt, of i] v nv by simp
  have rt1: "r \<notin> tabs (pmem s1) root" using rt tabs1 by simp
  note h = wf1 t1 v nv1 ok rt1
  have "vm_inv kend root s2 (F - {r})"
  proof -
    have alt: "4096 dvd unat t" using al tt by blast
    have alF: "\<forall>q \<in> F - {r}. 4096 dvd unat q"
      using ka.inv_ok [OF ki] by (auto intro: page_ok_aligned)
    have notin: "pfn t \<notin> pfn ` (F - {r})" "pfn r \<notin> pfn ` (F - {r})"
      using pt_wf_free [OF wf tt] pfn_notin [OF alt alF] pfn_notin [OF page_ok_aligned [OF ok] alF]
      by blast+
    have "kmem_inv kend s2 (F - {r})"
      unfolding s2
    proof (rule kmem_inv_frame [OF i1])
      fix x
      assume "pfn x \<in> pfn ` (F - {r})"
      then have "pfn x \<noteq> pfn r" "pfn x \<noteq> pfn t" using notin by metis+
      then show "hang (pmem s1) t i r x = pmem s1 x" using hang_frame [OF ok alt] v by simp
    qed
    then show ?thesis using pt_wf_hang [OF h, of "F - {r}"] by (simp add: vm_inv_def s2)
  qed
  moreover have "tabs (pmem s2) root = tabs (pmem s) root \<union> (F - (F - {r}))"
    using tabs_hang [OF h] tabs1 rF by (auto simp: s2)
  moreover have "pmem s2 x = pmem s x" if "pfn x \<notin> pfn ` (F \<union> tabs (pmem s) root)" for x
  proof -
    have "pfn x \<noteq> pfn r" "pfn x \<noteq> pfn t" using that rF tt by blast+
    then show ?thesis using hang_frame [OF ok _ _, of t i x] fr al tt v by (simp add: s2)
  qed
  moreover have "tab (pmem s2) root (i # p) = Some r" using tab_hang [OF h v] by (simp add: s2)
  moreover have "vmap (pmem s2) root va = vmap (pmem s) root va" for va
    using vmap_hang [OF h, of va] vmap_cong [OF wf eq, of va] by (simp add: s2)
  ultimately show ?thesis by (simp add: pt_grow_def)
qed

definition wpath :: "u64 \<Rightarrow> nat \<Rightarrow> nat list" where
  "wpath va l = map (\<lambda>k. px k va) [Suc l..<3]"

lemma wpath_simps [simp]:
  "wpath va 2 = []"
  "l < 2 \<Longrightarrow> wpath va l = px (Suc l) va # wpath va (Suc l)"
  "vpath (wpath va l)"
  by (auto simp: wpath_def vpath_def upt_conv_Cons)

lemma wpath_0: "wpath va 0 = leafpath va"
  by (simp add: wpath_def upt_rec numeral_2_eq_2)

lemma tab_wpath_None: "l \<le> 2 \<Longrightarrow> tab m root (wpath va l) = None \<Longrightarrow> tab m root (leafpath va) = None"
proof (induction l)
  case (Suc l)
  then show ?case by simp
qed (simp add: wpath_0 del: tab.simps wpath_simps)

definition leaf_addr :: "mem \<Rightarrow> addr \<Rightarrow> u64 \<Rightarrow> addr" where
  "leaf_addr m root va =
     (case tab m root (leafpath va) of None \<Rightarrow> 0 | Some t \<Rightarrow> t + 8 * of_nat (px 0 va))"

lemma entry_pte_addr: "ld64 m (pte_addr t l va) = entry m t (px l va)"
  by (simp add: entry_def pte_addr_px)

lemma walk_loop_noalloc:
  "l \<le> 2 \<Longrightarrow> tab (pmem s) root (wpath va l) = Some pt \<Longrightarrow>
   walk_loop l pt va False s = (leaf_addr (pmem s) root va, s)"
proof (induction l arbitrary: pt)
  case 0
  then show ?case by (simp add: wpath_0 leaf_addr_def pte_addr_px del: tab.simps wpath_simps)
next
  case (Suc l)
  let ?e = "entry (pmem s) pt (px (Suc l) va)"
  have tab: "tab (pmem s) root (wpath va l) = (if valid ?e then Some (PTE2PA ?e) else None)"
    using Suc.prems by simp
  show ?case
  proof (cases "valid ?e")
    case True
    then show ?thesis using Suc.IH Suc.prems(1) tab by (simp add: entry_pte_addr)
  next
    case False
    then have "tab (pmem s) root (leafpath va) = None"
      using tab Suc.prems(1) by (intro tab_wpath_None [of l]) simp_all
    then show ?thesis using False by (simp add: entry_pte_addr leaf_addr_def del: tab.simps)
  qed
qed

lemma walk_noalloc: "va < MAXVA \<Longrightarrow> walk root va False s = Ok (leaf_addr (pmem s) root va, s)"
  by (simp add: walk_def walk_loop_noalloc not_le)

lemma leaf_addr_nonzero:
  assumes "pt_wf kend F m root" and "tab m root (leafpath va) = Some t"
  shows "t + 8 * of_nat (px 0 va) \<noteq> 0"
proof -
  have t: "t \<in> tabs m root" by (rule tabI [OF _ assms(2)]) simp
  have "unat (t + 8 * of_nat (px 0 va)) = unat t + 8 * px 0 va"
    using pt_wf_aligned [OF assms(1) t] by (simp add: unat_entry_addr)
  moreover have "unat t \<noteq> 0" using page_ok_not_0 [OF pt_wf_ok [OF assms(1) t]] by (simp add: unat_eq_0)
  ultimately show ?thesis by (metis add_is_0 unsigned_0)
qed

text \<open>The lookup of an address that is used by all the readers of a page table.\<close>

lemma walk_cases:
  assumes wf: "pt_wf kend F (pmem s) root" and va: "va < MAXVA"
  obtains (none) "walk root va False s = Ok (0, s)" "tab (pmem s) root (leafpath va) = None"
      "vmap (pmem s) root va = None"
  | (some) t pte where "walk root va False s = Ok (pte, s)" "pte \<noteq> 0" "pte = t + 8 * of_nat (px 0 va)"
      "tab (pmem s) root (leafpath va) = Some t" "t \<in> tabs (pmem s) root"
      "vmap (pmem s) root va = (if valid (ld64 (pmem s) pte) then Some (ld64 (pmem s) pte) else None)"
proof (cases "tab (pmem s) root (leafpath va)")
  case None
  then show ?thesis
    using none walk_noalloc [OF va] by (simp add: leaf_addr_def vmap_def del: tab.simps)
next
  case (Some t)
  show ?thesis
    by (rule some [of "t + 8 * of_nat (px 0 va)" t])
       (use Some walk_noalloc [OF va] leaf_addr_nonzero [OF wf Some] tabI [OF _ Some] in
         \<open>simp_all add: leaf_addr_def vmap_def entry_def del: tab.simps\<close>)
qed

lemma walk_loop_alloc:
  assumes "vm_inv kend root s F" and "l \<le> 2" and "tab (pmem s) root (wpath va l) = Some pt"
    and "walk_loop l pt va True s = (pte, s')"
  shows "\<exists>F'. pt_grow kend root s F s' F' \<and> (\<forall>x. vmap (pmem s') root x = vmap (pmem s) root x) \<and>
    (if pte = 0 then F' = {}
     else \<exists>t. tab (pmem s') root (leafpath va) = Some t \<and> pte = t + 8 * of_nat (px 0 va))"
  using assms
proof (induction l arbitrary: pt s F)
  case 0
  then have "pte = pt + 8 * of_nat (px 0 va)" "s' = s" "tab (pmem s) root (leafpath va) = Some pt"
    by (simp_all add: wpath_0 pte_addr_px del: tab.simps wpath_simps)
  then show ?case
    using pt_grow_refl [OF 0(1)] leaf_addr_nonzero [of kend F "pmem s" root va pt] 0(1)
    by (auto simp: vm_inv_def simp del: tab.simps)
next
  case (Suc l)
  let ?e = "entry (pmem s) pt (px (Suc l) va)"
  have tab: "tab (pmem s) root (wpath va l) = (if valid ?e then Some (PTE2PA ?e) else None)"
    using Suc.prems by simp
  obtain r s1 where k: "kalloc s = (r, s1)" by (cases "kalloc s")
  have ki: "kmem_inv kend s F" using Suc.prems(1) by (simp add: vm_inv_def)
  consider (valid) "valid ?e" | (oom) "\<not> valid ?e" "r = 0" | (new) "\<not> valid ?e" "r \<noteq> 0" by blast
  then show ?case
  proof cases
    case valid
    then show ?thesis
      using Suc.IH [OF Suc.prems(1)] Suc.prems(2,4) tab by (simp add: entry_pte_addr)
  next
    case oom
    then have "F = {}" "s1 = s" using ka.alloc_cases [OF ki k] by metis+
    moreover have "pte = 0" "s' = s1" using oom Suc.prems(4) k by (simp_all add: entry_pte_addr)
    ultimately show ?thesis using pt_grow_refl [OF Suc.prems(1)] by auto
  next
    case new
    define s2 where "s2 = s1\<lparr>pmem := hang (pmem s1) pt (px (Suc l) va) r\<rparr>"
    have vp: "vpath (px (Suc l) va # wpath va (Suc l))"
      using wpath_simps(3) [of va l] Suc.prems(2) by (simp del: vpath_simps)
    note g = pt_grow_hang [OF Suc.prems(1) k new(2) Suc.prems(3) vp new(1) s2_def]
    have "walk_loop l r va True s2 = (pte, s')"
      using new k Suc.prems(4) by (simp add: entry_def s2_def hang_def pte_addr_px Let_def)
    moreover have "tab (pmem s2) root (wpath va l) = Some r" using g Suc.prems(2) by (simp del: tab.simps)
    moreover have "vm_inv kend root s2 (F - {r})" using g by (simp add: pt_grow_def)
    ultimately obtain F' where "pt_grow kend root s2 (F - {r}) s' F'"
      "\<forall>x. vmap (pmem s') root x = vmap (pmem s2) root x"
      "if pte = 0 then F' = {} else \<exists>t. tab (pmem s') root (leafpath va) = Some t \<and> pte = t + 8 * of_nat (px 0 va)"
      using Suc.IH [of s2 "F - {r}" r] Suc.prems(2) by (auto simp del: tab.simps)
    then show ?thesis using g pt_grow_trans by metis
  qed
qed

lemma walk_alloc:
  assumes "vm_inv kend root s F" and "va < MAXVA"
  obtains pte s' F' where "walk root va True s = Ok (pte, s')" and "pt_grow kend root s F s' F'"
    and "\<And>x. vmap (pmem s') root x = vmap (pmem s) root x"
    and "pte = 0 \<Longrightarrow> F' = {}"
    and "pte \<noteq> 0 \<Longrightarrow> \<exists>t. tab (pmem s') root (leafpath va) = Some t \<and> pte = t + 8 * of_nat (px 0 va)"
proof -
  obtain pte s' where w: "walk_loop 2 root va True s = (pte, s')" by (cases "walk_loop 2 root va True s")
  have "walk root va True s = Ok (pte, s')" using assms(2) w by (simp add: walk_def not_le)
  moreover obtain F' where "pt_grow kend root s F s' F'"
    "\<forall>x. vmap (pmem s') root x = vmap (pmem s) root x"
    "if pte = 0 then F' = {} else \<exists>t. tab (pmem s') root (leafpath va) = Some t \<and> pte = t + 8 * of_nat (px 0 va)"
    using walk_loop_alloc [OF assms(1) _ _ w] by auto
  ultimately show ?thesis using that [of pte s' F'] by (simp split: if_splits)
qed

end
