(* ===== verification/Xv6_Vm_Spec.thy ===== *)
theory Xv6_Vm_Spec
  imports Xv6_Vm_Tree
begin

unbundle bit_operations_syntax

text \<open>
  The operations of \<open>kernel/vm.c\<close> against the abstraction \<open>vmap\<close>: mapping, unmapping, growing
  and shrinking, freeing, copying address spaces, and moving bytes between the kernel and a user
  address space.
\<close>

section \<open>mappages\<close>

definition map_pages :: "(u64 \<Rightarrow> u64 option) \<Rightarrow> u64 \<Rightarrow> u64 \<Rightarrow> u64 \<Rightarrow> nat \<Rightarrow> u64 \<Rightarrow> u64 option" where
  "map_pages f a pa perm n = (\<lambda>va.
     if pfn a \<le> pfn va \<and> pfn va < pfn a + n
     then Some (PA2PTE (pa + of_nat (pfn va - pfn a) * PGSIZE) OR perm OR PTE_V) else f va)"

lemma pt_grow_leaf:
  assumes inv: "vm_inv kend root s F" and t: "tab (pmem s) root (leafpath va) = Some t"
  shows "pt_grow kend root s F (s\<lparr>pmem := st64 (pmem s) (t + 8 * of_nat (px 0 va)) v\<rparr>) F"
proof -
  have ki: "kmem_inv kend s F" and wf: "pt_wf kend F (pmem s) root" using inv by (auto simp: vm_inv_def)
  have tt: "t \<in> tabs (pmem s) root" by (rule tabI [OF _ t]) simp
  have al: "4096 dvd unat t" by (rule pt_wf_aligned [OF wf tt])
  have leaf: "vpath (leafpath va)" "length (leafpath va) = 2" "px 0 va < 512" by simp_all
  have "kmem_inv kend (s\<lparr>pmem := st64 (pmem s) (t + 8 * of_nat (px 0 va)) v\<rparr>) F"
    using pt_wf_free [OF wf tt] al
    by (intro ka.inv_write_owned [OF ki al]) (simp_all add: st64_page)
  moreover have "pt_wf kend F (st64 (pmem s) (t + 8 * of_nat (px 0 va)) v) root"
    by (rule pt_wf_leaf_store [OF wf t leaf])
  moreover have "tabs (st64 (pmem s) (t + 8 * of_nat (px 0 va)) v) root = tabs (pmem s) root"
    by (rule tabs_leaf_store [OF wf t leaf])
  moreover have "st64 (pmem s) (t + 8 * of_nat (px 0 va)) v x = pmem s x"
    if "pfn x \<notin> pfn ` (F \<union> tabs (pmem s) root)" for x
    using that tt al by (intro st64_page) auto
  ultimately show ?thesis by (simp add: pt_grow_def vm_inv_def)
qed

lemma valid_leaf: "valid (PA2PTE pa OR perm OR PTE_V)"
  using PTE_flag_test [of 0 pa "perm OR 1"] by (simp add: bit_simps)

lemma pfn_step: "unat (a :: u64) < 2 ^ 38 \<Longrightarrow> pfn (a + 4096) = pfn a + 1"
  by (simp add: pfn_def unat_step)

lemma unat_pages:
  assumes "unat a + 4096 * n < 2 ^ 64"
  shows "unat (a + of_nat n * 4096 :: u64) = unat a + 4096 * n"
proof -
  define k :: u64 where "k = of_nat (n * 4096)"
  have k: "unat k = n * 4096"
    unfolding k_def by (rule unat_of_nat_small) (use assms in simp)
  have "of_nat n * 4096 = k" by (simp add: k_def)
  moreover have "unat (a + k) = unat a + unat k"
    by (rule unat_add_lem [THEN iffD1]) (use assms k in simp)
  ultimately show ?thesis using k by simp
qed

lemma map_pages_Suc:
  assumes "unat a < 2 ^ 38"
  shows "map_pages (\<lambda>va. if pfn va = pfn a then Some (PA2PTE pa OR perm OR PTE_V) else f va)
      (a + 4096) (pa + 4096) perm n = map_pages f a pa perm (Suc n)"
proof
  fix va
  have "of_nat (pfn va - pfn a) = (of_nat (pfn va - (pfn a + 1)) + 1 :: u64)" if "pfn a + 1 \<le> pfn va"
    using that by (metis Suc_diff_Suc Suc_eq_plus1 less_eq_Suc_le of_nat_Suc add.commute)
  then show "map_pages (\<lambda>va. if pfn va = pfn a then Some (PA2PTE pa OR perm OR PTE_V) else f va)
      (a + 4096) (pa + 4096) perm n va = map_pages f a pa perm (Suc n) va"
    by (auto simp: map_pages_def pfn_step [OF assms] algebra_simps)
qed

lemma map_pages_0 [simp]: "map_pages f a pa perm 0 = f"
  by (auto simp: map_pages_def fun_eq_iff)

lemma map_pages_cong: "(f va = g va) \<Longrightarrow> map_pages f a pa perm n va = map_pages g a pa perm n va"
  by (simp add: map_pages_def)

lemma mappages_step:
  assumes inv: "vm_inv kend root s F" and a: "a < MAXVA" and none: "vmap (pmem s) root a = None"
  obtains (oom) s1 where "mappages_loop root a lastva pa perm s = Ok (-1, s1)"
      "pt_grow kend root s F s1 {}" "\<And>va. vmap (pmem s1) root va = vmap (pmem s) root va"
  | (ok) s2 F' where
      "mappages_loop root a lastva pa perm s =
         (if a = lastva then Ok (0, s2) else mappages_loop root (a + PGSIZE) lastva (pa + PGSIZE) perm s2)"
      "pt_grow kend root s F s2 F'"
      "\<And>va. va < MAXVA \<Longrightarrow> vmap (pmem s2) root va =
         (if pfn va = pfn a then Some (PA2PTE pa OR perm OR PTE_V) else vmap (pmem s) root va)"
proof -
  obtain pte s1 F1 where w: "walk root a True s = Ok (pte, s1)" "pt_grow kend root s F s1 F1"
    and vm: "\<And>x. vmap (pmem s1) root x = vmap (pmem s) root x"
    and z: "pte = 0 \<Longrightarrow> F1 = {}"
    and nz: "pte \<noteq> 0 \<Longrightarrow> \<exists>t. tab (pmem s1) root (leafpath a) = Some t \<and> pte = t + 8 * of_nat (px 0 a)"
    using walk_alloc [OF inv a] by blast
  show ?thesis
  proof (cases "pte = 0")
    case True
    then show ?thesis using oom [of s1] w z vm by (simp add: mappages_loop.simps [of root a])
  next
    case False
    then obtain t where t: "tab (pmem s1) root (leafpath a) = Some t" "pte = t + 8 * of_nat (px 0 a)"
      using nz by blast
    define s2 where "s2 = s1\<lparr>pmem := st64 (pmem s1) pte (PA2PTE pa OR perm OR PTE_V)\<rparr>"
    have inv1: "vm_inv kend root s1 F1" and wf1: "pt_wf kend F1 (pmem s1) root"
      using w(2) by (auto simp: pt_grow_def vm_inv_def)
    have "\<not> valid (ld64 (pmem s1) pte)"
      using none vm [of a] t by (auto simp: vmap_def entry_def simp del: tab.simps split: if_splits)
    then have "mappages_loop root a lastva pa perm s =
         (if a = lastva then Ok (0, s2) else mappages_loop root (a + PGSIZE) lastva (pa + PGSIZE) perm s2)"
      using w(1) False by (simp add: mappages_loop.simps [of root a] s2_def Let_def)
    moreover have "pt_grow kend root s1 F1 s2 F1"
      unfolding s2_def t(2) by (rule pt_grow_leaf [OF inv1 t(1)])
    moreover have "vmap (pmem s2) root va =
        (if pfn va = pfn a then Some (PA2PTE pa OR perm OR PTE_V) else vmap (pmem s) root va)"
      if "va < MAXVA" for va
      using vmap_leaf_store [OF wf1 t(1) a that, of "PA2PTE pa OR perm OR PTE_V"] valid_leaf vm
      by (simp add: s2_def t(2))
    ultimately show ?thesis using ok [of s2 F1] pt_grow_trans [OF w(2)] by blast
  qed
qed

lemma mappages_loop_spec:
  assumes "vm_inv kend root s F" and "unat a + 4096 * Suc n \<le> 2 ^ 38"
    and "lastva = a + of_nat n * 4096"
    and "\<And>va. va < MAXVA \<Longrightarrow> pfn a \<le> pfn va \<Longrightarrow> pfn va \<le> pfn a + n \<Longrightarrow> vmap (pmem s) root va = None"
  shows "\<exists>r s' F' j. mappages_loop root a lastva pa perm s = Ok (r, s') \<and> pt_grow kend root s F s' F' \<and>
    (r = 0 \<and> j = Suc n \<or> r = -1 \<and> j \<le> n \<and> F' = {}) \<and>
    (\<forall>va < MAXVA. vmap (pmem s') root va = map_pages (vmap (pmem s) root) a pa perm j va)"
  using assms
proof (induction n arbitrary: s F a pa)
  case (0 s F a pa)
  have a: "a < MAXVA" using 0(2) by (simp add: word_less_nat_alt)
  show ?case
  proof (cases rule: mappages_step [OF 0(1) a 0(4) [OF a], of lastva pa perm, case_names _ _ oom ok])
    case (oom s1)
    show ?thesis by (rule exI [of _ "-1"], rule exI [of _ s1], rule exI [of _ "{}"], rule exI [of _ 0]) (use oom in simp)
  next
    case (ok s2 F')
    have "map_pages f a pa perm (Suc 0) va = (if pfn va = pfn a then Some (PA2PTE pa OR perm OR PTE_V) else f va)" for f va
      by (auto simp: map_pages_def)
    then show ?thesis
      by (intro exI [of _ 0] exI [of _ s2] exI [of _ F'] exI [of _ "Suc 0"]) (use ok 0(3) in simp)
  qed simp_all
next
  case (Suc n s F a pa)
  have a: "a < MAXVA" and ua: "unat a < 2 ^ 38" using Suc.prems(2) by (simp_all add: word_less_nat_alt)
  show ?case
  proof (cases rule: mappages_step [OF Suc.prems(1) a Suc.prems(4) [OF a], of lastva pa perm, case_names _ _ oom ok])
    case (oom s1)
    show ?thesis by (rule exI [of _ "-1"], rule exI [of _ s1], rule exI [of _ "{}"], rule exI [of _ 0]) (use oom in simp)
  next
    case (ok s2 F1)
    have ne: "a \<noteq> lastva"
    proof
      assume "a = lastva"
      then have "unat (of_nat (Suc n) * 4096 :: u64) = 0" using Suc.prems(3) by simp
      moreover have "unat (of_nat (Suc n * 4096) :: u64) = Suc n * 4096"
        using Suc.prems(2) by (intro unat_of_nat_small) simp
      ultimately show False by simp
    qed
    have inv2: "vm_inv kend root s2 F1" using ok(2) by (simp add: pt_grow_def)
    have "\<exists>r s' F' j. mappages_loop root (a + 4096) lastva (pa + 4096) perm s2 = Ok (r, s') \<and>
        pt_grow kend root s2 F1 s' F' \<and> (r = 0 \<and> j = Suc n \<or> r = -1 \<and> j \<le> n \<and> F' = {}) \<and>
        (\<forall>va < MAXVA. vmap (pmem s') root va = map_pages (vmap (pmem s2) root) (a + 4096) (pa + 4096) perm j va)"
    proof (rule Suc.IH [OF inv2])
      show "unat (a + 4096) + 4096 * Suc n \<le> 2 ^ 38" using Suc.prems(2) by (simp add: unat_step [OF ua])
      show "lastva = a + 4096 + of_nat n * 4096" using Suc.prems(3) by (simp add: algebra_simps)
      show "vmap (pmem s2) root va = None"
        if "va < MAXVA" "pfn (a + 4096) \<le> pfn va" "pfn va \<le> pfn (a + 4096) + n" for va
        using that ok(3) [OF that(1)] Suc.prems(4) [OF that(1)] by (simp add: pfn_step [OF ua])
    qed
    then obtain r s' F' j where IH: "mappages_loop root (a + 4096) lastva (pa + 4096) perm s2 = Ok (r, s')"
        "pt_grow kend root s2 F1 s' F'" "r = 0 \<and> j = Suc n \<or> r = -1 \<and> j \<le> n \<and> F' = {}"
        "\<forall>va < MAXVA. vmap (pmem s') root va = map_pages (vmap (pmem s2) root) (a + 4096) (pa + 4096) perm j va"
      by blast
    have "vmap (pmem s') root va = map_pages (vmap (pmem s) root) a pa perm (Suc j) va" if "va < MAXVA" for va
    proof -
      have "vmap (pmem s') root va = map_pages (vmap (pmem s2) root) (a + 4096) (pa + 4096) perm j va"
        using IH(4) that by simp
      also have "\<dots> = map_pages (\<lambda>va. if pfn va = pfn a then Some (PA2PTE pa OR perm OR PTE_V)
          else vmap (pmem s) root va) (a + 4096) (pa + 4096) perm j va"
        by (rule map_pages_cong) (rule ok(3) [OF that])
      finally show ?thesis by (simp only: map_pages_Suc [OF ua])
    qed
    moreover have "mappages_loop root a lastva pa perm s = Ok (r, s')" using ok(1) ne IH(1) by simp
    ultimately show ?thesis
      using pt_grow_trans [OF ok(2) IH(2)] IH(3)
      by (intro exI [of _ r] exI [of _ s'] exI [of _ F'] exI [of _ "Suc j"]) auto
  qed simp_all
qed


lemma mappages_page:
  assumes "vm_inv kend root s F" and "va < MAXVA" and "4096 dvd unat va" and "vmap (pmem s) root va = None"
  obtains (oom) s' where "mappages root va 4096 pa perm s = Ok (-1, s')" "pt_grow kend root s F s' {}"
      "\<And>x. x < MAXVA \<Longrightarrow> vmap (pmem s') root x = vmap (pmem s) root x"
  | (ok) s' F' where "mappages root va 4096 pa perm s = Ok (0, s')" "pt_grow kend root s F s' F'"
      "\<And>x. x < MAXVA \<Longrightarrow> vmap (pmem s') root x =
        (if pfn x = pfn va then Some (PA2PTE pa OR perm OR PTE_V) else vmap (pmem s) root x)"
proof -
  have eq: "mappages root va 4096 pa perm s = mappages_loop root va va pa perm s"
    using assms(3) by (simp add: mappages_def mod_4096_iff)
  show ?thesis
  proof (cases rule: mappages_step [OF assms(1,2,4), of va pa perm, case_names oom ok])
    case (oom s1)
    then show ?thesis using that(1) [of s1] eq by simp
  next
    case (ok s2 F')
    then show ?thesis using that(2) [of s2 F'] eq by simp
  qed
qed

section \<open>uvmunmap\<close>

definition in_pages :: "nat \<Rightarrow> nat \<Rightarrow> u64 \<Rightarrow> bool" where
  "in_pages lo hi va \<longleftrightarrow> va < MAXVA \<and> lo \<le> pfn va \<and> pfn va < hi"

text \<open>The physical pages mapped in a range, and that the address space owns them.\<close>

definition upages :: "(u64 \<Rightarrow> u64 option) \<Rightarrow> nat \<Rightarrow> nat \<Rightarrow> addr set" where
  "upages f lo hi = {PTE2PA e | va e. in_pages lo hi va \<and> f va = Some e}"

definition uowned :: "addr \<Rightarrow> addr set \<Rightarrow> (u64 \<Rightarrow> u64 option) \<Rightarrow> nat \<Rightarrow> nat \<Rightarrow> bool" where
  "uowned kend Taken f lo hi \<longleftrightarrow>
     (\<forall>va e. in_pages lo hi va \<longrightarrow> f va = Some e \<longrightarrow> page_ok kend (PTE2PA e) \<and> PTE2PA e \<notin> Taken) \<and>
     (\<forall>va va' e e'. in_pages lo hi va \<longrightarrow> in_pages lo hi va' \<longrightarrow> f va = Some e \<longrightarrow> f va' = Some e' \<longrightarrow>
        PTE2PA e = PTE2PA e' \<longrightarrow> pfn va = pfn va')"

definition unmap_pages :: "(u64 \<Rightarrow> u64 option) \<Rightarrow> nat \<Rightarrow> nat \<Rightarrow> u64 \<Rightarrow> u64 option" where
  "unmap_pages f lo hi = (\<lambda>va. if lo \<le> pfn va \<and> pfn va < hi then None else f va)"

text \<open>What unmapping does: the free set grows, the tables stay, and only they and freed pages change.\<close>

definition pt_shrink :: "addr \<Rightarrow> addr \<Rightarrow> kstate \<Rightarrow> addr set \<Rightarrow> kstate \<Rightarrow> addr set \<Rightarrow> bool" where
  "pt_shrink kend root s P s' F' \<longleftrightarrow>
     vm_inv kend root s' F' \<and> tabs (pmem s') root = tabs (pmem s) root \<and>
     (\<forall>x. pfn x \<notin> pfn ` (P \<union> tabs (pmem s) root) \<longrightarrow> pmem s' x = pmem s x)"

lemma vmap_pfn:
  assumes "va < MAXVA" and "va' < MAXVA" and "pfn va = pfn va'"
  shows "vmap m root va = vmap m root va'"
proof -
  have eq: "leafpath va = leafpath va'" "px 0 va = px 0 va'" using px_eq_iff assms by blast+
  show ?thesis unfolding vmap_def eq ..
qed

lemma pt_shrink_leaf:
  assumes inv: "vm_inv kend root s F" and t: "tab (pmem s) root (leafpath a) = Some t" and a: "a < MAXVA"
  shows "pt_shrink kend root s {} (s\<lparr>pmem := st64 (pmem s) (t + 8 * of_nat (px 0 a)) 0\<rparr>) F \<and>
    (\<forall>va < MAXVA. vmap (st64 (pmem s) (t + 8 * of_nat (px 0 a)) 0) root va =
      (if pfn va = pfn a then None else vmap (pmem s) root va))"
proof -
  have wf: "pt_wf kend F (pmem s) root" using inv by (simp add: vm_inv_def)
  have tt: "t \<in> tabs (pmem s) root" by (rule tabI [OF _ t]) simp
  have al: "4096 dvd unat t" by (rule pt_wf_aligned [OF wf tt])
  note g = pt_grow_leaf [OF inv t, of 0]
  have "st64 (pmem s) (t + 8 * of_nat (px 0 a)) 0 x = pmem s x" if "pfn x \<notin> pfn ` tabs (pmem s) root" for x
    using that tt al by (intro st64_page) auto
  then show ?thesis
    using g vmap_leaf_store [OF wf t a, of _ 0] by (simp add: pt_shrink_def pt_grow_def)
qed

lemma uvmunmap_page_spec:
  assumes inv: "vm_inv kend root s F" and a: "a < MAXVA"
    and own: "\<And>e. do_free \<Longrightarrow> vmap (pmem s) root a = Some e \<Longrightarrow>
      page_ok kend (PTE2PA e) \<and> PTE2PA e \<notin> F \<union> tabs (pmem s) root"
  shows "\<exists>s'. uvmunmap_page kend root a do_free s = Ok s' \<and>
    (let P = (if do_free then PTE2PA ` set_option (vmap (pmem s) root a) else {}) in
      pt_shrink kend root s P s' (F \<union> P)) \<and>
    (\<forall>va < MAXVA. vmap (pmem s') root va = (if pfn va = pfn a then None else vmap (pmem s) root va))"
proof -
  have wf: "pt_wf kend F (pmem s) root" and ki: "kmem_inv kend s F" using inv by (auto simp: vm_inv_def)
  show ?thesis
    using wf a
  proof (cases rule: walk_cases)
    case none
    then show ?thesis
      using inv vmap_pfn [OF _ a] by (auto simp: uvmunmap_page_def pt_shrink_def)
  next
    case (some t pte)
    show ?thesis
    proof (cases "valid (ld64 (pmem s) pte)")
      case False
      then show ?thesis
        using inv some vmap_pfn [OF _ a] by (auto simp: uvmunmap_page_def pt_shrink_def)
    next
      case True
      let ?e = "ld64 (pmem s) pte"
      have e: "vmap (pmem s) root a = Some ?e" using some True by simp
      show ?thesis
      proof (cases do_free)
        case False
        then show ?thesis
          using pt_shrink_leaf [OF inv some(4) a] some True by (simp add: uvmunmap_page_def)
      next
        case True
        then have ok: "page_ok kend (PTE2PA ?e)" "PTE2PA ?e \<notin> F" "PTE2PA ?e \<notin> tabs (pmem s) root"
          using own e by auto
        obtain s2 where s2: "kfree kend (PTE2PA ?e) s = Ok s2" "kmem_inv kend s2 (insert (PTE2PA ?e) F)"
          "\<And>x. pfn x \<noteq> pfn (PTE2PA ?e) \<Longrightarrow> pmem s2 x = pmem s x"
          using ka.free_ok [OF ki ok(1,2)] by blast
        have "\<forall>q \<in> tabs (pmem s) root. 4096 dvd unat q" using pt_wf_aligned [OF wf] by blast
        then have "pfn (PTE2PA ?e) \<notin> pfn ` tabs (pmem s) root" using ok(3) by (intro pfn_notin) simp_all
        then have eq: "pmem s2 x = pmem s x" if "pfn x \<in> pfn ` tabs (pmem s) root" for x
          using s2(3) [of x] that by metis
        have inv2: "vm_inv kend root s2 (insert (PTE2PA ?e) F)"
          unfolding vm_inv_def using s2(2) by (auto intro!: pt_wf_cong [OF wf eq] simp: ok pt_wf_free [OF wf])
        have tabs2: "tabs (pmem s2) root = tabs (pmem s) root" by (rule tabs_cong [OF wf eq])
        have t2: "tab (pmem s2) root (leafpath a) = Some t"
          using tab_cong [OF wf eq, of "leafpath a"] some(4) by (simp del: tab.simps)
        have vm2: "vmap (pmem s2) root va = vmap (pmem s) root va" for va by (rule vmap_cong [OF wf eq])
        note sh = pt_shrink_leaf [OF inv2 t2 a]
        let ?s3 = "s2\<lparr>pmem := st64 (pmem s2) (t + 8 * of_nat (px 0 a)) 0\<rparr>"
        have "uvmunmap_page kend root a do_free s = Ok ?s3"
          using True \<open>valid ?e\<close> some s2(1) by (simp add: uvmunmap_page_def)
        moreover have "pt_shrink kend root s {PTE2PA ?e} ?s3 (insert (PTE2PA ?e) F)"
          using sh s2(3) tabs2 by (auto simp: pt_shrink_def)
        ultimately show ?thesis using sh e True vm2 by (simp add: Un_commute)
      qed
    qed
  qed
qed


lemma in_pages_step:
  assumes "unat a < 2 ^ 38" and "va < MAXVA"
  shows "in_pages (pfn a) (pfn a + Suc n) va \<longleftrightarrow> pfn va = pfn a \<or> in_pages (pfn (a + 4096)) (pfn (a + 4096) + n) va"
  using assms(2) by (auto simp: in_pages_def pfn_step [OF assms(1)])

lemma upages_step:
  assumes "unat a < 2 ^ 38" and "a < MAXVA"
    and "\<And>va. va < MAXVA \<Longrightarrow> g va = (if pfn va = pfn a then None else f va)"
    and "\<And>va. va < MAXVA \<Longrightarrow> pfn va = pfn a \<Longrightarrow> f va = f a"
  shows "upages f (pfn a) (pfn a + Suc n) =
    PTE2PA ` set_option (f a) \<union> upages g (pfn (a + 4096)) (pfn (a + 4096) + n)"
proof (rule set_eqI, rule iffI)
  fix x
  assume "x \<in> upages f (pfn a) (pfn a + Suc n)"
  then obtain va e where x: "in_pages (pfn a) (pfn a + Suc n) va" "f va = Some e" "x = PTE2PA e"
    by (auto simp: upages_def)
  then have va: "va < MAXVA" by (simp add: in_pages_def)
  show "x \<in> PTE2PA ` set_option (f a) \<union> upages g (pfn (a + 4096)) (pfn (a + 4096) + n)"
  proof (cases "pfn va = pfn a")
    case True
    then have "f a = Some e" using assms(4) [OF va] x(2) by simp
    then show ?thesis using x(3) by simp
  next
    case False
    then have "in_pages (pfn (a + 4096)) (pfn (a + 4096) + n) va" "g va = Some e"
      using x in_pages_step [OF assms(1) va] assms(3) [OF va] by simp_all
    then show ?thesis using x(3) unfolding upages_def by blast
  qed
next
  fix x
  assume "x \<in> PTE2PA ` set_option (f a) \<union> upages g (pfn (a + 4096)) (pfn (a + 4096) + n)"
  then consider e where "f a = Some e" "x = PTE2PA e"
    | va e where "in_pages (pfn (a + 4096)) (pfn (a + 4096) + n) va" "g va = Some e" "x = PTE2PA e"
    by (auto simp: upages_def)
  then show "x \<in> upages f (pfn a) (pfn a + Suc n)"
  proof cases
    case 1
    moreover have "in_pages (pfn a) (pfn a + Suc n) a" using assms(2) by (simp add: in_pages_def)
    ultimately show ?thesis unfolding upages_def by blast
  next
    case 2
    then have "va < MAXVA" "pfn va \<noteq> pfn a" by (simp_all add: in_pages_def pfn_step [OF assms(1)])
    then have "in_pages (pfn a) (pfn a + Suc n) va" "f va = Some e"
      using 2 in_pages_step [OF assms(1)] assms(3) by auto
    then show ?thesis using 2(3) unfolding upages_def by blast
  qed
qed

lemma upages_empty [simp]: "upages f lo lo = {}"
  by (simp add: upages_def in_pages_def)

lemma pt_shrink_trans:
  assumes "pt_shrink kend root s P1 s1 F1" and "pt_shrink kend root s1 P2 s2 F2"
  shows "pt_shrink kend root s (P1 \<union> P2) s2 F2"
  unfolding pt_shrink_def
proof (intro conjI allI impI)
  show "vm_inv kend root s2 F2" using assms(2) by (simp add: pt_shrink_def)
  have tabs1: "tabs (pmem s1) root = tabs (pmem s) root" using assms(1) by (simp add: pt_shrink_def)
  then show "tabs (pmem s2) root = tabs (pmem s) root" using assms(2) by (simp add: pt_shrink_def)
  fix x
  assume x: "pfn x \<notin> pfn ` (P1 \<union> P2 \<union> tabs (pmem s) root)"
  then have "pmem s1 x = pmem s x" using assms(1) by (simp add: pt_shrink_def image_Un)
  moreover have "pmem s2 x = pmem s1 x" using assms(2) x tabs1 by (simp add: pt_shrink_def image_Un)
  ultimately show "pmem s2 x = pmem s x" by simp
qed

lemma uownedD:
  assumes "uowned kend T f lo hi" and "in_pages lo hi va" and "f va = Some e"
  shows "page_ok kend (PTE2PA e)" and "PTE2PA e \<notin> T"
  using assms unfolding uowned_def by blast+

lemma uowned_inj:
  assumes "uowned kend T f lo hi" and "in_pages lo hi va" "f va = Some e" and "in_pages lo hi va'" "f va' = Some e'"
    and "PTE2PA e = PTE2PA e'"
  shows "pfn va = pfn va'"
  using assms unfolding uowned_def by blast

lemma uowned_step:
  assumes u: "uowned kend T f lo hi" and a: "in_pages lo hi a"
    and sub: "\<And>va. in_pages lo' hi' va \<Longrightarrow> in_pages lo hi va \<and> g va = f va \<and> pfn va \<noteq> pfn a"
  shows "uowned kend (T \<union> PTE2PA ` set_option (f a)) g lo' hi'"
  unfolding uowned_def
proof (intro conjI allI impI)
  fix va e
  assume "in_pages lo' hi' va" "g va = Some e"
  then have va: "in_pages lo hi va" "f va = Some e" "pfn va \<noteq> pfn a" using sub [of va] by simp_all
  show "page_ok kend (PTE2PA e)" using uownedD [OF u va(1,2)] by blast
  have "PTE2PA e \<noteq> PTE2PA e'" if "f a = Some e'" for e'
    using uowned_inj [OF u va(1,2) a that] va(3) by blast
  then show "PTE2PA e \<notin> T \<union> PTE2PA ` set_option (f a)" using uownedD [OF u va(1,2)] by auto
next
  fix va va' e e'
  assume "in_pages lo' hi' va" "in_pages lo' hi' va'" "g va = Some e" "g va' = Some e'" "PTE2PA e = PTE2PA e'"
  then show "pfn va = pfn va'" using uowned_inj [OF u, of va e va' e'] sub [of va] sub [of va'] by simp
qed

lemma uvmunmap_loop_spec:
  assumes "vm_inv kend root s F" and "unat a + 4096 * n \<le> 2 ^ 38" and "stop = a + of_nat n * 4096"
    and "do_free \<Longrightarrow> uowned kend (F \<union> tabs (pmem s) root) (vmap (pmem s) root) (pfn a) (pfn a + n)"
  shows "\<exists>s'. uvmunmap_loop kend root a stop do_free s = Ok s' \<and>
    (let P = (if do_free then upages (vmap (pmem s) root) (pfn a) (pfn a + n) else {}) in
      pt_shrink kend root s P s' (F \<union> P)) \<and>
    (\<forall>va < MAXVA. vmap (pmem s') root va = unmap_pages (vmap (pmem s) root) (pfn a) (pfn a + n) va)"
  using assms
proof (induction n arbitrary: s F a)
  case (0 s F a)
  then show ?case
    by (subst uvmunmap_loop.simps) (auto simp: pt_shrink_def unmap_pages_def)
next
  case (Suc n s F a)
  let ?f = "vmap (pmem s) root"
  have a: "a < MAXVA" and ua: "unat a < 2 ^ 38" using Suc.prems(2) by (simp_all add: word_less_nat_alt)
  have "unat stop = unat a + 4096 * Suc n"
    unfolding Suc.prems(3) by (rule unat_pages) (use Suc.prems(2) in simp)
  then have lt: "a < stop" by (simp add: word_less_nat_alt)
  have inr: "in_pages (pfn a) (pfn a + Suc n) a" using a by (simp add: in_pages_def)
  have own: "do_free \<Longrightarrow> vmap (pmem s) root a = Some e \<Longrightarrow>
      page_ok kend (PTE2PA e) \<and> PTE2PA e \<notin> F \<union> tabs (pmem s) root" for e
    using uownedD [OF Suc.prems(4) inr] by simp
  define P1 where "P1 = (if do_free then PTE2PA ` set_option (?f a) else {})"
  obtain s1 where s1: "uvmunmap_page kend root a do_free s = Ok s1" "pt_shrink kend root s P1 s1 (F \<union> P1)"
    and vm1: "\<And>va. va < MAXVA \<Longrightarrow> vmap (pmem s1) root va = (if pfn va = pfn a then None else ?f va)"
    using uvmunmap_page_spec [OF Suc.prems(1) a own] unfolding Let_def P1_def by blast
  have inv1: "vm_inv kend root s1 (F \<union> P1)" and tabs1: "tabs (pmem s1) root = tabs (pmem s) root"
    using s1(2) by (auto simp: pt_shrink_def)
  define P2 where "P2 = (if do_free then upages (vmap (pmem s1) root) (pfn (a + 4096)) (pfn (a + 4096) + n) else {})"
  have "\<exists>s'. uvmunmap_loop kend root (a + 4096) stop do_free s1 = Ok s' \<and>
    (let P = P2 in pt_shrink kend root s1 P s' (F \<union> P1 \<union> P)) \<and>
    (\<forall>va < MAXVA. vmap (pmem s') root va =
      unmap_pages (vmap (pmem s1) root) (pfn (a + 4096)) (pfn (a + 4096) + n) va)"
    unfolding P2_def
  proof (rule Suc.IH [OF inv1])
    show "unat (a + 4096) + 4096 * n \<le> 2 ^ 38" using Suc.prems(2) by (simp add: unat_step [OF ua])
    show "stop = a + 4096 + of_nat n * 4096" using Suc.prems(3) by (simp add: algebra_simps)
    show "uowned kend (F \<union> P1 \<union> tabs (pmem s1) root) (vmap (pmem s1) root) (pfn (a + 4096)) (pfn (a + 4096) + n)"
      if do_free
    proof -
      have "uowned kend (F \<union> tabs (pmem s) root \<union> PTE2PA ` set_option (?f a)) (vmap (pmem s1) root)
          (pfn (a + 4096)) (pfn (a + 4096) + n)"
      proof (rule uowned_step [OF Suc.prems(4) [OF that] inr])
        show "in_pages (pfn a) (pfn a + Suc n) va \<and> vmap (pmem s1) root va = ?f va \<and> pfn va \<noteq> pfn a"
          if "in_pages (pfn (a + 4096)) (pfn (a + 4096) + n) va" for va
          using that vm1 [of va] by (auto simp: in_pages_def pfn_step [OF ua])
      qed
      then show ?thesis using that by (simp add: P1_def tabs1 Un_ac)
    qed
  qed
  then obtain s' where s': "uvmunmap_loop kend root (a + 4096) stop do_free s1 = Ok s'"
    "pt_shrink kend root s1 P2 s' (F \<union> P1 \<union> P2)"
    "\<And>va. va < MAXVA \<Longrightarrow> vmap (pmem s') root va =
      unmap_pages (vmap (pmem s1) root) (pfn (a + 4096)) (pfn (a + 4096) + n) va"
    by (auto simp: Let_def)
  have "upages ?f (pfn a) (pfn a + Suc n) = PTE2PA ` set_option (?f a) \<union>
      upages (vmap (pmem s1) root) (pfn (a + 4096)) (pfn (a + 4096) + n)"
    by (rule upages_step [OF ua a]) (erule vm1, erule vmap_pfn [OF _ a])
  then have P: "(if do_free then upages ?f (pfn a) (pfn a + Suc n) else {}) = P1 \<union> P2"
    unfolding P1_def P2_def by (cases do_free) (simp_all only: if_True if_False Un_empty_left)
  have "pt_shrink kend root s (P1 \<union> P2) s' (F \<union> (P1 \<union> P2))"
    using pt_shrink_trans [OF s1(2) s'(2)] by (simp add: Un_assoc)
  moreover have "vmap (pmem s') root va = unmap_pages ?f (pfn a) (pfn a + Suc n) va" if "va < MAXVA" for va
    using s'(3) [OF that] vm1 [OF that] by (auto simp: unmap_pages_def pfn_step [OF ua])
  moreover have "uvmunmap_loop kend root a stop do_free s = Ok s'"
    using lt s1(1) s'(1) by (subst uvmunmap_loop.simps) simp
  ultimately show ?case unfolding P by (simp add: Let_def)
qed

end
