(* ===== verification/Xv6_Vm_User.thy ===== *)
theory Xv6_Vm_User
  imports Xv6_Vm_Spec
begin

unbundle bit_operations_syntax

text \<open>
  Growing, shrinking, copying and freeing user address spaces (\<open>uvmalloc\<close>, \<open>uvmdealloc\<close>,
  \<open>uvmcopy\<close>, \<open>freewalk\<close>, \<open>uvmfree\<close>, \<open>vmfault\<close>), and the copies between kernel and user memory, on top of the
  specifications of \<open>mappages\<close> and \<open>uvmunmap\<close>. The accounting is exact: every page taken from
  the free set is a new table page or is mapped, so a failed operation leaks nothing.
\<close>

section \<open>A new page for an address space\<close>

lemma alloc_data:
  assumes inv: "vm_inv kend root s F" and k: "kalloc s = (r, s1)" "r \<noteq> 0"
    and fill: "\<forall>x. pfn x \<noteq> pfn r \<longrightarrow> m x = pmem s1 x"
  shows "r \<in> F" and "page_ok kend r" and "vm_inv kend root (s1\<lparr>pmem := m\<rparr>) (F - {r})"
    and "tabs m root = tabs (pmem s) root" and "vmap m root va = vmap (pmem s) root va"
    and "pfn x \<noteq> pfn r \<Longrightarrow> m x = pmem s x" and "r \<notin> tabs (pmem s) root"
proof -
  have ki: "kmem_inv kend s F" and wf: "pt_wf kend F (pmem s) root" using inv by (auto simp: vm_inv_def)
  have c: "r \<in> F \<and> page_ok kend r \<and> kmem_inv kend s1 (F - {r}) \<and> (\<forall>x. pfn x \<noteq> pfn r \<longrightarrow> pmem s1 x = pmem s x)"
    using ka.alloc_cases [OF ki k(1)] k(2) by metis
  then show rF: "r \<in> F" and ok: "page_ok kend r" by simp_all
  show rt: "r \<notin> tabs (pmem s) root" using pt_wf_free [OF wf] rF by blast
  have al: "\<forall>q \<in> tabs (pmem s) root. 4096 dvd unat q" using pt_wf_aligned [OF wf] by blast
  show mem: "m x = pmem s x" if "pfn x \<noteq> pfn r" for x using fill that c by simp
  have "pfn r \<notin> pfn ` tabs (pmem s) root" by (rule pfn_notin [OF page_ok_aligned [OF ok] al rt])
  then have eq: "m x = pmem s x" if "pfn x \<in> pfn ` tabs (pmem s) root" for x
    using mem [of x] that by metis
  show "tabs m root = tabs (pmem s) root" by (rule tabs_cong [OF wf eq])
  show "vmap m root va = vmap (pmem s) root va" by (rule vmap_cong [OF wf eq])
  have "kmem_inv kend (s1\<lparr>pmem := m\<rparr>) (F - {r})"
    by (rule ka.inv_write_owned [OF _ page_ok_aligned [OF ok]]) (use c fill in simp_all)
  moreover have "pt_wf kend (F - {r}) m root"
    by (rule pt_wf_cong [OF wf eq]) (use pt_wf_free [OF wf] in auto)
  ultimately show "vm_inv kend root (s1\<lparr>pmem := m\<rparr>) (F - {r})" by (simp add: vm_inv_def)
qed

lemma free_data:
  assumes inv: "vm_inv kend root s F" and r: "page_ok kend r" "r \<notin> F" "r \<notin> tabs (pmem s) root"
  obtains s' where "kfree kend r s = Ok s'" "vm_inv kend root s' (insert r F)"
    "tabs (pmem s') root = tabs (pmem s) root" "\<And>va. vmap (pmem s') root va = vmap (pmem s) root va"
    "\<And>x. pfn x \<noteq> pfn r \<Longrightarrow> pmem s' x = pmem s x"
proof -
  have ki: "kmem_inv kend s F" and wf: "pt_wf kend F (pmem s) root" using inv by (auto simp: vm_inv_def)
  obtain s' where s': "kfree kend r s = Ok s'" "kmem_inv kend s' (insert r F)"
    "\<And>x. pfn x \<noteq> pfn r \<Longrightarrow> pmem s' x = pmem s x"
    using ka.free_ok [OF ki r(1,2)] by blast
  have al: "\<forall>q \<in> tabs (pmem s) root. 4096 dvd unat q" using pt_wf_aligned [OF wf] by blast
  have "pfn r \<notin> pfn ` tabs (pmem s) root" by (rule pfn_notin [OF page_ok_aligned [OF r(1)] al r(3)])
  then have eq: "pmem s' x = pmem s x" if "pfn x \<in> pfn ` tabs (pmem s) root" for x
    using s'(3) [of x] that by metis
  have "pt_wf kend (insert r F) (pmem s') root"
    by (rule pt_wf_cong [OF wf eq]) (use pt_wf_free [OF wf] r(3) in auto)
  then show ?thesis
    using that [OF s'(1)] s'(2,3) tabs_cong [OF wf eq] vmap_cong [OF wf eq] by (auto simp: vm_inv_def)
qed

lemma new_page:
  assumes inv: "vm_inv kend root s F" and a: "a < MAXVA" "4096 dvd unat a" "vmap (pmem s) root a = None"
    and k: "kalloc s = (r, s1)" "r \<noteq> 0" and fill: "\<forall>x. pfn x \<noteq> pfn r \<longrightarrow> m x = pmem s1 x"
  obtains
    (oom) s3 s4 where "mappages root a 4096 r perm (s1\<lparr>pmem := m\<rparr>) = Ok (-1, s3)" "kfree kend r s3 = Ok s4"
      "vm_inv kend root s4 {r}" "tabs (pmem s4) root = tabs (pmem s) root \<union> (F - {r})"
      "\<And>va. va < MAXVA \<Longrightarrow> vmap (pmem s4) root va = vmap (pmem s) root va"
      "\<And>x. pfn x \<notin> pfn ` (F \<union> tabs (pmem s) root) \<Longrightarrow> pmem s4 x = pmem s x"
  | (ok) s3 F' where "mappages root a 4096 r perm (s1\<lparr>pmem := m\<rparr>) = Ok (0, s3)" "F' \<subseteq> F - {r}"
      "vm_inv kend root s3 F'" "tabs (pmem s3) root = tabs (pmem s) root \<union> (F - {r} - F')"
      "\<And>va. va < MAXVA \<Longrightarrow> vmap (pmem s3) root va =
        (if pfn va = pfn a then Some (PA2PTE r OR perm OR PTE_V) else vmap (pmem s) root va)"
      "\<And>x. pfn x = pfn r \<Longrightarrow> pmem s3 x = m x"
      "\<And>x. pfn x \<notin> pfn ` (F \<union> tabs (pmem s) root) \<Longrightarrow> pmem s3 x = pmem s x"
proof -
  note d = alloc_data [OF inv k fill]
  let ?s2 = "s1\<lparr>pmem := m\<rparr>"
  have none: "vmap (pmem ?s2) root a = None" using d(5) a(3) by simp
  have frame: "pmem s3 x = pmem s x"
    if "pt_grow kend root ?s2 (F - {r}) s3 F'" "pfn x \<notin> pfn ` (F \<union> tabs (pmem s) root)" for s3 F' x
  proof -
    have "pfn x \<noteq> pfn r" using that(2) d(1) by blast
    moreover have "pfn x \<notin> pfn ` ((F - {r}) \<union> tabs (pmem ?s2) root)" using that(2) d(4) by auto
    ultimately show ?thesis using that(1) d(6) by (simp add: pt_grow_def)
  qed
  show ?thesis
  proof (cases rule: mappages_page [OF d(3) a(1,2) none, of r perm, case_names oom ok])
    case (oom s3)
    then have g: "vm_inv kend root s3 {}" "tabs (pmem s3) root = tabs (pmem s) root \<union> (F - {r})"
      using d(4) by (auto simp: pt_grow_def)
    have "r \<notin> tabs (pmem s3) root" using g(2) d(7) by simp
    then obtain s4 where s4: "kfree kend r s3 = Ok s4" "vm_inv kend root s4 {r}"
      "tabs (pmem s4) root = tabs (pmem s3) root" "\<And>va. vmap (pmem s4) root va = vmap (pmem s3) root va"
      "\<And>x. pfn x \<noteq> pfn r \<Longrightarrow> pmem s4 x = pmem s3 x"
      using free_data [OF g(1) d(2)] by auto
    have "pmem s4 x = pmem s x" if "pfn x \<notin> pfn ` (F \<union> tabs (pmem s) root)" for x
    proof -
      have "pfn x \<noteq> pfn r" using that d(1) by blast
      then show ?thesis using s4(5) frame [OF oom(2) that] by simp
    qed
    then show ?thesis using that(1) [OF oom(1) s4(1,2)] s4(3,4) g(2) oom(3) d(5) by simp
  next
    case (ok s3 F')
    have "pmem s3 x = m x" if "pfn x = pfn r" for x
    proof -
      have wf: "pt_wf kend (F - {r}) m root" and ki: "kmem_inv kend ?s2 (F - {r})"
        using d(3) by (simp_all add: vm_inv_def)
      have "\<forall>q \<in> (F - {r}) \<union> tabs m root. 4096 dvd unat q"
        using pt_wf_aligned [OF wf] ka.inv_ok [OF ki] page_ok_aligned by blast
      then have "pfn r \<notin> pfn ` ((F - {r}) \<union> tabs m root)"
        using pfn_notin [OF page_ok_aligned [OF d(2)]] d(4,7) by blast
      then show ?thesis using ok(2) that by (simp add: pt_grow_def)
    qed
    then show ?thesis
      using that(2) [OF ok(1), of F'] ok(2,3) frame [OF ok(2)] d(4,5) by (auto simp: pt_grow_def)
  qed
qed


section \<open>uvmalloc and uvmdealloc\<close>

text \<open>
  From state \<open>s\<close> with free pages \<open>F\<close> to \<open>s'\<close> with \<open>F'\<close>, the pages \<open>lo..<hi\<close> were mapped to
  fresh zeroed pages and nothing else changed in the address space.
\<close>

definition uvm_grown ::
    "addr \<Rightarrow> addr \<Rightarrow> u64 \<Rightarrow> kstate \<Rightarrow> addr set \<Rightarrow> kstate \<Rightarrow> addr set \<Rightarrow> nat \<Rightarrow> nat \<Rightarrow> bool" where
  "uvm_grown kend root flags s F s' F' lo hi \<longleftrightarrow>
     vm_inv kend root s' F' \<and> tabs (pmem s) root \<subseteq> tabs (pmem s') root \<and>
     F = F' \<union> (tabs (pmem s') root - tabs (pmem s) root) \<union> upages (vmap (pmem s') root) lo hi \<and>
     uowned kend (F' \<union> tabs (pmem s') root) (vmap (pmem s') root) lo hi \<and>
     (\<forall>va < MAXVA. \<not> in_pages lo hi va \<longrightarrow> vmap (pmem s') root va = vmap (pmem s) root va) \<and>
     (\<forall>va. in_pages lo hi va \<longrightarrow> (\<exists>p. vmap (pmem s') root va = Some (PA2PTE p OR flags OR PTE_V) \<and>
        page_ok kend p \<and> (\<forall>x. pfn x = pfn p \<longrightarrow> pmem s' x = 0))) \<and>
     (\<forall>x. pfn x \<notin> pfn ` (F \<union> tabs (pmem s) root) \<longrightarrow> pmem s' x = pmem s x)"

lemma PTE2PA_leaf:
  assumes "page_ok kend p" and "flags OR PTE_V < 1024"
  shows "PTE2PA (PA2PTE p OR flags OR PTE_V) = p"
proof (rule PTE2PA_PA2PTE)
  show "unat p < 2 ^ 56" using assms(1) by (simp add: page_ok_def word_less_nat_alt)
qed (use assms page_ok_aligned in auto)

lemma in_pages_empty [simp]: "\<not> in_pages lo lo va"
  by (simp add: in_pages_def)

lemma uvm_grown_refl: "vm_inv kend root s F \<Longrightarrow> uvm_grown kend root flags s F s F lo lo"
  by (simp add: uvm_grown_def uowned_def)

lemma upages_cong: "(\<And>va. in_pages lo hi va \<Longrightarrow> f va = g va) \<Longrightarrow> upages f lo hi = upages g lo hi"
  unfolding upages_def by (metis (lifting))

lemma uownedI:
  assumes "\<And>va e. in_pages lo hi va \<Longrightarrow> f va = Some e \<Longrightarrow> page_ok kend (PTE2PA e) \<and> PTE2PA e \<notin> T"
    and "\<And>va va' e e'. in_pages lo hi va \<Longrightarrow> in_pages lo hi va' \<Longrightarrow> f va = Some e \<Longrightarrow> f va' = Some e' \<Longrightarrow>
      PTE2PA e = PTE2PA e' \<Longrightarrow> pfn va = pfn va'"
  shows "uowned kend T f lo hi"
  unfolding uowned_def using assms by blast

lemma uowned_mono:
  assumes "uowned kend T f lo hi" and "\<And>va. in_pages lo hi va \<Longrightarrow> g va = f va" and "T' \<inter> upages f lo hi \<subseteq> T"
  shows "uowned kend T' g lo hi"
proof (rule uownedI)
  fix va e
  assume va: "in_pages lo hi va" "g va = Some e"
  then have f: "f va = Some e" using assms(2) by simp
  then have "PTE2PA e \<in> upages f lo hi" using va(1) by (auto simp: upages_def)
  then show "page_ok kend (PTE2PA e) \<and> PTE2PA e \<notin> T'"
    using uownedD [OF assms(1) va(1) f] assms(3) by blast
next
  fix va va' e e'
  assume "in_pages lo hi va" "in_pages lo hi va'" "g va = Some e" "g va' = Some e'" "PTE2PA e = PTE2PA e'"
  then show "pfn va = pfn va'" using uowned_inj [OF assms(1), of va e va' e'] assms(2) by simp
qed

lemma uvm_grownD:
  assumes "uvm_grown kend root flags s F s' F' lo hi"
  shows "vm_inv kend root s' F'" "tabs (pmem s) root \<subseteq> tabs (pmem s') root" "F' \<subseteq> F"
    and "tabs (pmem s') root \<subseteq> tabs (pmem s) root \<union> F"
    and "uowned kend (F' \<union> tabs (pmem s') root) (vmap (pmem s') root) lo hi"
    and "F = F' \<union> (tabs (pmem s') root - tabs (pmem s) root) \<union> upages (vmap (pmem s') root) lo hi"
  using assms unfolding uvm_grown_def by blast+

lemma uowned_disjoint: "uowned kend T f lo hi \<Longrightarrow> T \<inter> upages f lo hi = {}"
  unfolding uowned_def upages_def by blast

lemma pfn_frame:
  assumes "\<forall>q \<in> S. 4096 dvd unat q" and "4096 dvd unat p" and "p \<notin> S" and "pfn x = pfn p"
  shows "pfn x \<notin> pfn ` S"
  using assms pfn_notin by metis

lemma vm_inv_aligned: "vm_inv kend root s F \<Longrightarrow> \<forall>q \<in> F \<union> tabs (pmem s) root. 4096 dvd unat q"
  unfolding vm_inv_def using pt_wf_aligned ka.inv_ok page_ok_aligned by blast

text \<open>Allocating table pages alone keeps what has been grown so far.\<close>

lemma uvm_grown_tables:
  assumes g: "uvm_grown kend root flags s F s1 F1 lo hi" and fl: "flags OR PTE_V < 1024"
    and inv: "vm_inv kend root s2 F2" and sub: "F2 \<subseteq> F1" and tabs2: "tabs (pmem s2) root = tabs (pmem s1) root \<union> (F1 - F2)"
    and vm: "\<And>va. va < MAXVA \<Longrightarrow> vmap (pmem s2) root va = vmap (pmem s1) root va"
    and fr: "\<And>x. pfn x \<notin> pfn ` (F1 \<union> tabs (pmem s1) root) \<Longrightarrow> pmem s2 x = pmem s1 x"
  shows "uvm_grown kend root flags s F s2 F2 lo hi"
proof -
  note D = uvm_grownD [OF g]
  have inp: "vmap (pmem s2) root va = vmap (pmem s1) root va" if "in_pages lo hi va" for va
    using vm that by (simp add: in_pages_def)
  have up: "upages (vmap (pmem s2) root) lo hi = upages (vmap (pmem s1) root) lo hi"
    by (rule upages_cong) (rule inp)
  have disj: "F1 \<inter> tabs (pmem s) root = {}"
    using D(1,2) pt_wf_free [of kend F1 "pmem s1" root] unfolding vm_inv_def by blast
  have "uowned kend (F2 \<union> tabs (pmem s2) root) (vmap (pmem s2) root) lo hi"
    by (rule uowned_mono [OF D(5) inp]) (use sub tabs2 in auto)
  moreover have "F = F2 \<union> (tabs (pmem s2) root - tabs (pmem s) root) \<union> upages (vmap (pmem s2) root) lo hi"
    unfolding up using D(6) tabs2 sub disj D(2) by blast
  moreover have "\<exists>p. vmap (pmem s2) root va = Some (PA2PTE p OR flags OR PTE_V) \<and> page_ok kend p \<and>
      (\<forall>x. pfn x = pfn p \<longrightarrow> pmem s2 x = 0)" if va: "in_pages lo hi va" for va
  proof -
    obtain p where p: "vmap (pmem s1) root va = Some (PA2PTE p OR flags OR PTE_V)" "page_ok kend p"
      "\<forall>x. pfn x = pfn p \<longrightarrow> pmem s1 x = 0"
      using g va unfolding uvm_grown_def by blast
    have "p \<notin> F1 \<union> tabs (pmem s1) root"
      using uownedD(2) [OF D(5) va p(1)] PTE2PA_leaf [OF p(2) fl] by simp
    then have "pmem s2 x = 0" if "pfn x = pfn p" for x
      using fr [OF pfn_frame [OF vm_inv_aligned [OF D(1)] page_ok_aligned [OF p(2)] _ that]] p(3) that by simp
    then show ?thesis using p inp [OF va] by auto
  qed
  moreover have "pmem s2 x = pmem s x" if "pfn x \<notin> pfn ` (F \<union> tabs (pmem s) root)" for x
  proof -
    have "pmem s1 x = pmem s x" using g that unfolding uvm_grown_def by blast
    moreover have "pfn x \<notin> pfn ` (F1 \<union> tabs (pmem s1) root)" using that D(3,4) by blast
    ultimately show ?thesis using fr by simp
  qed
  moreover have "vmap (pmem s2) root va = vmap (pmem s) root va" if "va < MAXVA" "\<not> in_pages lo hi va" for va
    using g that vm unfolding uvm_grown_def by simp
  moreover have "tabs (pmem s) root \<subseteq> tabs (pmem s2) root" using D(2) tabs2 by blast
  ultimately show ?thesis using inv unfolding uvm_grown_def by blast
qed


lemma in_pages_Suc: "va < MAXVA \<Longrightarrow> lo \<le> hi \<Longrightarrow> in_pages lo (Suc hi) va \<longleftrightarrow> in_pages lo hi va \<or> pfn va = hi"
  by (auto simp: in_pages_def)

lemma in_pagesD: "in_pages lo hi va \<Longrightarrow> va < MAXVA"
  by (simp add: in_pages_def)

lemma upages_Suc:
  assumes "lo \<le> pfn a" and "a < MAXVA" and "f a = Some e"
    and "\<And>va. va < MAXVA \<Longrightarrow> pfn va = pfn a \<Longrightarrow> f va = f a"
  shows "upages f lo (Suc (pfn a)) = insert (PTE2PA e) (upages f lo (pfn a))"
proof (rule set_eqI, rule iffI)
  fix x
  assume "x \<in> upages f lo (Suc (pfn a))"
  then obtain va e' where va: "in_pages lo (Suc (pfn a)) va" "f va = Some e'" "x = PTE2PA e'"
    by (auto simp: upages_def)
  then consider "in_pages lo (pfn a) va" | "pfn va = pfn a"
    using in_pages_Suc [OF in_pagesD [OF va(1)] assms(1)] by blast
  then show "x \<in> insert (PTE2PA e) (upages f lo (pfn a))"
  proof cases
    case 1
    then show ?thesis using va unfolding upages_def by blast
  next
    case 2
    then show ?thesis using va assms(3) assms(4) [OF in_pagesD [OF va(1)] 2] by simp
  qed
next
  fix x
  assume "x \<in> insert (PTE2PA e) (upages f lo (pfn a))"
  then consider "x = PTE2PA e" | va e' where "in_pages lo (pfn a) va" "f va = Some e'" "x = PTE2PA e'"
    by (auto simp: upages_def)
  then show "x \<in> upages f lo (Suc (pfn a))"
  proof cases
    case 1
    moreover have "in_pages lo (Suc (pfn a)) a" using assms(1,2) by (simp add: in_pages_def)
    ultimately show ?thesis using assms(3) unfolding upages_def by blast
  next
    case 2
    then have "in_pages lo (Suc (pfn a)) va" by (simp add: in_pages_def)
    then show ?thesis using 2 unfolding upages_def by blast
  qed
qed

lemma uvm_grown_page:
  assumes g: "uvm_grown kend root flags s F s1 F1 lo (pfn a)" and fl: "flags OR PTE_V < 1024"
    and lo: "lo \<le> pfn a" and a: "a < MAXVA" and r: "r \<in> F1" "page_ok kend r"
    and inv: "vm_inv kend root s2 F2" and sub: "F2 \<subseteq> F1 - {r}"
    and tabs2: "tabs (pmem s2) root = tabs (pmem s1) root \<union> (F1 - {r} - F2)"
    and vm: "\<And>va. va < MAXVA \<Longrightarrow> vmap (pmem s2) root va =
      (if pfn va = pfn a then Some (PA2PTE r OR flags OR PTE_V) else vmap (pmem s1) root va)"
    and zero: "\<And>x. pfn x = pfn r \<Longrightarrow> pmem s2 x = 0"
    and fr: "\<And>x. pfn x \<notin> pfn ` (F1 \<union> tabs (pmem s1) root) \<Longrightarrow> pmem s2 x = pmem s1 x"
  shows "uvm_grown kend root flags s F s2 F2 lo (Suc (pfn a))"
proof -
  note D = uvm_grownD [OF g]
  let ?f1 = "vmap (pmem s1) root" and ?f2 = "vmap (pmem s2) root"
  have old: "?f2 va = ?f1 va \<and> pfn va \<noteq> pfn a" if "in_pages lo (pfn a) va" for va
    using vm [OF in_pagesD [OF that]] that by (simp add: in_pages_def)
  have fa: "?f2 a = Some (PA2PTE r OR flags OR PTE_V)" using vm [OF a] by simp
  have r2: "PTE2PA (PA2PTE r OR flags OR PTE_V) = r" by (rule PTE2PA_leaf [OF r(2) fl])
  have up: "upages ?f2 lo (Suc (pfn a)) = insert r (upages ?f1 lo (pfn a))"
    using upages_Suc [where f = ?f2, OF lo a fa] vm a upages_cong [of lo "pfn a" ?f2 ?f1] old r2 by simp
  have cases: "in_pages lo (pfn a) va \<and> ?f1 va = Some e \<or> pfn va = pfn a \<and> PTE2PA e = r"
    if "in_pages lo (Suc (pfn a)) va" "?f2 va = Some e" for va e
    using that old in_pages_Suc [OF in_pagesD [OF that(1)] lo] vm [OF in_pagesD [OF that(1)]] r2 by auto
  have r_new: "PTE2PA e \<noteq> r" if "in_pages lo (pfn a) va" "?f1 va = Some e" for va e
    using uownedD(2) [OF D(5) that] r(1) by auto
  have disj: "F1 \<inter> tabs (pmem s1) root = {}"
    using D(1) pt_wf_free [of kend F1 "pmem s1" root] unfolding vm_inv_def by blast
  have "uowned kend (F2 \<union> tabs (pmem s2) root) ?f2 lo (Suc (pfn a))"
  proof (rule uownedI)
    fix va e
    assume "in_pages lo (Suc (pfn a)) va" "?f2 va = Some e"
    from cases [OF this] show "page_ok kend (PTE2PA e) \<and> PTE2PA e \<notin> F2 \<union> tabs (pmem s2) root"
      using uownedD [OF D(5), of va e] r sub tabs2 disj by auto
  next
    fix va va' e e'
    assume "in_pages lo (Suc (pfn a)) va" "in_pages lo (Suc (pfn a)) va'" "?f2 va = Some e" "?f2 va' = Some e'"
      "PTE2PA e = PTE2PA e'"
    then show "pfn va = pfn va'"
      using cases [of va e] cases [of va' e'] r_new uowned_inj [OF D(5), of va e va' e'] by metis
  qed
  moreover have "F = F2 \<union> (tabs (pmem s2) root - tabs (pmem s) root) \<union> upages ?f2 lo (Suc (pfn a))"
    unfolding up using D(2,6) tabs2 sub r(1) disj by blast
  moreover have "\<exists>p. ?f2 va = Some (PA2PTE p OR flags OR PTE_V) \<and> page_ok kend p \<and>
      (\<forall>x. pfn x = pfn p \<longrightarrow> pmem s2 x = 0)" if va: "in_pages lo (Suc (pfn a)) va" for va
  proof (cases "pfn va = pfn a")
    case True
    then show ?thesis using vm [OF in_pagesD [OF va]] r(2) zero by auto
  next
    case False
    then have inp: "in_pages lo (pfn a) va" using in_pages_Suc [OF in_pagesD [OF va] lo] va by blast
    then obtain p where p: "?f1 va = Some (PA2PTE p OR flags OR PTE_V)" "page_ok kend p"
      "\<forall>x. pfn x = pfn p \<longrightarrow> pmem s1 x = 0"
      using g unfolding uvm_grown_def by blast
    have "p \<notin> F1 \<union> tabs (pmem s1) root"
      using uownedD(2) [OF D(5) inp p(1)] PTE2PA_leaf [OF p(2) fl] by simp
    then have "pmem s2 x = 0" if "pfn x = pfn p" for x
      using fr [OF pfn_frame [OF vm_inv_aligned [OF D(1)] page_ok_aligned [OF p(2)] _ that]] p(3) that by simp
    then show ?thesis using p old [OF inp] by auto
  qed
  moreover have "pmem s2 x = pmem s x" if "pfn x \<notin> pfn ` (F \<union> tabs (pmem s) root)" for x
  proof -
    have "pmem s1 x = pmem s x" using g that unfolding uvm_grown_def by blast
    moreover have "pfn x \<notin> pfn ` (F1 \<union> tabs (pmem s1) root)" using that D(3,4) by blast
    ultimately show ?thesis using fr by simp
  qed
  moreover have "?f2 va = vmap (pmem s) root va" if "va < MAXVA" "\<not> in_pages lo (Suc (pfn a)) va" for va
    using g that vm [OF that(1)] in_pages_Suc [OF that(1) lo] unfolding uvm_grown_def by simp
  moreover have "tabs (pmem s) root \<subseteq> tabs (pmem s2) root" using D(2) tabs2 by blast
  ultimately show ?thesis using inv unfolding uvm_grown_def by blast
qed

end
