(* ===== verification/Xv6_Vm_Grow.thy ===== *)
theory Xv6_Vm_Grow
  imports Xv6_Vm_User
begin

unbundle bit_operations_syntax

text \<open>
  \<open>uvmdealloc\<close> and \<open>uvmalloc\<close> of \<open>kernel/vm.c\<close>: the roll-back after a failed allocation, the
  loop, fresh page tables, and the properties of mapping, unmapping and growing.
\<close>

section \<open>uvmdealloc\<close>

lemma scast_ucast_small:
  assumes "unat (x :: u64) < 2 ^ 31"
  shows "scast (ucast x :: u32) = x"
proof (rule bit_word_eqI)
  fix n :: nat
  assume "n < LENGTH(64)"
  have x: "take_bit 31 x = x"
    using assms by (simp add: word_unat_eq_iff unsigned_take_bit_eq take_bit_nat_eq_self)
  have high: "\<not> bit x k" if "31 \<le> k" for k
    using that x by (metis bit_take_bit_iff leD)
  have "bit (scast (ucast x :: u32) :: u64) n \<longleftrightarrow> n < 64 \<and> bit x (min n 31)"
    by (auto simp: bit_simps min_def)
  then show "bit (scast (ucast x :: u32) :: u64) n = bit x n"
    using high [of n] high [of 31] \<open>n < LENGTH(64)\<close> by (auto simp: min_def)
qed

lemma PGROUNDUP_small:
  assumes "unat sz \<le> 2 ^ 38"
  shows "unat (PGROUNDUP sz) = (unat sz + 4095) div 4096 * 4096" and "unat (PGROUNDUP sz) \<le> 2 ^ 38"
    and "pfn (PGROUNDUP sz) = (unat sz + 4095) div 4096" and "sz \<le> PGROUNDUP sz"
proof -
  show u: "unat (PGROUNDUP sz) = (unat sz + 4095) div 4096 * 4096"
    by (rule unat_PGROUNDUP) (use assms in simp)
  show "unat (PGROUNDUP sz) \<le> 2 ^ 38" using assms unfolding u by simp
  show "pfn (PGROUNDUP sz) = (unat sz + 4095) div 4096" by (simp add: pfn_def u)
  show "sz \<le> PGROUNDUP sz" by (simp add: word_le_nat_alt u)
qed

lemma PGROUNDUP_of_aligned: "4096 dvd unat sz \<Longrightarrow> unat sz \<le> 2 ^ 38 \<Longrightarrow> PGROUNDUP sz = sz"
  by (auto simp: word_unat_eq_iff PGROUNDUP_small(1) elim!: dvdE)

lemma uvmdealloc_spec:
  assumes inv: "vm_inv kend root s F" and sz: "newsz \<le> oldsz" "unat oldsz \<le> 2 ^ 38"
    and own: "uowned kend (F \<union> tabs (pmem s) root) (vmap (pmem s) root) (pfn (PGROUNDUP newsz)) (pfn (PGROUNDUP oldsz))"
  shows "\<exists>s'. uvmdealloc kend root oldsz newsz s = Ok (newsz, s') \<and>
    (let U = upages (vmap (pmem s) root) (pfn (PGROUNDUP newsz)) (pfn (PGROUNDUP oldsz)) in
      pt_shrink kend root s U s' (F \<union> U)) \<and>
    (\<forall>va < MAXVA. vmap (pmem s') root va =
      unmap_pages (vmap (pmem s) root) (pfn (PGROUNDUP newsz)) (pfn (PGROUNDUP oldsz)) va)"
proof -
  let ?o = "PGROUNDUP oldsz" and ?n = "PGROUNDUP newsz"
  have szn: "unat newsz \<le> 2 ^ 38" "unat newsz \<le> unat oldsz" using sz by (simp_all add: word_le_nat_alt)
  note o = PGROUNDUP_small [OF sz(2)] and n = PGROUNDUP_small [OF szn(1)]
  have le: "unat ?n \<le> unat ?o" unfolding o(1) n(1) using szn(2) by (simp add: div_le_mono)
  show ?thesis
  proof (cases "?n < ?o")
    case False
    then have eq: "?n = ?o" using le by (simp add: word_less_nat_alt word_unat_eq_iff)
    then have "uvmdealloc kend root oldsz newsz s = Ok (newsz, s)"
      using sz(1) by (simp add: uvmdealloc_def)
    then show ?thesis using inv unfolding eq by (auto simp: pt_shrink_def unmap_pages_def)
  next
    case True
    define k where "k = pfn ?o - pfn ?n"
    have uk: "unat ?o = unat ?n + 4096 * k" "pfn ?o = pfn ?n + k"
      using le by (simp_all add: k_def pfn_def o(1) n(1) algebra_simps div_le_mono)
    have kk: "k < 2 ^ 31" using uk(1) o(2) by simp
    have "unat (?o - ?n) = 4096 * k" using True uk(1) by (simp add: unat_sub)
    then have "unat ((?o - ?n) div 4096) = k" by (simp add: unat_div)
    moreover have "unat (of_nat k :: u64) = k" by (rule unat_of_nat_small) (use kk in simp)
    ultimately have np: "(?o - ?n) div 4096 = of_nat k" by (simp only: word_unat_eq_iff)
    have "scast (ucast ((?o - ?n) div 4096) :: u32) = (of_nat k :: u64)"
      unfolding np by (rule scast_ucast_small) (use kk in \<open>simp add: unat_of_nat_small\<close>)
    then have "uvmdealloc kend root oldsz newsz s =
        obind (uvmunmap_loop kend root ?n (?n + of_nat k * 4096) True s) (\<lambda>s1. Ok (newsz, s1))"
      using True sz(1) by (auto simp: uvmdealloc_def uvmunmap_def mod_4096_iff not_le le_less)
    moreover have "unat ?n + 4096 * k \<le> 2 ^ 38" using uk(1) o(2) by simp
    ultimately show ?thesis
      using uvmunmap_loop_spec [OF inv, of ?n k "?n + of_nat k * 4096" True] own uk(2) by auto
  qed
qed


text \<open>What a failed operation leaves: the address space as it was, and the free pages but for those
  that became table pages of it.\<close>

definition uvm_rolled :: "addr \<Rightarrow> addr \<Rightarrow> kstate \<Rightarrow> addr set \<Rightarrow> kstate \<Rightarrow> bool" where
  "uvm_rolled kend root s F s' \<longleftrightarrow>
     vm_inv kend root s' (F - tabs (pmem s') root) \<and>
     tabs (pmem s) root \<subseteq> tabs (pmem s') root \<and> tabs (pmem s') root \<subseteq> tabs (pmem s) root \<union> F \<and>
     (\<forall>va < MAXVA. vmap (pmem s') root va = vmap (pmem s) root va) \<and>
     (\<forall>x. pfn x \<notin> pfn ` (F \<union> tabs (pmem s) root) \<longrightarrow> pmem s' x = pmem s x)"

lemma uvm_grown_rollback:
  assumes g: "uvm_grown kend root flags s F s1 F1 (pfn oldsz) (pfn a)"
    and al: "4096 dvd unat oldsz" "4096 dvd unat a" and sz: "oldsz \<le> a" "unat a \<le> 2 ^ 38"
    and none: "\<And>va. in_pages (pfn oldsz) (pfn a) va \<Longrightarrow> vmap (pmem s) root va = None"
  shows "\<exists>s2. uvmdealloc kend root a oldsz s1 = Ok (oldsz, s2) \<and> uvm_rolled kend root s F s2"
proof -
  note D = uvm_grownD [OF g]
  have up: "PGROUNDUP a = a" "PGROUNDUP oldsz = oldsz"
    using al sz by (auto intro!: PGROUNDUP_of_aligned simp: word_le_nat_alt)
  let ?U = "upages (vmap (pmem s1) root) (pfn oldsz) (pfn a)"
  obtain s2 where s2: "uvmdealloc kend root a oldsz s1 = Ok (oldsz, s2)" "pt_shrink kend root s1 ?U s2 (F1 \<union> ?U)"
    "\<forall>va < MAXVA. vmap (pmem s2) root va = unmap_pages (vmap (pmem s1) root) (pfn oldsz) (pfn a) va"
    using uvmdealloc_spec [OF D(1) sz] D(5) unfolding up Let_def by blast
  have tabs2: "tabs (pmem s2) root = tabs (pmem s1) root" and inv2: "vm_inv kend root s2 (F1 \<union> ?U)"
    using s2(2) by (simp_all add: pt_shrink_def)
  have "F1 \<union> ?U = F - tabs (pmem s2) root"
  proof -
    have "(F1 \<union> ?U) \<inter> tabs (pmem s2) root = {}"
      using inv2 pt_wf_free [of kend "F1 \<union> ?U" "pmem s2" root] unfolding vm_inv_def by blast
    then show ?thesis using D(2,6) tabs2 by blast
  qed
  moreover have "vmap (pmem s2) root va = vmap (pmem s) root va" if "va < MAXVA" for va
  proof (cases "in_pages (pfn oldsz) (pfn a) va")
    case True
    then show ?thesis using s2(3) none that by (simp add: unmap_pages_def in_pages_def)
  next
    case False
    then have "vmap (pmem s1) root va = vmap (pmem s) root va" using g that unfolding uvm_grown_def by blast
    then show ?thesis using s2(3) False that by (auto simp: unmap_pages_def in_pages_def)
  qed
  moreover have "pmem s2 x = pmem s x" if "pfn x \<notin> pfn ` (F \<union> tabs (pmem s) root)" for x
  proof -
    have "pmem s1 x = pmem s x" using g that unfolding uvm_grown_def by blast
    moreover have "pfn x \<notin> pfn ` (?U \<union> tabs (pmem s1) root)" using that D(4,6) by blast
    ultimately show ?thesis using s2(2) by (simp add: pt_shrink_def)
  qed
  ultimately show ?thesis
    using s2(1) inv2 tabs2 D(2,4) unfolding uvm_rolled_def by metis
qed

lemma pfn_aligned_step: "4096 dvd unat a \<Longrightarrow> pfn a < pfn b \<Longrightarrow> unat (a :: u64) < unat (b :: u64)"
  by (auto simp: pfn_def div_less_iff_less_mult elim!: dvdE)

text \<open>One iteration either extends what has grown or rolls everything back.\<close>

lemma uvmalloc_page_spec:
  assumes g: "uvm_grown kend root (PTE_R OR PTE_U OR xperm) s F s1 F1 (pfn oldsz) (pfn a)"
    and fl: "(PTE_R OR PTE_U OR xperm) OR PTE_V < 1024"
    and al: "4096 dvd unat oldsz" "4096 dvd unat a" and sz: "oldsz \<le> a" "a < MAXVA"
    and none: "\<And>va. in_pages (pfn oldsz) (Suc (pfn a)) va \<Longrightarrow> vmap (pmem s) root va = None"
  shows "(\<exists>s2 F2. uvmalloc_page kend root oldsz a xperm s1 = Ok (None, s2) \<and>
      uvm_grown kend root (PTE_R OR PTE_U OR xperm) s F s2 F2 (pfn oldsz) (Suc (pfn a))) \<or>
    (\<exists>s2. uvmalloc_page kend root oldsz a xperm s1 = Ok (Some 0, s2) \<and> uvm_rolled kend root s F s2)"
proof -
  let ?fl = "PTE_R OR PTE_U OR xperm"
  note D = uvm_grownD [OF g]
  have lo: "pfn oldsz \<le> pfn a" using sz(1) by (simp add: pfn_def word_le_nat_alt div_le_mono)
  have a38: "unat a \<le> 2 ^ 38" using sz(2) by (simp add: word_less_nat_alt)
  have none': "vmap (pmem s) root va = None" if "in_pages (pfn oldsz) (pfn a) va" for va
    by (rule none) (use that in \<open>simp add: in_pages_def\<close>)
  note rb = uvm_grown_rollback [OF _ al sz(1) a38 none']
  have a_none: "vmap (pmem s1) root a = None"
  proof -
    have "vmap (pmem s1) root a = vmap (pmem s) root a"
      using g sz(2) unfolding uvm_grown_def by (simp add: in_pages_def)
    moreover have "vmap (pmem s) root a = None" by (rule none) (use lo sz(2) in \<open>simp add: in_pages_def\<close>)
    ultimately show ?thesis by simp
  qed
  obtain r t1 where k: "kalloc s1 = (r, t1)" by (cases "kalloc s1")
  have ki: "kmem_inv kend s1 F1" using D(1) by (simp add: vm_inv_def)
  show ?thesis
  proof (cases "r = 0")
    case True
    then have "t1 = s1" using ka.alloc_cases [OF ki k] by metis
    then show ?thesis using rb [OF g] True k by (auto simp: uvmalloc_page_def)
  next
    case False
    let ?m = "memset (pmem t1) r 0 4096"
    have ok_r: "page_ok kend r" "r \<in> F1" using ka.alloc_cases [OF ki k] False by metis+
    have m: "?m x = (if pfn x = pfn r then 0 else pmem t1 x)" for x
      using memset_page [OF page_ok_aligned [OF ok_r(1)], of "pmem t1" 0] by simp
    have fill: "\<forall>x. pfn x \<noteq> pfn r \<longrightarrow> ?m x = pmem t1 x" by (simp add: m)
    show ?thesis
    proof (cases rule: new_page [OF D(1) sz(2) al(2) a_none k False fill, of ?fl, case_names oom ok])
      case (oom s3 s4)
      have "tabs (pmem s4) root = tabs (pmem s1) root \<union> (F1 - {r})" using oom(4) .
      then have "uvm_grown kend root ?fl s F s4 {r} (pfn oldsz) (pfn a)"
        by (intro uvm_grown_tables [OF g fl oom(3)]) (use oom ok_r in auto)
      then show ?thesis using rb oom(1,2) k False by (fastforce simp: uvmalloc_page_def Let_def)
    next
      case (ok s3 F')
      have "uvm_grown kend root ?fl s F s3 F' (pfn oldsz) (Suc (pfn a))"
        by (rule uvm_grown_page [OF g fl lo sz(2) ok_r(2,1) ok(3,2,4)]) (use ok m in auto)
      then show ?thesis using ok(1) k False by (auto simp: uvmalloc_page_def Let_def)
    qed
  qed
qed


lemma uvmalloc_loop_spec:
  assumes "uvm_grown kend root (PTE_R OR PTE_U OR xperm) s F s1 F1 (pfn oldsz) (pfn a)"
    and "(PTE_R OR PTE_U OR xperm) OR PTE_V < 1024"
    and "4096 dvd unat oldsz" "4096 dvd unat a" and "oldsz \<le> a" "a \<le> PGROUNDUP newsz" "unat newsz \<le> 2 ^ 38"
    and "\<And>va. in_pages (pfn oldsz) (pfn (PGROUNDUP newsz)) va \<Longrightarrow> vmap (pmem s) root va = None"
  shows "(\<exists>s' F'. uvmalloc_loop kend root oldsz a newsz xperm s1 = Ok (newsz, s') \<and>
      uvm_grown kend root (PTE_R OR PTE_U OR xperm) s F s' F' (pfn oldsz) (pfn (PGROUNDUP newsz))) \<or>
    (\<exists>s'. uvmalloc_loop kend root oldsz a newsz xperm s1 = Ok (0, s') \<and> uvm_rolled kend root s F s')"
  using assms
proof (induction "unat (PGROUNDUP newsz) - unat a" arbitrary: a s1 F1 rule: less_induct)
  case (less a s1 F1)
  note up = PGROUNDUP_small [OF less.prems(7)]
  show ?case
  proof (cases "a < newsz")
    case False
    then have "unat newsz \<le> unat a" by (simp add: word_less_nat_alt)
    then have "unat (PGROUNDUP newsz) \<le> unat a" unfolding up(1) using less.prems(4) by (auto elim!: dvdE)
    then have "a = PGROUNDUP newsz" using less.prems(6) by (simp add: word_le_nat_alt word_unat_eq_iff)
    moreover have "uvmalloc_loop kend root oldsz a newsz xperm s1 = Ok (newsz, s1)"
      using False by (subst uvmalloc_loop.simps) simp
    ultimately show ?thesis using less.prems(1) by blast
  next
    case True
    then have lt: "unat a < unat newsz" by (simp add: word_less_nat_alt)
    have a: "a < MAXVA" and a38: "unat a < 2 ^ 38"
      using lt less.prems(7) by (simp_all add: word_less_nat_alt)
    have un: "unat (a + 4096) = unat a + 4096" and pf: "pfn (a + 4096) = Suc (pfn a)"
      using unat_step [OF a38] pfn_step [OF a38] by simp_all
    obtain k where k: "unat a = 4096 * k" using less.prems(4) by (elim dvdE)
    have "Suc k \<le> (unat newsz + 4095) div 4096"
      using lt k by (subst less_eq_div_iff_mult_less_eq) auto
    then have "Suc k * 4096 \<le> (unat newsz + 4095) div 4096 * 4096" by (rule mult_le_mono1)
    then have le: "unat (a + 4096) \<le> unat (PGROUNDUP newsz)" unfolding un up(1) k by simp
    have nonea: "vmap (pmem s) root va = None" if "in_pages (pfn oldsz) (Suc (pfn a)) va" for va
    proof (rule less.prems(8))
      have "pfn (a + 4096) \<le> pfn (PGROUNDUP newsz)" using le unfolding pfn_def by (rule div_le_mono)
      then have "Suc (pfn a) \<le> pfn (PGROUNDUP newsz)" unfolding pf .
      then show "in_pages (pfn oldsz) (pfn (PGROUNDUP newsz)) va" using that by (simp add: in_pages_def)
    qed
    from uvmalloc_page_spec [OF less.prems(1-5) a nonea]
    consider (ok) s2 F2 where "uvmalloc_page kend root oldsz a xperm s1 = Ok (None, s2)"
        "uvm_grown kend root (PTE_R OR PTE_U OR xperm) s F s2 F2 (pfn oldsz) (Suc (pfn a))"
      | (fail) s2 where "uvmalloc_page kend root oldsz a xperm s1 = Ok (Some 0, s2)" "uvm_rolled kend root s F s2"
      by blast
    then show ?thesis
    proof cases
      case ok
      have "uvmalloc_loop kend root oldsz a newsz xperm s1 = uvmalloc_loop kend root oldsz (a + 4096) newsz xperm s2"
        using True ok(1) by (subst uvmalloc_loop.simps) simp
      moreover have "oldsz \<le> a + 4096" "a + 4096 \<le> PGROUNDUP newsz" "4096 dvd unat (a + 4096)"
        using less.prems(4,5) le un by (simp_all add: word_le_nat_alt)
      moreover have "unat (PGROUNDUP newsz) - unat (a + 4096) < unat (PGROUNDUP newsz) - unat a"
        using le un by simp
      ultimately show ?thesis
        using less.hyps [of "a + 4096" s2 F2] ok(2) less.prems(2,3,7,8) unfolding pf by simp
    next
      case fail
      then have "uvmalloc_loop kend root oldsz a newsz xperm s1 = Ok (0, s2)"
        using True by (subst uvmalloc_loop.simps) simp
      then show ?thesis using fail(2) by blast
    qed
  qed
qed

text \<open>
  C2: growing a process is all or nothing. On a well-formed page table whose pages above
  \<open>oldsz\<close> are unmapped, \<open>uvmalloc\<close> never panics; either it returns \<open>newsz\<close> and exactly the pages
  between the two sizes are newly mapped, each to its own zeroed page with the requested permissions,
  every page taken from the free list being one of them or a new table page; or it returns 0, the
  address space is what it was, and all data pages are back on the free list.
\<close>

theorem uvmalloc_all_or_nothing:
  assumes "vm_inv kend root s F" and "(PTE_R OR PTE_U OR xperm) OR PTE_V < 1024"
    and "oldsz \<le> newsz" and "unat newsz \<le> 2 ^ 38"
    and "\<And>va. in_pages (pfn (PGROUNDUP oldsz)) (pfn (PGROUNDUP newsz)) va \<Longrightarrow> vmap (pmem s) root va = None"
  shows "(\<exists>s' F'. uvmalloc kend root oldsz newsz xperm s = Ok (newsz, s') \<and>
      uvm_grown kend root (PTE_R OR PTE_U OR xperm) s F s' F'
        (pfn (PGROUNDUP oldsz)) (pfn (PGROUNDUP newsz))) \<or>
    (\<exists>s'. uvmalloc kend root oldsz newsz xperm s = Ok (0, s') \<and> uvm_rolled kend root s F s')"
proof -
  have o: "unat oldsz \<le> unat newsz" "unat oldsz \<le> 2 ^ 38"
    using assms(3,4) by (simp_all add: word_le_nat_alt)
  have "PGROUNDUP oldsz \<le> PGROUNDUP newsz"
    unfolding word_le_nat_alt PGROUNDUP_small(1) [OF assms(4)] PGROUNDUP_small(1) [OF o(2)]
    using o(1) by (simp add: div_le_mono)
  moreover have "uvm_grown kend root (PTE_R OR PTE_U OR xperm) s F s F
      (pfn (PGROUNDUP oldsz)) (pfn (PGROUNDUP oldsz))"
    by (rule uvm_grown_refl [OF assms(1)])
  moreover have "uvmalloc kend root oldsz newsz xperm s =
      uvmalloc_loop kend root (PGROUNDUP oldsz) (PGROUNDUP oldsz) newsz xperm s"
    using assms(3) by (auto simp: uvmalloc_def)
  ultimately show ?thesis
    using uvmalloc_loop_spec [OF _ assms(2) PGROUNDUP_aligned PGROUNDUP_aligned order_refl _ assms(4,5)]
    by simp
qed


section \<open>New page tables\<close>

lemma pt_wf_zero:
  assumes ok: "page_ok kend root" and F: "root \<notin> F" and z: "\<And>x. pfn x = pfn root \<Longrightarrow> m x = 0"
  shows "pt_wf kend F m root" and "tabs m root = {root}" and "vmap m root va = None"
proof -
  have e0: "entry m root i = 0" if "i < 512" for i
    by (rule entry_zeroed [OF page_ok_aligned [OF ok] that]) (rule z)
  have none: "tab m root p = None" if "vpath p" "p \<noteq> []" for p
    using that
  proof (induction p)
    case (Cons i p)
    then show ?case using e0 [of i] by (cases p) auto
  qed simp
  then have one: "p = []" if "vpath p" "tab m root p = Some t" for p t using that by fastforce
  show tabs: "tabs m root = {root}"
  proof
    show "tabs m root \<subseteq> {root}"
    proof
      fix t
      assume "t \<in> tabs m root"
      then obtain p where p: "vpath p" "tab m root p = Some t" unfolding tabs_def by blast
      then show "t \<in> {root}" using one [OF p] by simp
    qed
  qed simp
  show "vmap m root va = None" using none [of "leafpath va"] by (simp add: vmap_def del: tab.simps)
  have "tabs_inj m root" unfolding tabs_inj_def using one by blast
  moreover have "inner_ok m root"
    unfolding inner_ok_def
  proof (intro allI impI)
    fix p t i
    assume *: "vpath (i # p)" "tab m root p = Some t" "valid (entry m t i)"
    then have "p = []" "i < 512" using one [of p t] by simp_all
    then show "entry m t i AND (PTE_R OR PTE_W OR PTE_X) = 0"
      using * e0 by simp
  qed
  ultimately show "pt_wf kend F m root" using ok F tabs by (simp add: pt_wf_def)
qed

text \<open>An instance: an empty page table and three free pages.\<close>

lemma vm_instance:
  "\<exists>s. vm_inv 0x40021000 0x50000000 s {0x50001000, 0x50002000, 0x50003000} \<and>
     (\<forall>va. vmap (pmem s) 0x50000000 va = None)"
proof -
  let ?e = "0x40021000 :: addr" and ?z = "(\<lambda>_. 0) :: mem"
  define s0 where "s0 = \<lparr>pmem = ?z, freelist = 0\<rparr>"
  have ok: "page_ok ?e 0x50000000" "page_ok ?e 0x50001000" "page_ok ?e 0x50002000" "page_ok ?e 0x50003000"
    by (simp_all add: page_ok_def)
  have wf: "pt_wf ?e {} (pmem s0) 0x50000000" "tabs (pmem s0) 0x50000000 = {0x50000000}"
    "\<And>va. vmap (pmem s0) 0x50000000 va = None"
    using pt_wf_zero [OF ok(1), of "{}" "pmem s0"] by (simp_all add: s0_def)
  have "kmem_inv ?e s0 {}" by (simp add: kmem_inv_def kmem_list_def s0_def)
  then have i0: "vm_inv ?e 0x50000000 s0 {}" using wf(1) by (simp add: vm_inv_def)
  obtain s1 where s1: "vm_inv ?e 0x50000000 s1 {0x50003000}" "tabs (pmem s1) 0x50000000 = {0x50000000}"
    "\<And>va. vmap (pmem s1) 0x50000000 va = None"
    by (rule free_data [OF i0 ok(4)]) (use wf(2,3) in auto)
  obtain s2 where s2: "vm_inv ?e 0x50000000 s2 {0x50002000, 0x50003000}" "tabs (pmem s2) 0x50000000 = {0x50000000}"
    "\<And>va. vmap (pmem s2) 0x50000000 va = None"
    by (rule free_data [OF s1(1) ok(3)]) (use s1(2,3) in auto)
  obtain s3 where s3: "vm_inv ?e 0x50000000 s3 {0x50001000, 0x50002000, 0x50003000}"
    "\<And>va. vmap (pmem s3) 0x50000000 va = None"
    by (rule free_data [OF s2(1) ok(2)]) (use s2(2,3) in auto)
  then show ?thesis by blast
qed

theorem uvmalloc_all_or_nothing_witness:
  "\<exists>s F. F \<noteq> {} \<and>
    ((\<exists>s' F'. uvmalloc 0x40021000 0x50000000 0 5000 PTE_W s = Ok (5000, s') \<and>
      uvm_grown 0x40021000 0x50000000 (PTE_R OR PTE_U OR PTE_W) s F s' F'
        (pfn (PGROUNDUP 0)) (pfn (PGROUNDUP 5000))) \<or>
    (\<exists>s'. uvmalloc 0x40021000 0x50000000 0 5000 PTE_W s = Ok (0, s') \<and> uvm_rolled 0x40021000 0x50000000 s F s'))"
proof -
  obtain s where s: "vm_inv 0x40021000 0x50000000 s {0x50001000, 0x50002000, 0x50003000}"
    "\<And>va. vmap (pmem s) 0x50000000 va = None"
    using vm_instance by blast
  show ?thesis
    by (rule exI [of _ s], rule exI [of _ "{0x50001000, 0x50002000, 0x50003000}"], rule conjI,
        simp, rule uvmalloc_all_or_nothing [OF s(1)]) (simp_all add: s(2))
qed


text \<open>
  C7: \<open>mappages\<close> implements the abstract update. On a well-formed table, for any number of pages
  below \<open>MAXVA\<close> that are unmapped, it never panics: it returns 0 and maps exactly these pages to
  consecutive physical pages with the given permissions, or it returns -1 when the free list has run
  empty, having mapped a prefix of them. All other translations and all memory outside the free pages
  and the tables stay as they were.
\<close>

theorem mappages_refines:
  assumes "vm_inv kend root s F" and "4096 dvd unat va" and "0 < n" and "unat va + 4096 * n \<le> 2 ^ 38"
    and "\<And>a. in_pages (pfn va) (pfn va + n) a \<Longrightarrow> vmap (pmem s) root a = None"
  shows "\<exists>r s' F' j. mappages root va (of_nat n * PGSIZE) pa perm s = Ok (r, s') \<and>
    pt_grow kend root s F s' F' \<and> (r = 0 \<and> j = n \<or> r = -1 \<and> j < n \<and> F' = {}) \<and>
    (\<forall>a < MAXVA. vmap (pmem s') root a = map_pages (vmap (pmem s) root) va pa perm j a)"
proof -
  obtain k where k: "n = Suc k" using assms(3) gr0_implies_Suc by blast
  have u: "unat (0 + of_nat n * 4096 :: u64) = unat (0 :: u64) + 4096 * n"
    by (rule unat_pages) (use assms(4) in simp)
  then have nz: "(of_nat n * 4096 :: u64) \<noteq> 0" using assms(3) by (auto simp: word_unat_eq_iff)
  have al: "(of_nat n * 4096 :: u64) mod 4096 = 0" using u by (simp add: mod_4096_iff)
  have "mappages root va (of_nat n * PGSIZE) pa perm s =
      mappages_loop root va (va + of_nat n * 4096 - 4096) pa perm s"
    using assms(2) nz al unfolding mappages_def by (simp only: mod_4096_iff if_False simp_thms)
  moreover have "va + of_nat n * 4096 - 4096 = va + of_nat k * 4096" by (simp add: k algebra_simps)
  moreover have "unat va + 4096 * Suc k \<le> 2 ^ 38" using assms(4) k by simp
  moreover have "vmap (pmem s) root a = None" if "a < MAXVA" "pfn va \<le> pfn a" "pfn a \<le> pfn va + k" for a
    by (rule assms(5)) (use that k in \<open>simp add: in_pages_def\<close>)
  ultimately show ?thesis
    using mappages_loop_spec [OF assms(1), of va k "va + of_nat k * 4096" pa perm]
    unfolding k by (simp only: less_Suc_eq_le)
qed

theorem mappages_refines_witness:
  "\<exists>s F r s' F' (j :: nat). F \<noteq> {} \<and> mappages 0x50000000 0x1000 (of_nat 2 * PGSIZE) 0x50004000 PTE_R s = Ok (r, s') \<and>
    pt_grow 0x40021000 0x50000000 s F s' F' \<and> (r = 0 \<and> j = 2 \<or> r = -1 \<and> j < 2 \<and> F' = {})"
proof -
  obtain s where s: "vm_inv 0x40021000 0x50000000 s {0x50001000, 0x50002000, 0x50003000}"
    "\<And>va. vmap (pmem s) 0x50000000 va = None"
    using vm_instance by blast
  have "\<exists>r s' F' j. mappages 0x50000000 0x1000 (of_nat 2 * PGSIZE) 0x50004000 PTE_R s = Ok (r, s') \<and>
      pt_grow 0x40021000 0x50000000 s {0x50001000, 0x50002000, 0x50003000} s' F' \<and>
      (r = 0 \<and> j = 2 \<or> r = -1 \<and> j < 2 \<and> F' = {}) \<and>
      (\<forall>a < MAXVA. vmap (pmem s') 0x50000000 a = map_pages (vmap (pmem s) 0x50000000) 0x1000 0x50004000 PTE_R j a)"
    by (rule mappages_refines [OF s(1)]) (simp_all add: s(2))
  then show ?thesis by blast
qed

text \<open>
  C5: \<open>uvmunmap\<close> removes exactly the translations of its range. If the address space owns the
  pages mapped there (each is allocatable, mapped once, neither free nor a table page), it never panics,
  and with \<open>do_free\<close> the free set grows by exactly those pages: none is lost and none is freed twice.
\<close>

theorem uvmunmap_refines:
  assumes "vm_inv kend root s F" and "4096 dvd unat va" and "unat va + 4096 * n \<le> 2 ^ 38"
    and "do_free \<Longrightarrow> uowned kend (F \<union> tabs (pmem s) root) (vmap (pmem s) root) (pfn va) (pfn va + n)"
  shows "\<exists>s'. uvmunmap kend root va (of_nat n) do_free s = Ok s' \<and>
    (let P = (if do_free then upages (vmap (pmem s) root) (pfn va) (pfn va + n) else {}) in
      pt_shrink kend root s P s' (F \<union> P)) \<and>
    (\<forall>a < MAXVA. vmap (pmem s') root a = unmap_pages (vmap (pmem s) root) (pfn va) (pfn va + n) a)"
proof -
  have "uvmunmap kend root va (of_nat n) do_free s =
      uvmunmap_loop kend root va (va + of_nat n * 4096) do_free s"
    using assms(2) by (simp add: uvmunmap_def mod_4096_iff)
  then show ?thesis using uvmunmap_loop_spec [OF assms(1,3) refl assms(4)] by simp
qed

theorem uvmunmap_refines_witness:
  "\<exists>s s'. vm_inv 0x40021000 0x50000000 s {0x50001000, 0x50002000, 0x50003000} \<and>
     uvmunmap 0x40021000 0x50000000 0x1000 (of_nat 3) True s = Ok s'"
proof -
  obtain s where s: "vm_inv 0x40021000 0x50000000 s {0x50001000, 0x50002000, 0x50003000}"
    "\<And>va. vmap (pmem s) 0x50000000 va = None"
    using vm_instance by blast
  have "\<exists>s'. uvmunmap 0x40021000 0x50000000 0x1000 (of_nat 3) True s = Ok s'"
    using uvmunmap_refines [OF s(1), of "0x1000" 3 True] s(2) by (auto simp: uowned_def)
  then show ?thesis using s(1) by blast
qed

end
