(* ===== verification/Xv6_Bytes.thy ===== *)
theory Xv6_Bytes
  imports Xv6_String
begin

text \<open>
  Byte arrays inside kernel structures (\<open>uchar data[BSIZE]\<close>, \<open>char name[DIRSIZ]\<close>): lists of bytes
  with the little-endian fields that the C code reads and writes through casts such as
  \<open>(struct dinode *)bp->data + i\<close>.
\<close>

text \<open>Overwriting the bytes from an offset on: \<open>memmove(bs + off, src, n)\<close>.\<close>

definition blit :: "byte list \<Rightarrow> nat \<Rightarrow> byte list \<Rightarrow> byte list" where
  "blit bs off src = take off bs @ src @ drop (off + length src) bs"

definition slice :: "byte list \<Rightarrow> nat \<Rightarrow> nat \<Rightarrow> byte list" where
  "slice bs off n = take n (drop off bs)"

definition get16 :: "byte list \<Rightarrow> nat \<Rightarrow> u16" where
  "get16 bs off = le_word (slice bs off 2)"

definition get32 :: "byte list \<Rightarrow> nat \<Rightarrow> u32" where
  "get32 bs off = le_word (slice bs off 4)"

definition put16 :: "byte list \<Rightarrow> nat \<Rightarrow> u16 \<Rightarrow> byte list" where
  "put16 bs off v = blit bs off (le_bytes 2 v)"

definition put32 :: "byte list \<Rightarrow> nat \<Rightarrow> u32 \<Rightarrow> byte list" where
  "put32 bs off v = blit bs off (le_bytes 4 v)"

lemma length_blit [simp]: "off + length src \<le> length bs \<Longrightarrow> length (blit bs off src) = length bs"
  by (simp add: blit_def)

lemma length_slice [simp]: "off + n \<le> length bs \<Longrightarrow> length (slice bs off n) = n"
  by (simp add: slice_def)

lemma slice_blit_same:
  "off + length src \<le> length bs \<Longrightarrow> n = length src \<Longrightarrow> slice (blit bs off src) off n = src"
  by (simp add: slice_def blit_def)

lemma slice_blit_other:
  assumes "off + length src \<le> length bs" and "o' + n \<le> off \<or> off + length src \<le> o'"
  shows "slice (blit bs off src) o' n = slice bs o' n"
  using assms(2)
proof
  assume *: "o' + n \<le> off"
  then have "slice (blit bs off src) o' n = take n (drop o' (take off bs))"
    using assms(1) by (simp add: slice_def blit_def)
  also have "\<dots> = slice bs o' n"
    using * by (simp add: slice_def drop_take)
  finally show ?thesis .
next
  assume "off + length src \<le> o'"
  then show ?thesis using assms(1) by (simp add: slice_def blit_def)
qed

lemma slice_full: "length bs = n \<Longrightarrow> slice bs 0 n = bs"
  by (simp add: slice_def)

lemma length_put [simp]:
  "off + 2 \<le> length bs \<Longrightarrow> length (put16 bs off v) = length bs"
  "off + 4 \<le> length bs \<Longrightarrow> length (put32 bs off w) = length bs"
  by (simp_all add: put16_def put32_def)

lemma get32_put32_same [simp]: "off + 4 \<le> length bs \<Longrightarrow> get32 (put32 bs off v) off = v"
  by (simp add: get32_def put32_def slice_blit_same le_word_le_bytes_full)

lemma get32_put32_other [simp]:
  "off + 4 \<le> length bs \<Longrightarrow> o' + 4 \<le> off \<or> off + 4 \<le> o' \<Longrightarrow> get32 (put32 bs off v) o' = get32 bs o'"
  by (simp add: get32_def put32_def slice_blit_other)

lemma get16_put16_same [simp]: "off + 2 \<le> length bs \<Longrightarrow> get16 (put16 bs off v) off = v"
  by (simp add: get16_def put16_def slice_blit_same le_word_le_bytes_full)

lemma get16_put16_other [simp]:
  "off + 2 \<le> length bs \<Longrightarrow> o' + 2 \<le> off \<or> off + 2 \<le> o' \<Longrightarrow> get16 (put16 bs off v) o' = get16 bs o'"
  by (simp add: get16_def put16_def slice_blit_other)

lemma get16_put32 [simp]:
  "off + 4 \<le> length bs \<Longrightarrow> o' + 2 \<le> off \<or> off + 4 \<le> o' \<Longrightarrow> get16 (put32 bs off v) o' = get16 bs o'"
  by (simp add: get16_def put32_def slice_blit_other)

lemma get32_put16 [simp]:
  "off + 2 \<le> length bs \<Longrightarrow> o' + 4 \<le> off \<or> off + 2 \<le> o' \<Longrightarrow> get32 (put16 bs off v) o' = get32 bs o'"
  by (simp add: get32_def put16_def slice_blit_other)

lemma slice_put32_other:
  "off + 4 \<le> length bs \<Longrightarrow> o' + n \<le> off \<or> off + 4 \<le> o' \<Longrightarrow> slice (put32 bs off v) o' n = slice bs o' n"
  by (simp add: put32_def slice_blit_other)

end
