(* ===== verification/Xv6_Lock.thy ===== *)
theory Xv6_Lock
  imports Xv6_Prelude
begin

text \<open>
  \<open>kernel/spinlock.c\<close> and \<open>kernel/sleeplock.c\<close>.

  The functions are given twice. As functions on one lock and the acting CPU they are what a CPU
  does when nobody interferes (spinning on a taken lock is \<open>Blocks\<close>). As the step relation
  \<open>lock_step\<close> they are the interleaving of any number of CPUs, one step for each access to the
  shared lock: the atomic swap, the store to \<open>lk->cpu\<close>, its clearing and the releasing swap. The steps of one CPU in a row
  are the functions, as \<open>acquire_steps\<close> and \<open>release_steps\<close> show. \<open>noff\<close> counts nested locks and is an integer.
  The other components treat a section between \<open>acquire\<close> and \<open>release\<close> as atomic; mutual exclusion and
  the restored interrupt state are what justifies it.
\<close>

record cpu =
  noff :: int
  intena :: bool
  sie :: bool

record spinlock =
  locked :: bool
  lcpu :: "nat option"

section \<open>One CPU\<close>

definition initlock :: spinlock where
  "initlock = \<lparr>locked = False, lcpu = None\<rparr>"

definition holding :: "nat \<Rightarrow> spinlock \<Rightarrow> bool" where
  "holding me lk \<longleftrightarrow> locked lk \<and> lcpu lk = Some me"

definition push_off :: "cpu \<Rightarrow> cpu" where
  "push_off c =
     (let old = sie c;
          c1 = c\<lparr>sie := False\<rparr>;
          c2 = (if noff c1 = 0 then c1\<lparr>intena := old\<rparr> else c1)
      in c2\<lparr>noff := noff c2 + 1\<rparr>)"

definition pop_off :: "cpu \<Rightarrow> cpu outcome" where
  "pop_off c =
     (if sie c then Panic ''pop_off - interruptible''
      else if noff c < 1 then Panic ''pop_off''
      else let c1 = c\<lparr>noff := noff c - 1\<rparr>
           in Ok (if noff c1 = 0 \<and> intena c1 then c1\<lparr>sie := True\<rparr> else c1))"

definition acquire :: "nat \<Rightarrow> spinlock \<Rightarrow> cpu \<Rightarrow> (spinlock \<times> cpu) outcome" where
  "acquire me lk c =
     (let c1 = push_off c
      in if holding me lk then Panic ''acquire''
         else if locked lk then Blocks
         else Ok (lk\<lparr>locked := True, lcpu := Some me\<rparr>, c1))"

definition release :: "nat \<Rightarrow> spinlock \<Rightarrow> cpu \<Rightarrow> (spinlock \<times> cpu) outcome" where
  "release me lk c =
     (if \<not> holding me lk then Panic ''release''
      else obind (pop_off c) (\<lambda>c1. Ok (lk\<lparr>lcpu := None, locked := False\<rparr>, c1)))"

section \<open>Sleep locks\<close>

record sleeplock =
  slocked :: bool
  spid :: int

definition initsleeplock :: sleeplock where
  "initsleeplock = \<lparr>slocked = False, spid = 0\<rparr>"

text \<open>\<open>Blocks\<close> is the call of \<open>sleep()\<close> on a lock that somebody holds.\<close>

definition acquiresleep :: "int \<Rightarrow> sleeplock \<Rightarrow> sleeplock outcome" where
  "acquiresleep pid lk = (if slocked lk then Blocks else Ok (lk\<lparr>slocked := True, spid := pid\<rparr>))"

definition releasesleep :: "sleeplock \<Rightarrow> sleeplock" where
  "releasesleep lk = lk\<lparr>slocked := False, spid := 0\<rparr>"

definition holdingsleep :: "int \<Rightarrow> sleeplock \<Rightarrow> bool" where
  "holdingsleep pid lk \<longleftrightarrow> slocked lk \<and> spid lk = pid"

section \<open>Any number of CPUs\<close>

datatype pc = Outside | Spinning | Swapped | Critical | Releasing | Popping

record machine =
  mlock :: spinlock
  mcpu :: "nat \<Rightarrow> cpu"
  mpc :: "nat \<Rightarrow> pc"

inductive lock_step :: "machine \<Rightarrow> machine \<Rightarrow> bool" where
  start: "mpc m i = Outside \<Longrightarrow> \<not> holding i (mlock m) \<Longrightarrow>
    lock_step m (m\<lparr>mcpu := (mcpu m)(i := push_off (mcpu m i)), mpc := (mpc m)(i := Spinning)\<rparr>)"
| spin: "mpc m i = Spinning \<Longrightarrow> locked (mlock m) \<Longrightarrow> lock_step m m"
| swap: "mpc m i = Spinning \<Longrightarrow> \<not> locked (mlock m) \<Longrightarrow>
    lock_step m (m\<lparr>mlock := (mlock m)\<lparr>locked := True\<rparr>, mpc := (mpc m)(i := Swapped)\<rparr>)"
| enter: "mpc m i = Swapped \<Longrightarrow>
    lock_step m (m\<lparr>mlock := (mlock m)\<lparr>lcpu := Some i\<rparr>, mpc := (mpc m)(i := Critical)\<rparr>)"
| leave: "mpc m i = Critical \<Longrightarrow> holding i (mlock m) \<Longrightarrow>
    lock_step m (m\<lparr>mlock := (mlock m)\<lparr>lcpu := None\<rparr>, mpc := (mpc m)(i := Releasing)\<rparr>)"
| unlock: "mpc m i = Releasing \<Longrightarrow>
    lock_step m (m\<lparr>mlock := (mlock m)\<lparr>locked := False\<rparr>, mpc := (mpc m)(i := Popping)\<rparr>)"
| pop: "mpc m i = Popping \<Longrightarrow> pop_off (mcpu m i) = Ok c \<Longrightarrow>
    lock_step m (m\<lparr>mcpu := (mcpu m)(i := c), mpc := (mpc m)(i := Outside)\<rparr>)"

definition cpu_ok :: "cpu \<Rightarrow> bool" where
  "cpu_ok c \<longleftrightarrow> 0 \<le> noff c \<and> (0 < noff c \<longrightarrow> \<not> sie c)"

definition machine_init :: "machine \<Rightarrow> bool" where
  "machine_init m \<longleftrightarrow> mlock m = initlock \<and> (\<forall>i. mpc m i = Outside \<and> cpu_ok (mcpu m i))"

definition owns :: "pc \<Rightarrow> bool" where
  "owns p \<longleftrightarrow> p = Swapped \<or> p = Critical \<or> p = Releasing"

definition lock_inv :: "machine \<Rightarrow> bool" where
  "lock_inv m \<longleftrightarrow>
     (\<forall>i. owns (mpc m i) \<longrightarrow> locked (mlock m)) \<and>
     (\<forall>i j. owns (mpc m i) \<longrightarrow> owns (mpc m j) \<longrightarrow> i = j) \<and>
     (\<forall>i. lcpu (mlock m) = Some i \<longleftrightarrow> mpc m i = Critical) \<and>
     (locked (mlock m) \<longrightarrow> (\<exists>i. owns (mpc m i))) \<and>
     (\<forall>i. cpu_ok (mcpu m i) \<and> (mpc m i \<noteq> Outside \<longrightarrow> 0 < noff (mcpu m i)))"

section \<open>Lemmas\<close>

lemma push_off_ok: "cpu_ok c \<Longrightarrow> cpu_ok (push_off c) \<and> 0 < noff (push_off c)"
  by (auto simp: cpu_ok_def push_off_def Let_def)

lemma pop_off_ok: "cpu_ok c \<Longrightarrow> 0 < noff c \<Longrightarrow> \<exists>c'. pop_off c = Ok c' \<and> cpu_ok c'"
  by (auto simp: cpu_ok_def pop_off_def Let_def)

lemma pop_push_off: "cpu_ok c \<Longrightarrow> \<exists>b. pop_off (push_off c) = Ok (c\<lparr>intena := b\<rparr>)"
  by (cases c) (auto simp: cpu_ok_def pop_off_def push_off_def Let_def)

lemma owns_simps [simp]:
  "\<not> owns Outside" "\<not> owns Spinning" "owns Swapped" "owns Critical" "owns Releasing" "\<not> owns Popping"
  by (simp_all add: owns_def)

lemma owner_elsewhere: "owns (f j) \<Longrightarrow> f i = p \<Longrightarrow> \<not> owns p \<Longrightarrow> \<exists>k. k \<noteq> i \<and> owns (f k)"
  by metis

lemma lock_inv_init: "machine_init m \<Longrightarrow> lock_inv m"
  by (auto simp: machine_init_def lock_inv_def initlock_def)

lemma lock_inv_step: "lock_step m m' \<Longrightarrow> lock_inv m \<Longrightarrow> lock_inv m'"
proof (induction rule: lock_step.induct)
  case (start m i)
  then show ?case
    using push_off_ok [of "mcpu m i"] owner_elsewhere [of "mpc m" _ i Outside] by (auto simp: lock_inv_def)
next
  case (pop m i c)
  then have "cpu_ok c" using pop_off_ok [of "mcpu m i"] by (force simp: lock_inv_def)
  then show ?case using pop owner_elsewhere [of "mpc m" _ i Popping] by (auto simp: lock_inv_def)
next
  case (swap m i)
  then show ?case by (auto simp: lock_inv_def)
next
  case (enter m i)
  then have "\<exists>k. owns (mpc m k)" by (intro exI [of _ i]) simp
  then show ?case using enter by (auto simp: lock_inv_def)
next
  case (leave m i)
  then have "\<exists>k. owns (mpc m k)" by (intro exI [of _ i]) simp
  then show ?case using leave by (auto simp: lock_inv_def)
next
  case (unlock m i)
  then have "\<exists>k. owns (mpc m k)" by (intro exI [of _ i]) simp
  then show ?case using unlock by (auto simp: lock_inv_def)
qed

lemma lock_inv_reachable: "lock_step\<^sup>*\<^sup>* m m' \<Longrightarrow> machine_init m \<Longrightarrow> lock_inv m'"
  by (induction rule: rtranclp_induct) (auto intro: lock_inv_init lock_inv_step)

text \<open>Undisturbed, the steps of a CPU do what \<open>acquire\<close> and \<open>release\<close> do.\<close>

lemma acquire_steps:
  assumes "mpc m i = Outside" "acquire i (mlock m) (mcpu m i) = Ok (lk, c)"
  shows "(lock_step ^^ 3) m (m\<lparr>mcpu := (mcpu m)(i := c), mlock := lk, mpc := (mpc m)(i := Critical)\<rparr>)"
proof -
  have lk: "\<not> holding i (mlock m)" "\<not> locked (mlock m)" "lk = (mlock m)\<lparr>locked := True, lcpu := Some i\<rparr>" "c = push_off (mcpu m i)"
    using assms(2) by (auto simp: acquire_def Let_def split: if_splits)
  let ?m1 = "m\<lparr>mcpu := (mcpu m)(i := c), mpc := (mpc m)(i := Spinning)\<rparr>"
  let ?m2 = "?m1\<lparr>mlock := (mlock m)\<lparr>locked := True\<rparr>, mpc := (mpc m)(i := Swapped)\<rparr>"
  let ?m3 = "?m2\<lparr>mlock := lk, mpc := (mpc m)(i := Critical)\<rparr>"
  have "lock_step m ?m1" using lock_step.start [OF assms(1) lk(1)] lk(4) by simp
  moreover have "lock_step ?m1 ?m2" using lock_step.swap [of ?m1 i] lk(2) by simp
  moreover have "lock_step ?m2 ?m3" using lock_step.enter [of ?m2 i] lk(3) by simp
  ultimately show ?thesis by (auto simp: numeral_3_eq_3 OO_def)
qed

lemma release_steps:
  assumes "mpc m i = Critical" "release i (mlock m) (mcpu m i) = Ok (lk, c)"
  shows "(lock_step ^^ 3) m (m\<lparr>mlock := lk, mcpu := (mcpu m)(i := c), mpc := (mpc m)(i := Outside)\<rparr>)"
proof -
  have lk: "holding i (mlock m)" "lk = (mlock m)\<lparr>lcpu := None, locked := False\<rparr>" "pop_off (mcpu m i) = Ok c"
    using assms(2) by (auto simp: release_def obind_eq_Ok split: if_splits)
  let ?m1 = "m\<lparr>mlock := (mlock m)\<lparr>lcpu := None\<rparr>, mpc := (mpc m)(i := Releasing)\<rparr>"
  let ?m2 = "m\<lparr>mlock := lk, mpc := (mpc m)(i := Popping)\<rparr>"
  let ?m3 = "?m2\<lparr>mcpu := (mcpu m)(i := c), mpc := (mpc m)(i := Outside)\<rparr>"
  have "lock_step m ?m1" by (rule lock_step.leave [OF assms(1) lk(1)])
  moreover have "lock_step ?m1 ?m2" using lock_step.unlock [of ?m1 i] lk(2) by simp
  moreover have "lock_step ?m2 ?m3" using lock_step.pop [of ?m2 i c] lk(3) by simp
  ultimately show ?thesis by (auto simp: numeral_3_eq_3 OO_def)
qed

text \<open>What CPUs other than \<open>i\<close> see of a run: their places and their own state are untouched.\<close>

definition others_idle :: "nat \<Rightarrow> machine \<Rightarrow> machine \<Rightarrow> bool" where
  "others_idle i m m' \<longleftrightarrow> (\<forall>j. j \<noteq> i \<longrightarrow> mpc m' j = mpc m j \<and> mcpu m' j = mcpu m j)"

lemma releasing_frees:
  assumes "mpc m j = Releasing"
  shows "\<exists>m'. (lock_step ^^ 1) m m' \<and> \<not> locked (mlock m') \<and> others_idle j m m'"
  using lock_step.unlock [OF assms] by (intro exI) (auto simp: others_idle_def)

lemma critical_frees:
  assumes "mpc m j = Critical" "holding j (mlock m)"
  shows "\<exists>m'. (lock_step ^^ 2) m m' \<and> \<not> locked (mlock m') \<and> others_idle j m m'"
proof -
  let ?m1 = "m\<lparr>mlock := (mlock m)\<lparr>lcpu := None\<rparr>, mpc := (mpc m)(j := Releasing)\<rparr>"
  have "lock_step m ?m1" by (rule lock_step.leave [OF assms])
  moreover obtain m' where "(lock_step ^^ 1) ?m1 m'" "\<not> locked (mlock m')" "others_idle j ?m1 m'"
    using releasing_frees [of ?m1 j] by auto
  ultimately show ?thesis by (intro exI [of _ m']) (auto simp: others_idle_def numeral_2_eq_2)
qed

lemma swapped_frees:
  assumes "mpc m j = Swapped" "locked (mlock m)"
  shows "\<exists>m'. (lock_step ^^ 3) m m' \<and> \<not> locked (mlock m') \<and> others_idle j m m'"
proof -
  let ?m1 = "m\<lparr>mlock := (mlock m)\<lparr>lcpu := Some j\<rparr>, mpc := (mpc m)(j := Critical)\<rparr>"
  have "lock_step m ?m1" by (rule lock_step.enter [OF assms(1)])
  moreover obtain m' where "(lock_step ^^ 2) ?m1 m'" "\<not> locked (mlock m')" "others_idle j ?m1 m'"
    using critical_frees [of ?m1 j] assms(2) by (auto simp: holding_def)
  ultimately show ?thesis
    by (intro exI [of _ m']) (auto simp: others_idle_def numeral_3_eq_3 numeral_2_eq_2)
qed

lemma owner_frees:
  assumes "lock_inv m" "owns (mpc m j)"
  shows "\<exists>n\<le>3. \<exists>m'. (lock_step ^^ n) m m' \<and> \<not> locked (mlock m') \<and> others_idle j m m'"
proof -
  have "locked (mlock m)" using assms unfolding lock_inv_def by blast
  then have l: "locked (mlock m)" "mpc m j = Critical \<Longrightarrow> holding j (mlock m)" using assms by (simp_all add: lock_inv_def holding_def)
  consider "mpc m j = Swapped" | "mpc m j = Critical" | "mpc m j = Releasing" using assms(2) by (auto simp: owns_def)
  then show ?thesis
  proof cases
    case 1
    then show ?thesis using swapped_frees [OF 1 l(1)] by blast
  next
    case 2
    then show ?thesis using critical_frees [OF 2 l(2) [OF 2]] by (intro exI [of _ 2]) simp
  next
    case 3
    then show ?thesis using releasing_frees [OF 3] by (intro exI [of _ 1]) simp
  qed
qed

lemma free_taken:
  assumes "mpc m i = Spinning" "\<not> locked (mlock m)"
  shows "\<exists>m'. (lock_step ^^ 2) m m' \<and> mpc m' i = Critical \<and> holding i (mlock m') \<and> others_idle i m m'"
proof -
  let ?m1 = "m\<lparr>mlock := (mlock m)\<lparr>locked := True\<rparr>, mpc := (mpc m)(i := Swapped)\<rparr>"
  have "lock_step m ?m1" by (rule lock_step.swap [OF assms])
  moreover have "lock_step ?m1 (?m1\<lparr>mlock := (mlock ?m1)\<lparr>lcpu := Some i\<rparr>, mpc := (mpc ?m1)(i := Critical)\<rparr>)"
    by (rule lock_step.enter) simp
  ultimately show ?thesis by (intro exI conjI) (auto simp: numeral_2_eq_2 others_idle_def holding_def)
qed

lemma lock_progress:
  assumes inv: "lock_inv m" and sp: "mpc m i = Spinning"
  shows "\<exists>n\<le>5. \<exists>m'. (lock_step ^^ n) m m' \<and> mpc m' i = Critical \<and> holding i (mlock m') \<and>
    (\<forall>j. j \<noteq> i \<longrightarrow> \<not> owns (mpc m j) \<longrightarrow> mpc m' j = mpc m j \<and> mcpu m' j = mcpu m j)"
proof (cases "locked (mlock m)")
  case False
  then show ?thesis using free_taken [OF sp] by (intro exI [of _ 2]) (auto simp: others_idle_def)
next
  case True
  then obtain j where j: "owns (mpc m j)" using inv by (auto simp: lock_inv_def)
  then obtain n m1 where m1: "n \<le> 3" "(lock_step ^^ n) m m1" "\<not> locked (mlock m1)" "others_idle j m m1"
    using owner_frees [OF inv] by blast
  have "mpc m1 i = Spinning" using m1(4) j sp by (cases "i = j") (auto simp: others_idle_def)
  then obtain m2 where m2: "(lock_step ^^ 2) m1 m2" "mpc m2 i = Critical" "holding i (mlock m2)" "others_idle i m1 m2"
    using free_taken m1(3) by blast
  have "(lock_step ^^ (n + 2)) m m2" using relpowp_trans [OF m1(2) m2(1)] .
  moreover have "n + 2 \<le> 5" using m1(1) by simp
  moreover have "mpc m2 l = mpc m l \<and> mcpu m2 l = mcpu m l" if "l \<noteq> i" "\<not> owns (mpc m l)" for l
    using that m1(4) m2(4) j by (cases "l = j") (auto simp: others_idle_def)
  ultimately show ?thesis using m2(2,3) by blast
qed

section \<open>Examples\<close>

text \<open>Two CPUs outside, and then the first one in the critical section and the second one spinning.\<close>

definition idle_machine :: machine where
  "idle_machine = \<lparr>mlock = initlock, mcpu = (\<lambda>_. \<lparr>noff = 0, intena = False, sie = True\<rparr>), mpc = (\<lambda>_. Outside)\<rparr>"

definition busy_machine :: machine where
  "busy_machine = \<lparr>mlock = \<lparr>locked = True, lcpu = Some 0\<rparr>,
     mcpu = (mcpu idle_machine)(0 := push_off (mcpu idle_machine 0), 1 := push_off (mcpu idle_machine 1)),
     mpc = (\<lambda>_. Outside)(0 := Critical, 1 := Spinning)\<rparr>"

lemma idle_machine_init: "machine_init idle_machine"
  by (simp add: machine_init_def idle_machine_def cpu_ok_def)

lemma busy_machine_reached: "lock_step\<^sup>*\<^sup>* idle_machine busy_machine"
proof -
  let ?m = "idle_machine\<lparr>mcpu := (mcpu idle_machine)(0 := push_off (mcpu idle_machine 0)), mlock := \<lparr>locked = True, lcpu = Some 0\<rparr>,
    mpc := (mpc idle_machine)(0 := Critical)\<rparr>"
  have "(lock_step ^^ 3) idle_machine ?m"
    by (rule acquire_steps) (simp_all add: idle_machine_def acquire_def initlock_def holding_def)
  then have "lock_step\<^sup>*\<^sup>* idle_machine ?m" by (rule relpowp_imp_rtranclp)
  moreover have "lock_step ?m busy_machine"
    using lock_step.start [of ?m 1] by (simp add: idle_machine_def busy_machine_def holding_def)
  ultimately show ?thesis by (rule rtranclp.rtrancl_into_rtrancl)
qed

section \<open>Properties\<close>

text \<open>
  C9: spin locks give mutual exclusion. In every state that any interleaving of any number of CPUs
  can reach, at most one CPU is between the successful swap and the releasing swap, the lock's owner field
  names the CPU in the critical section, and no CPU is at a point where \<open>acquire\<close>, \<open>release\<close>
  or \<open>pop_off\<close> would panic.
\<close>

theorem spinlock_mutual_exclusion:
  assumes "machine_init m" and "lock_step\<^sup>*\<^sup>* m m'"
  shows "(\<forall>i j. owns (mpc m' i) \<and> owns (mpc m' j) \<longrightarrow> i = j) \<and>
    (\<forall>i. mpc m' i = Critical \<longleftrightarrow> holding i (mlock m')) \<and>
    (\<forall>i. mpc m' i = Popping \<longrightarrow> is_Ok (pop_off (mcpu m' i)))"
proof -
  have inv: "lock_inv m'" using lock_inv_reachable assms by blast
  have "is_Ok (pop_off (mcpu m' i))" if "mpc m' i = Popping" for i
    using inv that pop_off_ok [of "mcpu m' i"] by (auto simp: lock_inv_def)
  moreover have "mpc m' i = Critical \<longleftrightarrow> holding i (mlock m')" for i
    using inv owns_simps(4) unfolding lock_inv_def holding_def by metis
  ultimately show ?thesis using inv by (auto simp: lock_inv_def)
qed

theorem spinlock_mutual_exclusion_witness:
  "lock_step\<^sup>*\<^sup>* idle_machine busy_machine \<and> mpc busy_machine 0 = Critical \<and> holding 0 (mlock busy_machine) \<and>
   \<not> owns (mpc busy_machine 1)"
proof -
  have c: "mpc busy_machine 0 = Critical" by (simp add: busy_machine_def)
  note ex = spinlock_mutual_exclusion [OF idle_machine_init busy_machine_reached]
  have "holding 0 (mlock busy_machine)" using ex c by blast
  moreover have "owns (mpc busy_machine 0)" using c by (simp add: owns_def)
  then have "\<not> owns (mpc busy_machine 1)" using ex by (metis zero_neq_one)
  ultimately show ?thesis using c busy_machine_reached by blast
qed

text \<open>
  C10: a spinning CPU never waits on a dead lock. In every reachable state with CPU i in the spin loop, at most five steps, of
  the CPU that has the lock if there is one and of i itself, bring i into the critical section, as the owner that the lock names; no
  other CPU has to take part.
\<close>

theorem spinlock_no_deadlock:
  assumes "machine_init m" and "lock_step\<^sup>*\<^sup>* m m'" and "mpc m' i = Spinning"
  shows "\<exists>n\<le>5. \<exists>m''. (lock_step ^^ n) m' m'' \<and> mpc m'' i = Critical \<and> holding i (mlock m'') \<and>
    (\<forall>j. j \<noteq> i \<longrightarrow> \<not> owns (mpc m' j) \<longrightarrow> mpc m'' j = mpc m' j \<and> mcpu m'' j = mcpu m' j)"
  using lock_progress lock_inv_reachable assms by blast

theorem spinlock_no_deadlock_witness:
  "mpc busy_machine 0 = Critical \<and> (\<exists>n\<le>5. \<exists>m. (lock_step ^^ n) busy_machine m \<and> mpc m 1 = Critical \<and> holding 1 (mlock m))"
proof -
  have b: "mpc busy_machine 0 = Critical" "mpc busy_machine 1 = Spinning" by (simp_all add: busy_machine_def)
  from spinlock_no_deadlock [OF idle_machine_init busy_machine_reached b(2)] show ?thesis using b(1) by blast
qed

text \<open>
  C16: a critical section restores the CPU. If \<open>acquire\<close> gets the lock then \<open>release\<close> does not
  panic, and afterwards the lock is free and the interrupt flag and nesting depth are what they were, at any
  nesting depth.
\<close>

theorem acquire_release_restores:
  assumes "cpu_ok c" and "acquire me lk c = Ok (lk1, c1)"
  shows "\<not> sie c1 \<and> (\<exists>b. release me lk1 c1 = Ok (lk\<lparr>locked := False, lcpu := None\<rparr>, c\<lparr>intena := b\<rparr>))"
proof -
  have e: "lk1 = lk\<lparr>locked := True, lcpu := Some me\<rparr>" "c1 = push_off c"
    using assms(2) by (auto simp: acquire_def Let_def split: if_splits)
  show ?thesis
    using pop_push_off [OF assms(1)]
    by (auto simp: e release_def holding_def push_off_def Let_def)
qed

theorem acquire_release_restores_witness:
  "\<exists>b. release 3 \<lparr>locked = True, lcpu = Some 3\<rparr> (push_off \<lparr>noff = 0, intena = False, sie = True\<rparr>) =
     Ok (\<lparr>locked = False, lcpu = None\<rparr>, \<lparr>noff = 0, intena = b, sie = True\<rparr>)"
  using acquire_release_restores [of "\<lparr>noff = 0, intena = False, sie = True\<rparr>" 3 initlock]
  by (auto simp: cpu_ok_def acquire_def initlock_def holding_def)

end
