(* ===== verification/Xv6_Bio.thy ===== *)
theory Xv6_Bio
  imports Xv6_Bytes Xv6_Lock
begin

text \<open>
  \<open>kernel/ramdisk.c\<close> and \<open>kernel/bio.c\<close>: the RAM disk as the block driver behind
  \<open>virtio_disk_rw\<close>, and the buffer cache on top of it.

  The cache is modelled with its pointers: \<open>bufs\<close> holds the \<open>NBUF\<close> buffers and, at index
  \<open>NBUF\<close>, the list head, and the LRU list is the \<open>prev\<close>/\<open>next\<close> links among these indices. A traversal
  carries fuel; \<open>NBUF + 1\<close> steps are proved to be enough. \<open>curpid\<close> is \<open>myproc()->pid\<close>.
  \<open>wtrace\<close> records the block writes in the order the disk sees them; no code reads it, it serves
  to speak about crashes.
\<close>

abbreviation (input) BSIZE :: nat where "BSIZE \<equiv> 1024"
abbreviation (input) RAMDISK_BLOCKS :: nat where "RAMDISK_BLOCKS \<equiv> 8192"

record buf =
  bvalid :: bool
  bdev :: u32
  blockno :: u32
  block :: sleeplock
  refcnt :: u32
  bprev :: nat
  bnext :: nat
  bdata :: "byte list"

record bstate =
  disk :: "nat \<Rightarrow> byte"
  read_count :: u64
  write_count :: u64
  bufs :: "buf list"
  curpid :: int
  wtrace :: "(nat \<times> byte list) list"

abbreviation (input) bhead :: nat where "bhead \<equiv> NBUF"

definition upd_buf :: "nat \<Rightarrow> (buf \<Rightarrow> buf) \<Rightarrow> bstate \<Rightarrow> bstate" where
  "upd_buf i f s = s\<lparr>bufs := (bufs s)[i := f (bufs s ! i)]\<rparr>"

section \<open>The RAM disk\<close>

definition disk_block :: "(nat \<Rightarrow> byte) \<Rightarrow> nat \<Rightarrow> byte list" where
  "disk_block d bn = map d [bn * BSIZE..<bn * BSIZE + BSIZE]"

definition disk_put :: "(nat \<Rightarrow> byte) \<Rightarrow> nat \<Rightarrow> byte list \<Rightarrow> nat \<Rightarrow> byte" where
  "disk_put d off bs = (\<lambda>i. if off \<le> i \<and> i < off + length bs then bs ! (i - off) else d i)"

definition ramdisk_rw :: "nat \<Rightarrow> bool \<Rightarrow> bstate \<Rightarrow> bstate outcome" where
  "ramdisk_rw i write s =
     (let b = bufs s ! i in
      if unat (blockno b) \<ge> RAMDISK_BLOCKS then Panic ''ramdisk_rw: block number out of range''
      else let offset = unat (blockno b * 1024) in
        if write
        then Ok (s\<lparr>disk := disk_put (disk s) offset (bdata b), write_count := write_count s + 1,
                   wtrace := wtrace s @ [(unat (blockno b), bdata b)]\<rparr>)
        else Ok ((upd_buf i (\<lambda>b. b\<lparr>bdata := map (disk s) [offset..<offset + BSIZE]\<rparr>) s)
                   \<lparr>read_count := read_count s + 1\<rparr>))"

definition virtio_disk_rw :: "nat \<Rightarrow> bool \<Rightarrow> bstate \<Rightarrow> bstate outcome" where
  "virtio_disk_rw i write s = ramdisk_rw i write s"

section \<open>The buffer cache\<close>

definition buf0 :: buf where
  "buf0 = \<lparr>bvalid = False, bdev = 0, blockno = 0, block = initsleeplock, refcnt = 0, bprev = 0, bnext = 0,
     bdata = replicate BSIZE 0\<rparr>"

text \<open>\<open>b->next = head.next; b->prev = &head; head.next->prev = b; head.next = b\<close>\<close>

definition lru_insert :: "nat \<Rightarrow> bstate \<Rightarrow> bstate" where
  "lru_insert b s =
     (let s1 = upd_buf b (\<lambda>x. x\<lparr>bnext := bnext (bufs s ! bhead)\<rparr>) s;
          s2 = upd_buf b (\<lambda>x. x\<lparr>bprev := bhead\<rparr>) s1;
          s3 = upd_buf (bnext (bufs s2 ! bhead)) (\<lambda>x. x\<lparr>bprev := b\<rparr>) s2
      in upd_buf bhead (\<lambda>x. x\<lparr>bnext := b\<rparr>) s3)"

text \<open>\<open>b->next->prev = b->prev; b->prev->next = b->next\<close>\<close>

definition lru_remove :: "nat \<Rightarrow> bstate \<Rightarrow> bstate" where
  "lru_remove b s =
     (let s1 = upd_buf (bnext (bufs s ! b)) (\<lambda>x. x\<lparr>bprev := bprev (bufs s ! b)\<rparr>) s
      in upd_buf (bprev (bufs s1 ! b)) (\<lambda>x. x\<lparr>bnext := bnext (bufs s1 ! b)\<rparr>) s1)"

definition binit :: "bstate \<Rightarrow> bstate" where
  "binit s =
     (let s1 = upd_buf bhead (\<lambda>x. x\<lparr>bprev := bhead\<rparr>) s;
          s2 = upd_buf bhead (\<lambda>x. x\<lparr>bnext := bhead\<rparr>) s1
      in fold (\<lambda>b s. upd_buf b (\<lambda>x. x\<lparr>block := initsleeplock\<rparr>) (lru_insert b s)) [0..<NBUF] s2)"

primrec bget_find :: "nat \<Rightarrow> bstate \<Rightarrow> nat \<Rightarrow> u32 \<Rightarrow> u32 \<Rightarrow> nat option outcome" where
  "bget_find 0 s b dev bn = Diverge"
| "bget_find (Suc n) s b dev bn =
     (if b = bhead then Ok None
      else if bdev (bufs s ! b) = dev \<and> blockno (bufs s ! b) = bn then Ok (Some b)
      else bget_find n s (bnext (bufs s ! b)) dev bn)"

primrec bget_lru :: "nat \<Rightarrow> bstate \<Rightarrow> nat \<Rightarrow> nat option outcome" where
  "bget_lru 0 s b = Diverge"
| "bget_lru (Suc n) s b =
     (if b = bhead then Ok None
      else if refcnt (bufs s ! b) = 0 then Ok (Some b)
      else bget_lru n s (bprev (bufs s ! b)))"

definition lock_buf :: "nat \<Rightarrow> bstate \<Rightarrow> (nat \<times> bstate) outcome" where
  "lock_buf b s =
     obind (acquiresleep (curpid s) (block (bufs s ! b)))
       (\<lambda>l. Ok (b, upd_buf b (\<lambda>x. x\<lparr>block := l\<rparr>) s))"

definition bget :: "u32 \<Rightarrow> u32 \<Rightarrow> bstate \<Rightarrow> (nat \<times> bstate) outcome" where
  "bget dev bn s =
     obind (bget_find (NBUF + 1) s (bnext (bufs s ! bhead)) dev bn) (\<lambda>r.
       case r of
         Some b \<Rightarrow> lock_buf b (upd_buf b (\<lambda>x. x\<lparr>refcnt := refcnt x + 1\<rparr>) s)
       | None \<Rightarrow>
           obind (bget_lru (NBUF + 1) s (bprev (bufs s ! bhead))) (\<lambda>r.
             case r of
               Some b \<Rightarrow> lock_buf b (upd_buf b
                 (\<lambda>x. x\<lparr>bdev := dev, blockno := bn, bvalid := False, refcnt := 1\<rparr>) s)
             | None \<Rightarrow> Panic ''bget: no buffers''))"

definition bread :: "u32 \<Rightarrow> u32 \<Rightarrow> bstate \<Rightarrow> (nat \<times> bstate) outcome" where
  "bread dev bn s =
     obind (bget dev bn s) (\<lambda>(b, s1).
       if \<not> bvalid (bufs s1 ! b)
       then obind (virtio_disk_rw b False s1) (\<lambda>s2. Ok (b, upd_buf b (\<lambda>x. x\<lparr>bvalid := True\<rparr>) s2))
       else Ok (b, s1))"

definition bwrite :: "nat \<Rightarrow> bstate \<Rightarrow> bstate outcome" where
  "bwrite b s =
     (if \<not> holdingsleep (curpid s) (block (bufs s ! b)) then Panic ''bwrite''
      else virtio_disk_rw b True s)"

definition brelse :: "nat \<Rightarrow> bstate \<Rightarrow> bstate outcome" where
  "brelse b s =
     (if \<not> holdingsleep (curpid s) (block (bufs s ! b)) then Panic ''brelse''
      else let s1 = upd_buf b (\<lambda>x. x\<lparr>block := releasesleep (block x)\<rparr>) s;
               s2 = upd_buf b (\<lambda>x. x\<lparr>refcnt := refcnt x - 1\<rparr>) s1
           in Ok (if refcnt (bufs s2 ! b) = 0 then lru_insert b (lru_remove b s2) else s2))"

definition bpin :: "nat \<Rightarrow> bstate \<Rightarrow> bstate" where
  "bpin b s = upd_buf b (\<lambda>x. x\<lparr>refcnt := refcnt x + 1\<rparr>) s"

definition bunpin :: "nat \<Rightarrow> bstate \<Rightarrow> bstate" where
  "bunpin b s = upd_buf b (\<lambda>x. x\<lparr>refcnt := refcnt x - 1\<rparr>) s"

text \<open>A caller's assignment to \<open>b->data\<close>.\<close>

definition set_data :: "nat \<Rightarrow> byte list \<Rightarrow> bstate \<Rightarrow> bstate" where
  "set_data b bs s = upd_buf b (\<lambda>x. x\<lparr>bdata := bs\<rparr>) s"

end
