(* ===== verification/Xv6_Bio_Lru.thy ===== *)
theory Xv6_Bio_Lru
  imports Xv6_Bio
begin

text \<open>
  The doubly linked LRU list of \<open>kernel/bio.c\<close>: \<open>lru s ord\<close> says that the \<open>next\<close> links from the
  head run through the buffers \<open>ord\<close> and back, and the \<open>prev\<close> links run through the reverse. The
  pointer assignments of \<open>binit\<close> and \<open>brelse\<close> are proved to be list operations, and the two
  searches of \<open>bget\<close> to be searches of \<open>ord\<close> from its two ends.
\<close>

section \<open>Segments of a linked list\<close>

primrec seg :: "(nat \<Rightarrow> nat) \<Rightarrow> nat \<Rightarrow> nat list \<Rightarrow> nat \<Rightarrow> bool" where
  "seg f a [] c \<longleftrightarrow> f a = c"
| "seg f a (x # xs) c \<longleftrightarrow> f a = x \<and> seg f x xs c"

lemma seg_cong: "(\<And>x. x = a \<or> x \<in> set xs \<Longrightarrow> f x = g x) \<Longrightarrow> seg f a xs c = seg g a xs c"
  by (induction xs arbitrary: a) auto

lemma seg_append: "seg f a (xs @ y # ys) c \<longleftrightarrow> seg f a xs y \<and> seg f y ys c"
  by (induction xs arbitrary: a) auto

lemma seg_hd: "seg f a xs c \<Longrightarrow> f a = hd (xs @ [c])"
  by (cases xs) auto

lemma seg_last: "seg f a xs c \<Longrightarrow> f (last (a # xs)) = c"
  by (induction xs arbitrary: a) auto

lemma seg_upd_last:
  assumes "seg f a xs c" and "distinct (a # xs)"
  shows "seg (f(last (a # xs) := d)) a xs d"
  using assms
proof (induction xs arbitrary: a)
  case (Cons x xs)
  then have "a \<noteq> last (x # xs)" by (metis distinct.simps(2) last_in_set list.distinct(1))
  then show ?case using Cons by simp
qed simp

lemma seg_upd_other: "x \<noteq> a \<Longrightarrow> x \<notin> set xs \<Longrightarrow> seg (f(x := d)) a xs c = seg f a xs c"
  by (rule seg_cong) auto

lemma seg_remove:
  assumes s: "seg f h (xs @ b # ys) h" and d: "distinct (h # xs @ b # ys)"
  shows "seg (f(last (h # xs) := f b)) h (xs @ ys) h"
proof -
  have 1: "seg f h xs b" and 2: "seg f b ys h" using s by (simp_all add: seg_append)
  have l: "last (h # xs) \<in> set (h # xs)" by (rule last_in_set) simp
  show ?thesis
  proof (cases ys)
    case Nil
    then show ?thesis using 2 seg_upd_last [OF 1, of h] d by simp
  next
    case (Cons y zs)
    have "last (h # xs) \<notin> set ys" "last (h # xs) \<noteq> b" using l d by auto
    then have "seg (f(last (h # xs) := f b)) y zs h"
      using 2 Cons seg_upd_other [of "last (h # xs)" y zs f "f b" h] by auto
    moreover have "f b = y" using 2 Cons by simp
    moreover have "seg (f(last (h # xs) := y)) h xs y" using seg_upd_last [OF 1] d by simp
    ultimately show ?thesis using Cons by (simp add: seg_append)
  qed
qed

lemma seg_push:
  assumes "seg f h xs h" and "b \<notin> set xs" and "b \<noteq> h" and "h \<notin> set xs"
  shows "seg (f(b := f h, h := b)) h (b # xs) h"
proof (cases xs)
  case Nil
  then show ?thesis using assms by simp
next
  case (Cons x ys)
  then have "seg (f(b := f h, h := b)) x ys h = seg f x ys h"
    using assms by (intro seg_cong) auto
  then show ?thesis using assms Cons by simp
qed

lemma seg_snoc:
  assumes "seg f h xs h" and "distinct (h # xs)" and "b \<notin> set (h # xs)"
  shows "seg (f(b := h, last (h # xs) := b)) h (xs @ [b]) h"
proof -
  have l: "last (h # xs) \<in> set (h # xs)" by (rule last_in_set) simp
  have "seg (f(last (h # xs) := b)) h xs b" using seg_upd_last assms by blast
  moreover have "seg (f(b := h, last (h # xs) := b)) h xs b = seg (f(last (h # xs) := b)) h xs b"
    using assms(3) by (intro seg_cong) auto
  moreover have "last (h # xs) \<noteq> b" using l assms(3) by metis
  ultimately show ?thesis by (simp add: seg_append)
qed

section \<open>The links of the cache\<close>

definition nxt :: "bstate \<Rightarrow> nat \<Rightarrow> nat" where
  "nxt s i = (if i \<le> NBUF then bnext (bufs s ! i) else i)"

definition prv :: "bstate \<Rightarrow> nat \<Rightarrow> nat" where
  "prv s i = (if i \<le> NBUF then bprev (bufs s ! i) else i)"

definition lru_part :: "bstate \<Rightarrow> nat list \<Rightarrow> bool" where
  "lru_part s ord \<longleftrightarrow> length (bufs s) = NBUF + 1 \<and> distinct ord \<and> set ord \<subseteq> {..<NBUF} \<and>
     seg (nxt s) bhead ord bhead \<and> seg (prv s) bhead (rev ord) bhead"

definition lru :: "bstate \<Rightarrow> nat list \<Rightarrow> bool" where
  "lru s ord \<longleftrightarrow> lru_part s ord \<and> set ord = {..<NBUF}"

text \<open>What is left of a buffer when the links are taken away.\<close>

definition core :: "buf \<Rightarrow> buf" where
  "core b = b\<lparr>bprev := 0, bnext := 0\<rparr>"

definition same_core :: "bstate \<Rightarrow> bstate \<Rightarrow> bool" where
  "same_core s s' \<longleftrightarrow> length (bufs s') = length (bufs s) \<and> (\<forall>i < length (bufs s). core (bufs s' ! i) = core (bufs s ! i)) \<and>
     disk s' = disk s \<and> curpid s' = curpid s \<and> wtrace s' = wtrace s"

lemma bufs_upd_buf:
  "j < length (bufs s) \<Longrightarrow> bufs (upd_buf i f s) ! j = (if i = j then f (bufs s ! i) else bufs s ! j)"
  by (simp add: upd_buf_def nth_list_update)

lemma upd_buf_simps [simp]:
  "length (bufs (upd_buf i f s)) = length (bufs s)"
  "disk (upd_buf i f s) = disk s" "curpid (upd_buf i f s) = curpid s" "wtrace (upd_buf i f s) = wtrace s"
  "write_count (upd_buf i f s) = write_count s" "read_count (upd_buf i f s) = read_count s"
  by (simp_all add: upd_buf_def)

lemma core_links [simp]: "core (b\<lparr>bprev := p\<rparr>) = core b" "core (b\<lparr>bnext := n\<rparr>) = core b"
  by (simp_all add: core_def)

lemma same_core_refl [simp]: "same_core s s"
  by (simp add: same_core_def)

lemma same_core_trans: "same_core s t \<Longrightarrow> same_core t u \<Longrightarrow> same_core s u"
  by (simp add: same_core_def)

lemma same_core_upd: "same_core s t \<Longrightarrow> (\<And>b. core (f b) = core b) \<Longrightarrow> same_core s (upd_buf i f t)"
  by (simp add: same_core_def bufs_upd_buf)

lemma lru_insert_links:
  assumes "length (bufs s) = NBUF + 1" and "b < NBUF" and "nxt s bhead \<noteq> b" and "nxt s bhead \<le> NBUF"
  shows "nxt (lru_insert b s) = (nxt s)(b := nxt s bhead, bhead := b)"
    and "prv (lru_insert b s) = (prv s)(b := bhead, nxt s bhead := b)"
    and "same_core s (lru_insert b s)"
proof -
  show "nxt (lru_insert b s) = (nxt s)(b := nxt s bhead, bhead := b)"
    using assms by (auto simp: lru_insert_def Let_def bufs_upd_buf fun_eq_iff nxt_def prv_def)
  show "prv (lru_insert b s) = (prv s)(b := bhead, nxt s bhead := b)"
    using assms by (auto simp: lru_insert_def Let_def bufs_upd_buf fun_eq_iff nxt_def prv_def)
  show "same_core s (lru_insert b s)"
    unfolding lru_insert_def Let_def by (intro same_core_upd same_core_refl) simp_all
qed

lemma lru_remove_links:
  assumes "length (bufs s) = NBUF + 1" and "b < NBUF" and "nxt s b \<noteq> b" "nxt s b \<le> NBUF" "prv s b \<le> NBUF"
  shows "nxt (lru_remove b s) = (nxt s)(prv s b := nxt s b)"
    and "prv (lru_remove b s) = (prv s)(nxt s b := prv s b)"
    and "same_core s (lru_remove b s)"
proof -
  show "nxt (lru_remove b s) = (nxt s)(prv s b := nxt s b)"
    using assms by (auto simp: lru_remove_def Let_def bufs_upd_buf fun_eq_iff nxt_def prv_def)
  show "prv (lru_remove b s) = (prv s)(nxt s b := prv s b)"
    using assms by (auto simp: lru_remove_def Let_def bufs_upd_buf fun_eq_iff nxt_def prv_def)
  show "same_core s (lru_remove b s)"
    unfolding lru_remove_def Let_def by (intro same_core_upd same_core_refl) simp_all
qed


section \<open>List operations\<close>

lemma seg_bound: "seg f a xs c \<Longrightarrow> set xs \<subseteq> {..<n} \<Longrightarrow> c \<le> n \<Longrightarrow> x = a \<or> x \<in> set xs \<Longrightarrow> f x \<le> n"
  by (induction xs arbitrary: a) (auto simp: less_imp_le)

lemma seg_not_self: "seg f a (xs @ b # ys) c \<Longrightarrow> distinct (xs @ b # ys) \<Longrightarrow> c \<noteq> b \<Longrightarrow> f b \<noteq> b"
  by (cases ys) (auto simp: seg_append)

lemma lru_part_bounds:
  assumes "lru_part s ord" and "x = bhead \<or> x \<in> set ord"
  shows "nxt s x \<le> NBUF" and "prv s x \<le> NBUF"
  using assms seg_bound [of "nxt s" bhead ord bhead NBUF x] seg_bound [of "prv s" bhead "rev ord" bhead NBUF x]
  by (auto simp: lru_part_def)

lemma lru_insert_part:
  assumes l: "lru_part s ord" and b: "b < NBUF" "b \<notin> set ord"
  shows "lru_part (lru_insert b s) (b # ord)"
proof -
  have len: "length (bufs s) = NBUF + 1" and dist: "distinct ord" and sub: "set ord \<subseteq> {..<NBUF}"
    and sn: "seg (nxt s) bhead ord bhead" and sp: "seg (prv s) bhead (rev ord) bhead"
    using l by (auto simp: lru_part_def)
  have hn: "bhead \<notin> set ord" using sub by auto
  have first: "nxt s bhead = last (bhead # rev ord)"
    using seg_hd [OF sn] by (cases ord) simp_all
  have "nxt s bhead \<noteq> b" using seg_hd [OF sn] b by (cases ord) auto
  note li = lru_insert_links [OF len b(1) this lru_part_bounds(1) [OF l]]
  have n: "seg (nxt (lru_insert b s)) bhead (b # ord) bhead"
    using seg_push [OF sn b(2) _ hn] b(1) li(1) by simp
  have p: "seg (prv (lru_insert b s)) bhead (rev ord @ [b]) bhead"
    using seg_snoc [OF sp, of b] b dist hn li(2) unfolding first by simp
  have "length (bufs (lru_insert b s)) = NBUF + 1" using li(3) len by (simp add: same_core_def)
  then show ?thesis using n p dist sub b by (simp add: lru_part_def)
qed

lemma lru_remove_part:
  assumes l: "lru_part s (xs @ b # ys)"
  shows "lru_part (lru_remove b s) (xs @ ys)" and "same_core s (lru_remove b s)"
proof -
  have len: "length (bufs s) = NBUF + 1" and dist: "distinct (xs @ b # ys)"
    and sub: "set (xs @ b # ys) \<subseteq> {..<NBUF}"
    and sn: "seg (nxt s) bhead (xs @ b # ys) bhead" and sp: "seg (prv s) bhead (rev ys @ b # rev xs) bhead"
    using l by (auto simp: lru_part_def)
  have b: "b < NBUF" using sub by simp
  have dh: "distinct (bhead # xs @ b # ys)" "distinct (bhead # rev ys @ b # rev xs)" using dist sub by auto
  have pb: "prv s b = last (bhead # xs)"
    using seg_hd [of "prv s" b "rev xs" bhead] sp by (cases xs rule: rev_cases) (simp_all add: seg_append)
  have nb: "nxt s b = last (bhead # rev ys)"
    using seg_hd [of "nxt s" b ys bhead] sn by (cases ys) (simp_all add: seg_append)
  have "nxt s b \<noteq> b" using seg_not_self [OF sn dist] b by simp
  note lr = lru_remove_links [OF len b this]
  have bd: "nxt s b \<le> NBUF" "prv s b \<le> NBUF" using lru_part_bounds [OF l, of b] by simp_all
  show core: "same_core s (lru_remove b s)" using lr(3) bd by blast
  have "seg (nxt (lru_remove b s)) bhead (xs @ ys) bhead"
    using seg_remove [OF sn dh(1)] lr(1) bd pb by simp
  moreover have "seg (prv (lru_remove b s)) bhead (rev ys @ rev xs) bhead"
    using seg_remove [OF sp dh(2)] lr(2) bd nb by simp
  moreover have "length (bufs (lru_remove b s)) = NBUF + 1" using core len by (simp add: same_core_def)
  ultimately show "lru_part (lru_remove b s) (xs @ ys)" using dist sub by (auto simp: lru_part_def)
qed

text \<open>\<open>brelse\<close> moves the buffer to the front.\<close>

lemma lru_move_front:
  assumes "lru s ord" and "b < NBUF"
  shows "lru (lru_insert b (lru_remove b s)) (b # remove1 b ord)"
    and "same_core s (lru_insert b (lru_remove b s))"
proof -
  obtain xs ys where ord: "ord = xs @ b # ys" using assms by (metis lessThan_iff lru_def split_list)
  have l: "lru_part s (xs @ b # ys)" and set: "set (xs @ b # ys) = {..<NBUF}"
    using assms(1) ord by (auto simp: lru_def)
  then have d: "b \<notin> set xs" "b \<notin> set ys" by (auto simp: lru_part_def)
  have r: "remove1 b ord = xs @ ys" using ord d by (simp add: remove1_append)
  have i: "lru_part (lru_insert b (lru_remove b s)) (b # xs @ ys)"
    using lru_insert_part [OF lru_remove_part(1) [OF l] assms(2)] d by simp
  moreover have "set (b # xs @ ys) = {..<NBUF}" using set by auto
  ultimately show "lru (lru_insert b (lru_remove b s)) (b # remove1 b ord)" using r by (simp add: lru_def)
  have len: "length (bufs (lru_remove b s)) = NBUF + 1" using lru_remove_part(1) [OF l] by (simp add: lru_part_def)
  have "nxt (lru_remove b s) bhead \<noteq> b"
  proof -
    define zs where "zs = xs @ ys"
    have "b \<notin> set zs" "seg (nxt (lru_remove b s)) bhead zs bhead"
      using d lru_remove_part(1) [OF l] by (simp_all add: zs_def lru_part_def)
    then show ?thesis using assms(2) seg_hd by (cases zs) auto
  qed
  then show "same_core s (lru_insert b (lru_remove b s))"
    using same_core_trans [OF lru_remove_part(2) [OF l]] lru_insert_links(3) [OF len assms(2)]
      lru_part_bounds(1) [OF lru_remove_part(1) [OF l]] by blast
qed


section \<open>The searches\<close>

lemma bget_find_seg:
  assumes "seg (nxt s) a ys bhead" and "set ys \<subseteq> {..<NBUF}" and "length ys < n"
  shows "bget_find n s (nxt s a) dev bn =
    Ok (find (\<lambda>b. bdev (bufs s ! b) = dev \<and> blockno (bufs s ! b) = bn) ys)"
  using assms
proof (induction ys arbitrary: a n)
  case Nil
  then show ?case by (cases n) simp_all
next
  case (Cons y ys)
  then obtain k where n: "n = Suc k" by (cases n) simp_all
  have y: "nxt s a = y" "y < NBUF" "nxt s y = bnext (bufs s ! y)" using Cons.prems by (simp_all add: nxt_def)
  have "bget_find k s (nxt s y) dev bn =
      Ok (find (\<lambda>b. bdev (bufs s ! b) = dev \<and> blockno (bufs s ! b) = bn) ys)"
    by (rule Cons.IH) (use Cons.prems n in simp_all)
  then show ?case using n y by auto
qed

lemma bget_lru_seg:
  assumes "seg (prv s) a ys bhead" and "set ys \<subseteq> {..<NBUF}" and "length ys < n"
  shows "bget_lru n s (prv s a) = Ok (find (\<lambda>b. refcnt (bufs s ! b) = 0) ys)"
  using assms
proof (induction ys arbitrary: a n)
  case Nil
  then show ?case by (cases n) simp_all
next
  case (Cons y ys)
  then obtain k where n: "n = Suc k" by (cases n) simp_all
  have y: "prv s a = y" "y < NBUF" "prv s y = bprev (bufs s ! y)" using Cons.prems by (simp_all add: prv_def)
  have "bget_lru k s (prv s y) = Ok (find (\<lambda>b. refcnt (bufs s ! b) = 0) ys)"
    by (rule Cons.IH) (use Cons.prems n in simp_all)
  then show ?case using n y by auto
qed

lemma lru_length: "lru s ord \<Longrightarrow> length ord = NBUF"
proof -
  assume "lru s ord"
  then have "distinct ord" "set ord = {..<NBUF}" by (simp_all add: lru_def lru_part_def)
  then show ?thesis using distinct_card [of ord] by simp
qed

lemma bget_searches:
  assumes "lru s ord"
  shows "bget_find (NBUF + 1) s (bnext (bufs s ! bhead)) dev bn =
      Ok (find (\<lambda>b. bdev (bufs s ! b) = dev \<and> blockno (bufs s ! b) = bn) ord)"
    and "bget_lru (NBUF + 1) s (bprev (bufs s ! bhead)) = Ok (find (\<lambda>b. refcnt (bufs s ! b) = 0) (rev ord))"
proof -
  have l: "seg (nxt s) bhead ord bhead" "seg (prv s) bhead (rev ord) bhead" "set ord \<subseteq> {..<NBUF}"
    using assms by (simp_all add: lru_def lru_part_def)
  have h: "nxt s bhead = bnext (bufs s ! bhead)" "prv s bhead = bprev (bufs s ! bhead)"
    by (simp_all add: nxt_def prv_def)
  show "bget_find (NBUF + 1) s (bnext (bufs s ! bhead)) dev bn =
      Ok (find (\<lambda>b. bdev (bufs s ! b) = dev \<and> blockno (bufs s ! b) = bn) ord)"
    using bget_find_seg [OF l(1,3), of "NBUF + 1" dev bn] lru_length [OF assms] unfolding h by simp
  show "bget_lru (NBUF + 1) s (bprev (bufs s ! bhead)) = Ok (find (\<lambda>b. refcnt (bufs s ! b) = 0) (rev ord))"
    using bget_lru_seg [OF l(2), of "NBUF + 1"] l(3) lru_length [OF assms] unfolding h by simp
qed

text \<open>Updates that leave the links alone keep the list.\<close>

lemma lru_upd_buf:
  assumes "\<And>x. bnext (f x) = bnext x" and "\<And>x. bprev (f x) = bprev x"
  shows "lru (upd_buf i f s) ord = lru s ord" and "lru_part (upd_buf i f s) ord = lru_part s ord"
proof -
  have eq: "nxt (upd_buf i f s) j = nxt s j" "prv (upd_buf i f s) j = prv s j"
    if "length (bufs s) = NBUF + 1" for j
    using that assms by (simp_all add: nxt_def prv_def bufs_upd_buf)
  show "lru_part (upd_buf i f s) ord = lru_part s ord"
  proof (cases "length (bufs s) = NBUF + 1")
    case True
    then have "nxt (upd_buf i f s) = nxt s" "prv (upd_buf i f s) = prv s" using eq by (auto simp: fun_eq_iff)
    then show ?thesis by (simp add: lru_part_def)
  qed (simp add: lru_part_def)
  then show "lru (upd_buf i f s) ord = lru s ord" by (simp add: lru_def)
qed

lemma lru_cong:
  assumes "length (bufs s') = length (bufs s)"
    and "\<And>i. i < length (bufs s) \<Longrightarrow> bnext (bufs s' ! i) = bnext (bufs s ! i) \<and> bprev (bufs s' ! i) = bprev (bufs s ! i)"
  shows "lru s' ord = lru s ord"
proof (cases "length (bufs s) = NBUF + 1")
  case True
  then have "nxt s' = nxt s" "prv s' = prv s" using assms by (auto simp: fun_eq_iff nxt_def prv_def)
  then show ?thesis using assms(1) by (simp add: lru_def lru_part_def)
qed (use assms(1) in \<open>simp add: lru_def lru_part_def\<close>)

text \<open>\<open>binit\<close> links every buffer.\<close>

lemma binit_lru:
  assumes "length (bufs s) = NBUF + 1"
  shows "lru (binit s) (rev [0..<NBUF])"
proof -
  define s2 where "s2 = upd_buf bhead (\<lambda>x. x\<lparr>bnext := bhead\<rparr>) (upd_buf bhead (\<lambda>x. x\<lparr>bprev := bhead\<rparr>) s)"
  have base: "lru_part s2 []"
    using assms by (simp add: s2_def lru_part_def nxt_def prv_def bufs_upd_buf)
  have "lru_part (fold (\<lambda>b s. upd_buf b (\<lambda>x. x\<lparr>block := initsleeplock\<rparr>) (lru_insert b s)) [0..<n] s2) (rev [0..<n])"
    if "n \<le> NBUF" for n
    using that
  proof (induction n)
    case (Suc n)
    then show ?case by (simp add: lru_upd_buf lru_insert_part)
  qed (simp add: base)
  from this [of NBUF] have "lru_part (binit s) (rev [0..<NBUF])"
    by (simp only: binit_def s2_def Let_def order_refl)
  moreover have "set (rev [0..<NBUF]) = {..<NBUF}" by auto
  ultimately show ?thesis unfolding lru_def by blast
qed

end
