(* ===== verification/Xv6_Bio_Spec.thy ===== *)
theory Xv6_Bio_Spec
  imports Xv6_Bio_Lru
begin

text \<open>
  What the buffer cache promises. \<open>lblock s bn\<close> is the current contents of a block: the data of the
  buffer that caches it, else the block on the disk. The invariant \<open>bc_inv\<close> says that no block is
  cached twice and that an unreferenced buffer is unlocked and clean, so that recycling it loses nothing.
\<close>

section \<open>The block driver\<close>

text \<open>The contract of a block device, which the RAM disk fulfils.\<close>

locale block_driver =
  fixes rd :: "'d \<Rightarrow> nat \<Rightarrow> byte list"
    and wr :: "nat \<Rightarrow> byte list \<Rightarrow> 'd \<Rightarrow> 'd"
  assumes rd_length: "length (rd d n) = BSIZE"
    and rd_wr_same: "length bs = BSIZE \<Longrightarrow> rd (wr n bs d) n = bs"
    and rd_wr_other: "length bs = BSIZE \<Longrightarrow> n' \<noteq> n \<Longrightarrow> rd (wr n bs d) n' = rd d n'"
begin

text \<open>After a sequence of writes, a block holds the last one to it.\<close>

lemma rd_fold:
  assumes "\<forall>(n, bs) \<in> set ws. length bs = BSIZE"
  shows "rd (fold (\<lambda>(n, bs). wr n bs) ws d) k = (case map_of (rev ws) k of None \<Rightarrow> rd d k | Some bs \<Rightarrow> bs)"
  using assms
proof (induction ws arbitrary: d)
  case (Cons w ws)
  obtain n bs where w: "w = (n, bs)" by (cases w)
  have "rd (fold (\<lambda>(n, bs). wr n bs) ws (wr n bs d)) k =
      (case map_of (rev ws) k of None \<Rightarrow> rd (wr n bs d) k | Some bs \<Rightarrow> bs)"
    using Cons by simp
  then show ?case
    using Cons.prems w rd_wr_same [of bs n d] rd_wr_other [of bs k n d]
    by (auto simp: map_add_def split: option.splits)
qed simp

lemma rd_fold_notin:
  assumes "\<forall>(n, bs) \<in> set ws. length bs = BSIZE" and "k \<notin> fst ` set ws"
  shows "rd (fold (\<lambda>(n, bs). wr n bs) ws d) k = rd d k"
proof -
  have "map_of (rev ws) k = None" using assms(2) by (simp add: map_of_eq_None_iff)
  then show ?thesis using rd_fold [OF assms(1)] by simp
qed

end

definition put_block :: "nat \<Rightarrow> byte list \<Rightarrow> (nat \<Rightarrow> byte) \<Rightarrow> nat \<Rightarrow> byte" where
  "put_block bn bs d = disk_put d (bn * BSIZE) bs"

lemma length_disk_block [simp]: "length (disk_block d bn) = BSIZE"
  by (simp add: disk_block_def)

lemma disk_block_put:
  assumes "length bs = BSIZE"
  shows "disk_block (put_block bn bs d) bn' = (if bn' = bn then bs else disk_block d bn')"
proof (cases "bn' = bn")
  case True
  then show ?thesis
    using assms by (auto simp: disk_block_def put_block_def disk_put_def intro!: nth_equalityI)
next
  case False
  have "bn' * BSIZE + BSIZE \<le> bn * BSIZE \<or> bn * BSIZE + BSIZE \<le> bn' * BSIZE"
    using False by (cases "bn' < bn") auto
  then show ?thesis
    using assms False by (auto simp: disk_block_def put_block_def disk_put_def)
qed

interpretation ram: block_driver disk_block put_block
  by unfold_locales (simp_all add: disk_block_put)

section \<open>Invariant and contents\<close>

definition holds_block :: "bstate \<Rightarrow> nat \<Rightarrow> u32 \<Rightarrow> bool" where
  "holds_block s i bn \<longleftrightarrow> i < NBUF \<and> bdev (bufs s ! i) = 1 \<and> blockno (bufs s ! i) = bn"

definition buf_ok :: "(nat \<Rightarrow> byte) \<Rightarrow> buf \<Rightarrow> bool" where
  "buf_ok d b \<longleftrightarrow> length (bdata b) = BSIZE \<and>
     (bdev b = 1 \<or> bdev b = 0 \<and> refcnt b = 0 \<and> \<not> bvalid b) \<and>
     (refcnt b = 0 \<longrightarrow> \<not> slocked (block b) \<and> (bvalid b \<longrightarrow> bdata b = disk_block d (unat (blockno b))))"

definition bc_inv :: "bstate \<Rightarrow> bool" where
  "bc_inv s \<longleftrightarrow> (\<exists>ord. lru s ord) \<and> (\<forall>i < NBUF. buf_ok (disk s) (bufs s ! i)) \<and>
     (\<forall>i j bn. holds_block s i bn \<longrightarrow> holds_block s j bn \<longrightarrow> i = j)"

definition lblock :: "bstate \<Rightarrow> u32 \<Rightarrow> byte list" where
  "lblock s bn =
     (case find (\<lambda>i. holds_block s i bn \<and> bvalid (bufs s ! i)) [0..<NBUF] of
        Some i \<Rightarrow> bdata (bufs s ! i)
      | None \<Rightarrow> disk_block (disk s) (unat bn))"

lemma bc_inv_length: "bc_inv s \<Longrightarrow> length (bufs s) = NBUF + 1"
  by (auto simp: bc_inv_def lru_def lru_part_def)

lemma bc_inv_buf: "bc_inv s \<Longrightarrow> i < NBUF \<Longrightarrow> buf_ok (disk s) (bufs s ! i)"
  by (simp add: bc_inv_def)

lemma bc_inv_unique: "bc_inv s \<Longrightarrow> holds_block s i bn \<Longrightarrow> holds_block s j bn \<Longrightarrow> i = j"
  unfolding bc_inv_def by blast

lemma find_upt_None: "find P [0..<n] = None \<longleftrightarrow> (\<forall>i < n. \<not> P i)"
  by (auto simp: find_None_iff)

lemma find_upt_Some: "find P [0..<n] = Some i \<Longrightarrow> i < n \<and> P i"
  by (auto simp: find_Some_iff)

lemma lblock_cached:
  assumes "bc_inv s" and "holds_block s i bn" and "bvalid (bufs s ! i)"
  shows "lblock s bn = bdata (bufs s ! i)"
proof (cases "find (\<lambda>i. holds_block s i bn \<and> bvalid (bufs s ! i)) [0..<NBUF]")
  case None
  moreover have "i < NBUF" using assms(2) by (simp add: holds_block_def)
  ultimately show ?thesis using assms(2,3) unfolding find_upt_None by blast
next
  case (Some j)
  then have "holds_block s j bn" using find_upt_Some [OF Some] by simp
  then show ?thesis using bc_inv_unique [OF assms(1,2)] Some by (simp add: lblock_def)
qed

lemma lblock_uncached:
  "(\<And>i. holds_block s i bn \<Longrightarrow> \<not> bvalid (bufs s ! i)) \<Longrightarrow> lblock s bn = disk_block (disk s) (unat bn)"
  unfolding lblock_def by (auto split: option.split dest!: find_upt_Some)

lemma length_lblock: "bc_inv s \<Longrightarrow> length (lblock s bn) = BSIZE"
  using bc_inv_buf by (auto simp: lblock_def buf_ok_def split: option.split dest!: find_upt_Some)

text \<open>Contents are determined by the valid buffers and the disk.\<close>

lemma lblock_eqI:
  assumes "bc_inv s" and "bc_inv s'" and "disk s' = disk s"
    and "\<And>i. holds_block s i bn \<and> bvalid (bufs s ! i) \<Longrightarrow>
      (holds_block s' i bn \<and> bvalid (bufs s' ! i) \<and> bdata (bufs s' ! i) = bdata (bufs s ! i)) \<or>
      (\<nexists>j. holds_block s' j bn \<and> bvalid (bufs s' ! j)) \<and> bdata (bufs s ! i) = disk_block (disk s) (unat bn)"
    and "\<And>i. holds_block s' i bn \<and> bvalid (bufs s' ! i) \<Longrightarrow>
      (\<exists>j. holds_block s j bn \<and> bvalid (bufs s ! j)) \<or> bdata (bufs s' ! i) = disk_block (disk s) (unat bn)"
  shows "lblock s' bn = lblock s bn"
proof (cases "\<exists>i. holds_block s i bn \<and> bvalid (bufs s ! i)")
  case True
  then obtain i where i: "holds_block s i bn" "bvalid (bufs s ! i)" by blast
  from assms(4) [OF conjI [OF i]] show ?thesis
  proof
    assume "holds_block s' i bn \<and> bvalid (bufs s' ! i) \<and> bdata (bufs s' ! i) = bdata (bufs s ! i)"
    then show ?thesis using lblock_cached [OF assms(1) i] lblock_cached [OF assms(2), of i] by simp
  next
    assume "(\<nexists>j. holds_block s' j bn \<and> bvalid (bufs s' ! j)) \<and> bdata (bufs s ! i) = disk_block (disk s) (unat bn)"
    then show ?thesis
      using lblock_cached [OF assms(1) i] lblock_uncached [of s' bn] assms(3) by fastforce
  qed
next
  case False
  then have old: "lblock s bn = disk_block (disk s) (unat bn)" using lblock_uncached by blast
  show ?thesis
  proof (cases "\<exists>i. holds_block s' i bn \<and> bvalid (bufs s' ! i)")
    case True
    then obtain i where i: "holds_block s' i bn" "bvalid (bufs s' ! i)" by blast
    then show ?thesis using assms(5) [OF conjI [OF i]] False old lblock_cached [OF assms(2) i] by auto
  next
    case F: False
    then have "lblock s' bn = disk_block (disk s') (unat bn)" using lblock_uncached by blast
    then show ?thesis using old assms(3) by simp
  qed
qed


section \<open>Changing one buffer\<close>

lemma holds_upd:
  assumes "length (bufs s) = NBUF + 1" and "b < NBUF"
  shows "holds_block (upd_buf b f s) i bn \<longleftrightarrow>
    (if i = b then bdev (f (bufs s ! b)) = 1 \<and> blockno (f (bufs s ! b)) = bn else holds_block s i bn)"
  using assms by (auto simp: holds_block_def bufs_upd_buf)

lemma bc_inv_upd:
  assumes inv: "bc_inv s" and b: "b < NBUF"
    and links: "\<And>x. bnext (f x) = bnext x" "\<And>x. bprev (f x) = bprev x"
    and ok: "buf_ok (disk s) (f (bufs s ! b))"
    and uniq: "\<And>j. bdev (f (bufs s ! b)) = 1 \<Longrightarrow> holds_block s j (blockno (f (bufs s ! b))) \<Longrightarrow> j = b"
  shows "bc_inv (upd_buf b f s)"
proof -
  note len = bc_inv_length [OF inv]
  have "\<exists>ord. lru (upd_buf b f s) ord" using inv lru_upd_buf(1) [of f b s, OF links] by (auto simp: bc_inv_def)
  moreover have "buf_ok (disk (upd_buf b f s)) (bufs (upd_buf b f s) ! i)" if "i < NBUF" for i
    using that ok bc_inv_buf [OF inv that] len by (auto simp: bufs_upd_buf)
  moreover have "i = j" if "holds_block (upd_buf b f s) i bn" "holds_block (upd_buf b f s) j bn" for i j bn
  proof -
    have i: "if i = b then bdev (f (bufs s ! b)) = 1 \<and> blockno (f (bufs s ! b)) = bn else holds_block s i bn"
      and j: "if j = b then bdev (f (bufs s ! b)) = 1 \<and> blockno (f (bufs s ! b)) = bn else holds_block s j bn"
      using that unfolding holds_upd [OF len b] .
    show ?thesis
    proof (cases "i = b"; cases "j = b")
      assume ij: "i = b" "j \<noteq> b"
      then have "holds_block s j bn" "bdev (f (bufs s ! b)) = 1" "bn = blockno (f (bufs s ! b))" using i j by simp_all
      then have "j = b" using uniq [of j] by blast
      then show ?thesis using ij by blast
    next
      assume ij: "i \<noteq> b" "j = b"
      then have "holds_block s i bn" "bdev (f (bufs s ! b)) = 1" "bn = blockno (f (bufs s ! b))" using i j by simp_all
      then have "i = b" using uniq [of i] by blast
      then show ?thesis using ij by blast
    next
      assume "i \<noteq> b" "j \<noteq> b"
      then have "holds_block s i bn" "holds_block s j bn" using i j by simp_all
      then show ?thesis by (rule bc_inv_unique [OF inv])
    qed simp
  qed
  ultimately show ?thesis by (simp add: bc_inv_def)
qed

lemma lblock_upd_same:
  assumes inv: "bc_inv s" "bc_inv (upd_buf b f s)" and b: "b < NBUF"
    and same: "bdev (f (bufs s ! b)) = bdev (bufs s ! b)" "blockno (f (bufs s ! b)) = blockno (bufs s ! b)"
      "bvalid (f (bufs s ! b)) = bvalid (bufs s ! b)" "bdata (f (bufs s ! b)) = bdata (bufs s ! b)"
  shows "lblock (upd_buf b f s) bn = lblock s bn"
proof -
  note len = bc_inv_length [OF inv(1)]
  have eq: "holds_block (upd_buf b f s) i bn \<and> bvalid (bufs (upd_buf b f s) ! i) \<longleftrightarrow>
      holds_block s i bn \<and> bvalid (bufs s ! i)" for i
    using len b same by (cases "i = b") (auto simp: bufs_upd_buf holds_block_def)
  have "bdata (bufs (upd_buf b f s) ! i) = bdata (bufs s ! i)" if "holds_block s i bn" for i
    using that len same by (cases "i = b") (auto simp: bufs_upd_buf holds_block_def)
  then show ?thesis using eq by (intro lblock_eqI inv) auto
qed

lemma upd_buf_upd_buf: "b < length (bufs s) \<Longrightarrow> upd_buf b g (upd_buf b f s) = upd_buf b (\<lambda>x. g (f x)) s"
  by (simp add: upd_buf_def)

section \<open>bread\<close>

definition held :: "int \<Rightarrow> sleeplock" where
  "held pid = \<lparr>slocked = True, spid = pid\<rparr>"

lemma lock_buf_eq:
  "b < length (bufs s) \<Longrightarrow>
   lock_buf b s = (if slocked (block (bufs s ! b)) then Blocks
     else Ok (b, upd_buf b (\<lambda>x. x\<lparr>block := held (curpid s)\<rparr>) s))"
  by (cases "block (bufs s ! b)") (simp add: lock_buf_def acquiresleep_def held_def)

lemma bget_cases:
  assumes inv: "bc_inv s" and get: "bget 1 bn s = Ok (b, s1)"
  obtains
    (cached) "holds_block s b bn" "\<not> slocked (block (bufs s ! b))"
      "s1 = upd_buf b (\<lambda>x. x\<lparr>refcnt := refcnt x + 1, block := held (curpid s)\<rparr>) s"
  | (recycled) "b < NBUF" "\<And>j. \<not> holds_block s j bn" "refcnt (bufs s ! b) = 0"
      "s1 = upd_buf b (\<lambda>x. x\<lparr>bdev := 1, blockno := bn, bvalid := False, refcnt := 1, block := held (curpid s)\<rparr>) s"
proof -
  obtain ord where ord: "lru s ord" using inv by (auto simp: bc_inv_def)
  have set: "set ord = {..<NBUF}" using ord by (simp add: lru_def)
  note len = bc_inv_length [OF inv]
  note search = bget_searches [OF ord]
  show ?thesis
  proof (cases "find (\<lambda>b. bdev (bufs s ! b) = 1 \<and> blockno (bufs s ! b) = bn) ord")
    case (Some c)
    then have c: "c < NBUF" "bdev (bufs s ! c) = 1" "blockno (bufs s ! c) = bn"
      using set by (auto simp: find_Some_iff)
    have "lock_buf c (upd_buf c (\<lambda>x. x\<lparr>refcnt := refcnt x + 1\<rparr>) s) = Ok (b, s1)"
      using get Some search(1) [of 1 bn] by (simp add: bget_def)
    then have "b = c" "\<not> slocked (block (bufs s ! b))"
      "s1 = upd_buf b (\<lambda>x. x\<lparr>refcnt := refcnt x + 1, block := held (curpid s)\<rparr>) s"
      using c len by (auto simp: lock_buf_eq bufs_upd_buf upd_buf_upd_buf split: if_splits)
    then show ?thesis using cached c by (simp add: holds_block_def)
  next
    case None
    then have no: "\<not> holds_block s j bn" for j using set by (auto simp: find_None_iff holds_block_def)
    show ?thesis
    proof (cases "find (\<lambda>b. refcnt (bufs s ! b) = 0) (rev ord)")
      case F: None
      then show ?thesis using get None search by (simp add: bget_def)
    next
      case (Some c)
      then have c: "c < NBUF" "refcnt (bufs s ! c) = 0" using set by (auto simp: find_Some_iff rev_nth)
      have "lock_buf c (upd_buf c (\<lambda>x. x\<lparr>bdev := 1, blockno := bn, bvalid := False, refcnt := 1\<rparr>) s) = Ok (b, s1)"
        using get None Some search by (simp add: bget_def)
      then have "b = c" "s1 = upd_buf b (\<lambda>x. x\<lparr>bdev := 1, blockno := bn, bvalid := False, refcnt := 1,
          block := held (curpid s)\<rparr>) s"
        using c len by (auto simp: lock_buf_eq bufs_upd_buf upd_buf_upd_buf split: if_splits)
      then show ?thesis using recycled [OF _ no] c by simp
    qed
  qed
qed


text \<open>The buffer that \<open>bread\<close> returns, and what else changes: nothing.\<close>

definition got :: "bstate \<Rightarrow> u32 \<Rightarrow> nat \<Rightarrow> bstate \<Rightarrow> bool" where
  "got s bn b s' \<longleftrightarrow>
     b < NBUF \<and> bc_inv s' \<and> disk s' = disk s \<and> wtrace s' = wtrace s \<and> curpid s' = curpid s \<and>
     (\<forall>i < NBUF. i \<noteq> b \<longrightarrow> bufs s' ! i = bufs s ! i) \<and> (\<forall>x. lblock s' x = lblock s x) \<and>
     holds_block s' b bn \<and> bvalid (bufs s' ! b) \<and> bdata (bufs s' ! b) = lblock s bn \<and>
     block (bufs s' ! b) = held (curpid s) \<and>
     refcnt (bufs s' ! b) = (if holds_block s b bn then refcnt (bufs s ! b) else 0) + 1 \<and>
     (holds_block s b bn \<or> refcnt (bufs s ! b) = 0)"

lemma ramdisk_read_eq:
  assumes "unat (blockno (bufs s ! b)) < RAMDISK_BLOCKS"
  shows "virtio_disk_rw b False s =
    Ok ((upd_buf b (\<lambda>x. x\<lparr>bdata := disk_block (disk s) (unat (blockno (bufs s ! b)))\<rparr>) s)\<lparr>read_count := read_count s + 1\<rparr>)"
proof -
  have "unat (blockno (bufs s ! b) * 1024) = unat (blockno (bufs s ! b)) * 1024"
    using assms by (subst unat_mult_lem [THEN iffD1]) auto
  then show ?thesis using assms by (simp add: virtio_disk_rw_def ramdisk_rw_def Let_def disk_block_def)
qed

lemma bc_inv_counts [simp]:
  "bc_inv (s\<lparr>read_count := n\<rparr>) = bc_inv s" "lblock (s\<lparr>read_count := n\<rparr>) bn = lblock s bn"
  "holds_block (s\<lparr>read_count := n\<rparr>) i bn = holds_block s i bn"
  "upd_buf i f (s\<lparr>read_count := n\<rparr>) = (upd_buf i f s)\<lparr>read_count := n\<rparr>"
proof -
  have l: "lru (s\<lparr>read_count := n\<rparr>) ord = lru s ord" for ord by (rule lru_cong) simp_all
  show h: "holds_block (s\<lparr>read_count := n\<rparr>) i bn = holds_block s i bn" for i bn by (simp add: holds_block_def)
  show "bc_inv (s\<lparr>read_count := n\<rparr>) = bc_inv s" by (simp add: bc_inv_def l h)
  show "lblock (s\<lparr>read_count := n\<rparr>) bn = lblock s bn" by (simp add: lblock_def h split: option.split)
qed (simp add: upd_buf_def)

lemma bread_valid_case:
  assumes inv: "bc_inv s" and c: "holds_block s b bn" and no: "refcnt (bufs s ! b) + 1 \<noteq> 0"
    and v: "bvalid (bufs s ! b)"
    and s1: "s1 = upd_buf b (\<lambda>x. x\<lparr>refcnt := refcnt x + 1, block := held (curpid s)\<rparr>) s"
  shows "got s bn b s1"
proof -
  note len = bc_inv_length [OF inv]
  have b: "b < NBUF" and bd: "bdev (bufs s ! b) = 1" "blockno (bufs s ! b) = bn" using c by (simp_all add: holds_block_def)
  have ok: "buf_ok (disk s) (bufs s ! b)" by (rule bc_inv_buf [OF inv b])
  have inv1: "bc_inv s1"
    unfolding s1 by (rule bc_inv_upd [OF inv b]) (use ok no bd bc_inv_unique [OF inv c] in \<open>auto simp: buf_ok_def\<close>)
  moreover have "lblock s1 x = lblock s x" for x
    unfolding s1 by (rule lblock_upd_same [OF inv inv1 [unfolded s1] b]) simp_all
  moreover have "bufs s1 ! b = (bufs s ! b)\<lparr>refcnt := refcnt (bufs s ! b) + 1, block := held (curpid s)\<rparr>"
    using b len by (simp add: s1 bufs_upd_buf)
  moreover have "\<forall>i < NBUF. i \<noteq> b \<longrightarrow> bufs s1 ! i = bufs s ! i" using len by (simp add: s1 bufs_upd_buf)
  moreover have "disk s1 = disk s" "wtrace s1 = wtrace s" "curpid s1 = curpid s" by (simp_all add: s1)
  ultimately show ?thesis
    using b bd c v lblock_cached [OF inv c v] unfolding got_def by (simp add: holds_block_def)
qed

text \<open>A buffer that has just been filled from the disk.\<close>

lemma bread_fill_case:
  assumes inv: "bc_inv s" and b: "b < NBUF" and uniq: "\<And>j. holds_block s j bn \<Longrightarrow> j = b"
    and nv: "holds_block s b bn \<Longrightarrow> \<not> bvalid (bufs s ! b)"
    and or: "holds_block s b bn \<or> refcnt (bufs s ! b) = 0" and r: "r = (if holds_block s b bn then refcnt (bufs s ! b) else 0) + 1" "r \<noteq> 0"
    and s2: "s2 = upd_buf b (\<lambda>x. x\<lparr>bdev := 1, blockno := bn, bvalid := True, refcnt := r, block := held (curpid s),
      bdata := disk_block (disk s) (unat bn)\<rparr>) s"
  shows "got s bn b s2"
proof -
  note len = bc_inv_length [OF inv]
  have ok: "buf_ok (disk s) (bufs s ! b)" by (rule bc_inv_buf [OF inv b])
  have inv2: "bc_inv s2"
    unfolding s2 by (rule bc_inv_upd [OF inv b]) (use r(2) uniq in \<open>auto simp: buf_ok_def\<close>)
  have lb: "lblock s bn = disk_block (disk s) (unat bn)"
    by (rule lblock_uncached) (use uniq nv in blast)
  have new: "bufs s2 ! b = (bufs s ! b)\<lparr>bdev := 1, blockno := bn, bvalid := True, refcnt := r, block := held (curpid s),
      bdata := disk_block (disk s) (unat bn)\<rparr>"
    using b len by (simp add: s2 bufs_upd_buf)
  have old: "\<forall>i < NBUF. i \<noteq> b \<longrightarrow> bufs s2 ! i = bufs s ! i" using len by (simp add: s2 bufs_upd_buf)
  have d: "disk s2 = disk s" "wtrace s2 = wtrace s" "curpid s2 = curpid s" by (simp_all add: s2)
  have hb: "holds_block s2 b bn" using new b by (simp add: holds_block_def)
  have "lblock s2 x = lblock s x" for x
  proof (cases "x = bn")
    case True
    then show ?thesis using lblock_cached [OF inv2 hb] new lb by simp
  next
    case False
    show ?thesis
    proof (rule lblock_eqI [OF inv inv2 d(1)])
      fix i
      assume i: "holds_block s2 i x \<and> bvalid (bufs s2 ! i)"
      then have "i \<noteq> b" using new False by (auto simp: holds_block_def)
      then show "(\<exists>j. holds_block s j x \<and> bvalid (bufs s ! j)) \<or> bdata (bufs s2 ! i) = disk_block (disk s) (unat x)"
        using i old by (metis holds_block_def)
    next
      fix i
      assume i: "holds_block s i x \<and> bvalid (bufs s ! i)"
      show "holds_block s2 i x \<and> bvalid (bufs s2 ! i) \<and> bdata (bufs s2 ! i) = bdata (bufs s ! i) \<or>
        (\<nexists>j. holds_block s2 j x \<and> bvalid (bufs s2 ! j)) \<and> bdata (bufs s ! i) = disk_block (disk s) (unat x)"
      proof (cases "i = b")
        case False
        then show ?thesis using i old by (simp add: holds_block_def)
      next
        case True
        then have "refcnt (bufs s ! b) = 0" using or i False \<open>x \<noteq> bn\<close> by (auto simp: holds_block_def)
        then have "bdata (bufs s ! b) = disk_block (disk s) (unat x)"
          using ok i True by (auto simp: buf_ok_def holds_block_def)
        moreover have "\<not> holds_block s2 j x" for j
        proof (cases "j = b")
          case True
          then show ?thesis using new \<open>x \<noteq> bn\<close> by (simp add: holds_block_def)
        next
          case F: False
          then show ?thesis
            using bc_inv_unique [OF inv, of i x j] i True old by (auto simp: holds_block_def)
        qed
        ultimately show ?thesis using True by blast
      qed
    qed
  qed
  then show ?thesis using b inv2 d old hb new lb r or unfolding got_def by simp
qed


lemma got_read_count: "got s bn b s' \<Longrightarrow> got s bn b (s'\<lparr>read_count := n\<rparr>)"
  by (simp add: got_def)

lemma buf_fields:
  "x\<lparr>bdev := d, blockno := bn, bvalid := v, refcnt := k, block := l, bdata := bs\<rparr> =
     x\<lparr>bdev := d, blockno := bn, refcnt := k, block := l, bdata := bs, bvalid := v\<rparr>" for x :: buf
  by simp

lemma bread_got:
  assumes inv: "bc_inv s" and rd: "bread 1 bn s = Ok (b, s')" and no: "refcnt (bufs s ! b) + 1 \<noteq> 0"
  shows "got s bn b s'"
proof -
  note len = bc_inv_length [OF inv]
  obtain s1 where g: "bget 1 bn s = Ok (b, s1)"
    and r: "(if \<not> bvalid (bufs s1 ! b)
       then obind (virtio_disk_rw b False s1) (\<lambda>s2. Ok (b, upd_buf b (\<lambda>x. x\<lparr>bvalid := True\<rparr>) s2))
       else Ok (b, s1)) = Ok (b, s')"
    using rd by (auto simp: bread_def obind_eq_Ok split: if_splits)
  have fill: "got s bn b s'"
    if s1: "s1 = upd_buf b (\<lambda>x. x\<lparr>bdev := 1, blockno := bn, bvalid := False, refcnt := k, block := held (curpid s)\<rparr>) s"
      and b: "b < NBUF" and u: "\<And>j. holds_block s j bn \<Longrightarrow> j = b" and nv: "holds_block s b bn \<Longrightarrow> \<not> bvalid (bufs s ! b)"
      and or: "holds_block s b bn \<or> refcnt (bufs s ! b) = 0"
      and k: "k = (if holds_block s b bn then refcnt (bufs s ! b) else 0) + 1" "k \<noteq> 0" for k
  proof -
    have b1: "bufs s1 ! b = (bufs s ! b)\<lparr>bdev := 1, blockno := bn, bvalid := False, refcnt := k, block := held (curpid s)\<rparr>"
      and d1: "disk s1 = disk s" "length (bufs s1) = NBUF + 1" using b len by (simp_all add: s1 bufs_upd_buf)
    have lt: "unat bn < RAMDISK_BLOCKS"
      using r b1 by (auto simp: virtio_disk_rw_def ramdisk_rw_def Let_def split: if_splits)
    let ?g = "\<lambda>x. x\<lparr>bdev := 1, blockno := bn, bvalid := True, refcnt := k, block := held (curpid s),
      bdata := disk_block (disk s) (unat bn)\<rparr>"
    have "s' = (upd_buf b ?g s)\<lparr>read_count := read_count s1 + 1\<rparr>"
      using r b1 d1 b lt
      by (simp add: ramdisk_read_eq upd_buf_upd_buf) (simp add: s1 upd_buf_upd_buf len buf_fields)
    then show ?thesis
      using got_read_count [OF bread_fill_case [OF inv b u nv or k refl]] by simp
  qed
  show ?thesis
    using inv g
  proof (cases rule: bget_cases)
    case recycled
    show ?thesis by (rule fill [OF recycled(4,1)]) (use recycled in auto)
  next
    case cached
    have b: "b < NBUF" and bd: "bdev (bufs s ! b) = 1" "blockno (bufs s ! b) = bn" using cached(1) by (simp_all add: holds_block_def)
    have b1: "bufs s1 ! b = (bufs s ! b)\<lparr>refcnt := refcnt (bufs s ! b) + 1, block := held (curpid s)\<rparr>"
      using b len by (simp add: cached(3) bufs_upd_buf)
    show ?thesis
    proof (cases "bvalid (bufs s ! b)")
      case True
      then have "s' = s1" using r b1 by simp
      then show ?thesis using bread_valid_case [OF inv cached(1) no True cached(3)] by simp
    next
      case False
      have "(bufs s ! b)\<lparr>refcnt := refcnt (bufs s ! b) + 1, block := held (curpid s)\<rparr> =
          (bufs s ! b)\<lparr>bdev := 1, blockno := bn, bvalid := False, refcnt := refcnt (bufs s ! b) + 1, block := held (curpid s)\<rparr>"
        using bd False by (cases "bufs s ! b") simp
      then have "s1 = upd_buf b (\<lambda>x. x\<lparr>bdev := 1, blockno := bn, bvalid := False,
          refcnt := refcnt (bufs s ! b) + 1, block := held (curpid s)\<rparr>) s"
        by (simp add: cached(3) upd_buf_def)
      then show ?thesis
        by (rule fill) (use b cached(1) False no in \<open>simp_all add: bc_inv_unique [OF inv _ cached(1)]\<close>)
    qed
  qed
qed

text \<open>\<open>bread\<close> succeeds whenever the block is cached and unlocked, or some buffer is free.\<close>

lemma bread_Ok:
  assumes inv: "bc_inv s" and bn: "unat bn < RAMDISK_BLOCKS"
    and ok: "(\<exists>b. holds_block s b bn \<and> \<not> slocked (block (bufs s ! b))) \<or>
      (\<forall>b. \<not> holds_block s b bn) \<and> (\<exists>b < NBUF. refcnt (bufs s ! b) = 0)"
  shows "\<exists>b s'. bread 1 bn s = Ok (b, s')"
proof -
  obtain ord where ord: "lru s ord" using inv by (auto simp: bc_inv_def)
  have set: "set ord = {..<NBUF}" using ord by (simp add: lru_def)
  note len = bc_inv_length [OF inv]
  note search = bget_searches [OF ord]
  have "\<exists>b s1. bget 1 bn s = Ok (b, s1) \<and> b < NBUF \<and> blockno (bufs s1 ! b) = bn \<and> length (bufs s1) = NBUF + 1"
  proof (cases "find (\<lambda>b. bdev (bufs s ! b) = 1 \<and> blockno (bufs s ! b) = bn) ord")
    case (Some c)
    then have c: "holds_block s c bn" using set by (auto simp: find_Some_iff holds_block_def)
    then have "\<not> slocked (block (bufs s ! c))" using ok bc_inv_unique [OF inv c] by blast
    then have cl: "c < NBUF" "\<not> slocked (block (bufs s ! c))" "blockno (bufs s ! c) = bn"
      using c by (simp_all add: holds_block_def)
    then show ?thesis
      using Some search(1) [of 1 bn] len by (simp add: bget_def lock_buf_eq bufs_upd_buf upd_buf_upd_buf)
  next
    case None
    then have no: "\<not> holds_block s j bn" for j using set by (auto simp: find_None_iff holds_block_def)
    then obtain f where f: "f < NBUF" "refcnt (bufs s ! f) = 0" using ok by auto
    then have "find (\<lambda>b. refcnt (bufs s ! b) = 0) (rev ord) \<noteq> None" using set by (auto simp: find_None_iff)
    then obtain c where Some: "find (\<lambda>b. refcnt (bufs s ! b) = 0) (rev ord) = Some c" by auto
    then have c: "c < NBUF" "refcnt (bufs s ! c) = 0" using set by (auto simp: find_Some_iff rev_nth)
    then have "\<not> slocked (block (bufs s ! c))" using bc_inv_buf [OF inv c(1)] by (simp add: buf_ok_def)
    then show ?thesis
      using None Some search c(1) len by (simp add: bget_def lock_buf_eq bufs_upd_buf upd_buf_upd_buf)
  qed
  then obtain b s1 where "bget 1 bn s = Ok (b, s1)" "b < NBUF" "blockno (bufs s1 ! b) = bn" by blast
  then show ?thesis using ramdisk_read_eq [of s1 b] bn by (cases "bvalid (bufs s1 ! b)") (simp_all add: bread_def)
qed

end
