(* ===== verification/Xv6_Bio_Abs.thy ===== *)
theory Xv6_Bio_Abs
  imports Xv6_Bio_Spec
begin

text \<open>
  The buffer cache as its clients see it: for every block its current contents (\<open>lblock\<close>), the number
  of references to it (\<open>refs\<close>), whether it is locked (\<open>busy\<close>), and which buffer the running process has of it
  (\<open>ready\<close>). Every operation of \<open>bio.c\<close> is described by its effect on these four; the LRU list and
  the choice of buffers are out of sight.
\<close>

section \<open>The client's view\<close>

definition refs :: "bstate \<Rightarrow> u32 \<Rightarrow> nat" where
  "refs s bn = (case find (\<lambda>i. holds_block s i bn) [0..<NBUF] of
     None \<Rightarrow> 0 | Some i \<Rightarrow> unat (refcnt (bufs s ! i)))"

definition busy :: "bstate \<Rightarrow> u32 \<Rightarrow> bool" where
  "busy s bn \<longleftrightarrow> (\<exists>i. holds_block s i bn \<and> slocked (block (bufs s ! i)))"

definition ready :: "bstate \<Rightarrow> u32 \<Rightarrow> nat \<Rightarrow> bool" where
  "ready s bn b \<longleftrightarrow> holds_block s b bn \<and> bvalid (bufs s ! b) \<and> block (bufs s ! b) = held (curpid s)"

lemma refs_holds:
  assumes "bc_inv s" and "holds_block s b bn"
  shows "refs s bn = unat (refcnt (bufs s ! b))"
proof (cases "find (\<lambda>i. holds_block s i bn) [0..<NBUF]")
  case None
  moreover have "b < NBUF" using assms(2) by (simp add: holds_block_def)
  ultimately show ?thesis using assms(2) unfolding find_upt_None by blast
next
  case (Some j)
  then have "holds_block s j bn" using find_upt_Some [OF Some] by simp
  then have "j = b" using bc_inv_unique [OF assms(1)] assms(2) by blast
  then show ?thesis using Some by (simp add: refs_def)
qed

lemma refs_none: "(\<And>i. \<not> holds_block s i bn) \<Longrightarrow> refs s bn = 0"
  by (auto simp: refs_def split: option.split dest!: find_upt_Some)

lemma refs_pos: "0 < refs s bn \<Longrightarrow> \<exists>b. holds_block s b bn"
  using refs_none by fastforce

lemma refs_less: "refs s bn < 2 ^ 32"
  using unsigned_less [where 'a = nat and 'b = 32] by (auto simp: refs_def split: option.split)

lemma busy_holds: "bc_inv s \<Longrightarrow> holds_block s b bn \<Longrightarrow> busy s bn = slocked (block (bufs s ! b))"
  using bc_inv_unique unfolding busy_def by blast

lemma ready_busy: "ready s bn b \<Longrightarrow> busy s bn"
  by (auto simp: ready_def busy_def held_def)

lemma ready_holds: "ready s bn b \<Longrightarrow> holds_block s b bn"
  by (simp add: ready_def)

lemma ready_lblock: "bc_inv s \<Longrightarrow> ready s bn b \<Longrightarrow> lblock s bn = bdata (bufs s ! b)"
  by (simp add: ready_def lblock_cached)

lemma ready_refs: "bc_inv s \<Longrightarrow> ready s bn b \<Longrightarrow> 0 < refs s bn"
  using bc_inv_buf [of s b] by (auto simp: ready_def refs_holds holds_block_def buf_ok_def held_def unat_gt_0)

lemma ready_unique: "bc_inv s \<Longrightarrow> ready s bn b \<Longrightarrow> ready s bn b' \<Longrightarrow> b' = b"
  using bc_inv_unique unfolding ready_def by blast

section \<open>Changing a buffer in place\<close>

lemma upd_view:
  assumes inv: "bc_inv s" and h: "holds_block s b bn"
    and links: "\<And>x. bnext (f x) = bnext x" "\<And>x. bprev (f x) = bprev x"
    and key: "\<And>x. bdev (f x) = bdev x" "\<And>x. blockno (f x) = blockno x"
    and ok: "buf_ok (disk s) (f (bufs s ! b))"
  shows "bc_inv (upd_buf b f s)"
    and "\<And>i x. holds_block (upd_buf b f s) i x = holds_block s i x"
    and "bufs (upd_buf b f s) ! b = f (bufs s ! b)"
    and "\<And>i. i < NBUF \<Longrightarrow> i \<noteq> b \<Longrightarrow> bufs (upd_buf b f s) ! i = bufs s ! i"
    and "refs (upd_buf b f s) = (refs s)(bn := unat (refcnt (f (bufs s ! b))))"
    and "busy (upd_buf b f s) = (busy s)(bn := slocked (block (f (bufs s ! b))))"
    and "bvalid (f (bufs s ! b)) \<Longrightarrow> lblock (upd_buf b f s) = (lblock s)(bn := bdata (f (bufs s ! b)))"
    and "\<And>x c. x \<noteq> bn \<Longrightarrow> ready (upd_buf b f s) x c = ready s x c"
proof -
  note len = bc_inv_length [OF inv]
  have b: "b < NBUF" and bd: "bdev (bufs s ! b) = 1" "blockno (bufs s ! b) = bn"
    using h by (simp_all add: holds_block_def)
  let ?t = "upd_buf b f s"
  show inv': "bc_inv ?t"
    by (rule bc_inv_upd [OF inv b links ok]) (use key bd bc_inv_unique [OF inv h] in auto)
  show holds: "holds_block ?t i x = holds_block s i x" for i x
    using key len by (cases "i = b") (auto simp: holds_block_def bufs_upd_buf)
  show new: "bufs ?t ! b = f (bufs s ! b)" using b len by (simp add: bufs_upd_buf)
  show old: "bufs ?t ! i = bufs s ! i" if "i < NBUF" "i \<noteq> b" for i using that len by (simp add: bufs_upd_buf)
  have other: "bufs ?t ! i = bufs s ! i" if "holds_block s i x" "x \<noteq> bn" for i x
    by (rule old) (use that bd in \<open>auto simp: holds_block_def\<close>)
  show "refs ?t = (refs s)(bn := unat (refcnt (f (bufs s ! b))))"
  proof
    fix x
    have "refs ?t x = refs s x" if "x \<noteq> bn"
      using other that by (auto simp: refs_def holds split: option.split dest!: find_upt_Some)
    moreover have "refs ?t bn = unat (refcnt (f (bufs s ! b)))"
      using refs_holds [OF inv', of b bn] h holds new by simp
    ultimately show "refs ?t x = ((refs s)(bn := unat (refcnt (f (bufs s ! b))))) x" by simp
  qed
  show "busy ?t = (busy s)(bn := slocked (block (f (bufs s ! b))))"
  proof
    fix x
    have "busy ?t x = busy s x" if "x \<noteq> bn" using other that holds by (metis busy_def)
    moreover have "busy ?t bn = slocked (block (f (bufs s ! b)))"
      using busy_holds [OF inv', of b bn] h holds new by simp
    ultimately show "busy ?t x = ((busy s)(bn := slocked (block (f (bufs s ! b))))) x" by simp
  qed
  show "lblock ?t = (lblock s)(bn := bdata (f (bufs s ! b)))" if v: "bvalid (f (bufs s ! b))"
  proof
    fix x
    have "lblock ?t x = lblock s x" if "x \<noteq> bn"
      by (rule lblock_eqI [OF inv inv']) (use other that holds in auto)
    moreover have "lblock ?t bn = bdata (f (bufs s ! b))"
      using lblock_cached [OF inv', of b bn] h holds new v by simp
    ultimately show "lblock ?t x = ((lblock s)(bn := bdata (f (bufs s ! b)))) x" by simp
  qed
  show "ready ?t x c = ready s x c" if "x \<noteq> bn" for x c
    using other that holds unfolding ready_def by auto
qed


text \<open>The links carry no information for the clients.\<close>

lemma same_core_view:
  assumes inv: "bc_inv s" and c: "same_core s t" and l: "lru t ord"
  shows "bc_inv t" and "refs t = refs s" and "busy t = busy s" and "lblock t = lblock s" and "ready t = ready s"
proof -
  have eq: "core (bufs t ! i) = core (bufs s ! i)" if "i < NBUF" for i
    using c that bc_inv_length [OF inv] by (simp add: same_core_def)
  have fld: "bvalid (bufs t ! i) = bvalid (bufs s ! i)" "bdev (bufs t ! i) = bdev (bufs s ! i)"
    "blockno (bufs t ! i) = blockno (bufs s ! i)" "block (bufs t ! i) = block (bufs s ! i)"
    "refcnt (bufs t ! i) = refcnt (bufs s ! i)" "bdata (bufs t ! i) = bdata (bufs s ! i)" if "i < NBUF" for i
    using eq [OF that] by (cases "bufs t ! i"; cases "bufs s ! i"; simp add: core_def)+
  have d: "disk t = disk s" "curpid t = curpid s" using c by (simp_all add: same_core_def)
  have h: "holds_block t i x = holds_block s i x" for i x using fld [of i] by (auto simp: holds_block_def)
  have bo: "buf_ok (disk t) (bufs t ! i) = buf_ok (disk s) (bufs s ! i)" if "i < NBUF" for i
    using fld [OF that] d by (simp add: buf_ok_def)
  show "bc_inv t" using inv l bo unfolding bc_inv_def h by blast
  have lt: "i < NBUF" if "holds_block s i x" for i x using that by (simp add: holds_block_def)
  show "refs t = refs s"
    using fld(5) lt by (auto simp: refs_def h fun_eq_iff split: option.split dest!: find_upt_Some)
  show "busy t = busy s" using fld(4) lt by (auto simp: busy_def h fun_eq_iff)
  have v: "(holds_block s i x \<and> bvalid (bufs t ! i)) = (holds_block s i x \<and> bvalid (bufs s ! i))" for i x
    using fld(1) lt by blast
  show "lblock t = lblock s"
    using fld(6) lt by (auto simp: lblock_def h v d fun_eq_iff split: option.split dest!: find_upt_Some)
  show "ready t = ready s" using fld lt d by (auto simp: ready_def h fun_eq_iff)
qed

section \<open>The operations\<close>

lemma bread_view:
  assumes inv: "bc_inv s" and rd: "bread 1 bn s = Ok (b, s')" and lim: "refs s bn < 2 ^ 32 - 1"
  shows "bc_inv s'" and "ready s' bn b" and "lblock s' = lblock s" and "refs s' = (refs s)(bn := refs s bn + 1)"
    and "busy s' = (busy s)(bn := True)" and "disk s' = disk s" and "wtrace s' = wtrace s" and "curpid s' = curpid s"
    and "\<And>x c. ready s x c \<Longrightarrow> x \<noteq> bn \<Longrightarrow> ready s' x c"
proof -
  have no: "refcnt (bufs s ! b) + 1 \<noteq> 0"
  proof (cases "holds_block s b bn")
    case True
    then show ?thesis using lim refs_holds [OF inv True] by (simp add: unat_eq_zero [symmetric] unat_word_ariths)
  next
    case False
    obtain s1 where g: "bget 1 bn s = Ok (b, s1)" using rd by (auto simp: bread_def obind_eq_Ok split: if_splits)
    show ?thesis using inv g by (cases rule: bget_cases) (use False in auto)
  qed
  have got: "got s bn b s'" by (rule bread_got [OF inv rd no])
  show inv': "bc_inv s'" and l: "lblock s' = lblock s" and "disk s' = disk s" "wtrace s' = wtrace s" and p: "curpid s' = curpid s"
    using got by (auto simp: got_def)
  show r: "ready s' bn b" using got by (simp add: got_def ready_def)
  have b: "b < NBUF" and hb: "holds_block s' b bn"
    and or: "holds_block s b bn \<or> refcnt (bufs s ! b) = 0"
    and rc: "refcnt (bufs s' ! b) = (if holds_block s b bn then refcnt (bufs s ! b) else 0) + 1"
    and old: "\<And>i. i < NBUF \<Longrightarrow> i \<noteq> b \<Longrightarrow> bufs s' ! i = bufs s ! i"
    using got by (auto simp: got_def)
  have notheld: "\<not> holds_block s i bn" if "\<not> holds_block s b bn" for i
  proof
    assume i: "holds_block s i bn"
    then have "i \<noteq> b" "i < NBUF" using that by (auto simp: holds_block_def)
    then have "holds_block s' i bn" using i old by (simp add: holds_block_def)
    then show False using bc_inv_unique [OF inv' hb] \<open>i \<noteq> b\<close> by blast
  qed
  have oth: "holds_block s' i x \<longleftrightarrow> holds_block s i x \<and> i \<noteq> b" if "x \<noteq> bn" for i x
    using old hb that by (cases "i = b") (auto simp: holds_block_def)
  show "refs s' = (refs s)(bn := refs s bn + 1)"
  proof
    fix x
    show "refs s' x = ((refs s)(bn := refs s bn + 1)) x"
    proof (cases "x = bn")
      case True
      have "refs s' bn = unat (refcnt (bufs s' ! b))" by (rule refs_holds [OF inv' hb])
      also have "\<dots> = refs s bn + 1"
      proof (cases "holds_block s b bn")
        case T: True
        then show ?thesis using rc no refs_holds [OF inv T] unatSuc [of "refcnt (bufs s ! b)"] by (simp add: add.commute)
      next
        case False
        then show ?thesis using rc refs_none [of s bn, OF notheld] by simp
      qed
      finally show ?thesis using True by simp
    next
      case False
      have "refs s' x = refs s x"
      proof (cases "\<exists>i. holds_block s i x")
        case True
        then obtain i where i: "holds_block s i x" by blast
        show ?thesis
        proof (cases "i = b")
          case True
          then have "refcnt (bufs s ! b) = 0" using or i False by (auto simp: holds_block_def)
          moreover have "\<not> holds_block s' j x" for j
            using oth [OF False] bc_inv_unique [OF inv i] True by blast
          ultimately show ?thesis using refs_holds [OF inv i] refs_none [of s' x] True by simp
        next
          case ne: False
          then have "holds_block s' i x" using oth [OF False] i by blast
          moreover have "i < NBUF" using i by (simp add: holds_block_def)
          ultimately show ?thesis using refs_holds [OF inv i] refs_holds [OF inv'] old ne by simp
        qed
      next
        case F: False
        then have "\<not> holds_block s' j x" for j using oth [OF False] by blast
        then show ?thesis using F refs_none by simp
      qed
      then show ?thesis using False by simp
    qed
  qed
  show "busy s' = (busy s)(bn := True)"
  proof
    fix x
    show "busy s' x = ((busy s)(bn := True)) x"
    proof (cases "x = bn")
      case True
      then show ?thesis using ready_busy [OF r] by simp
    next
      case False
      have "\<not> slocked (block (bufs s ! b))" if "holds_block s b x"
        using that or False bc_inv_buf [OF inv b] by (auto simp: holds_block_def buf_ok_def)
      then have "busy s' x = busy s x"
        unfolding busy_def oth [OF False] using old holds_block_def by metis
      then show ?thesis using False by simp
    qed
  qed
  show "ready s' x c" if "ready s x c" "x \<noteq> bn" for x c
  proof -
    have "c \<noteq> b"
      using that or bc_inv_buf [OF inv b] by (auto simp: ready_def holds_block_def buf_ok_def held_def)
    then show ?thesis using that old oth p unfolding ready_def by (simp add: holds_block_def)
  qed
qed


lemma bread_succeeds:
  assumes inv: "bc_inv s" and bn: "unat bn < RAMDISK_BLOCKS" and nb: "\<not> busy s bn"
    and room: "0 < refs s bn \<or> card {x. 0 < refs s x} < NBUF"
  shows "\<exists>b s'. bread 1 bn s = Ok (b, s')"
proof (rule bread_Ok [OF inv bn])
  show "(\<exists>b. holds_block s b bn \<and> \<not> slocked (block (bufs s ! b))) \<or>
    (\<forall>b. \<not> holds_block s b bn) \<and> (\<exists>b < NBUF. refcnt (bufs s ! b) = 0)"
  proof (cases "\<exists>b. holds_block s b bn")
    case True
    then show ?thesis using nb by (auto simp: busy_def)
  next
    case False
    have "\<exists>b < NBUF. refcnt (bufs s ! b) = 0"
    proof (rule ccontr)
      assume no: "\<not> ?thesis"
      have h: "holds_block s b (blockno (bufs s ! b))" if "b < NBUF" for b
        using that no bc_inv_buf [OF inv that] by (auto simp: holds_block_def buf_ok_def)
      let ?k = "\<lambda>b. blockno (bufs s ! b)"
      have "inj_on ?k {..<NBUF}"
      proof (rule inj_onI)
        fix i j
        assume "i \<in> {..<NBUF}" "j \<in> {..<NBUF}" "?k i = ?k j"
        then show "i = j" using bc_inv_unique [OF inv h [of i], of j] h [of j] by simp
      qed
      then have "card (?k ` {..<NBUF}) = NBUF" by (simp add: card_image)
      moreover have "?k ` {..<NBUF} \<subseteq> {x. 0 < refs s x}"
        using no refs_holds [OF inv h] by (auto simp: unat_gt_0)
      moreover have "finite {x. 0 < refs s x}" by simp
      ultimately have "NBUF \<le> card {x. 0 < refs s x}" by (metis card_mono)
      moreover have "0 < refs s bn \<longrightarrow> False" using False refs_pos by blast
      ultimately show False using room by linarith
    qed
    then show ?thesis using False by blast
  qed
qed

lemma ready_upd:
  assumes inv: "bc_inv s" and r: "ready s bn b"
    and links: "\<And>x. bnext (f x) = bnext x" "\<And>x. bprev (f x) = bprev x"
    and key: "\<And>x. bdev (f x) = bdev x" "\<And>x. blockno (f x) = blockno x"
    and st: "\<And>x. bvalid (f x) = bvalid x" "\<And>x. block (f x) = block x"
    and ok: "buf_ok (disk s) (f (bufs s ! b))"
  shows "ready (upd_buf b f s) = ready s" and "busy (upd_buf b f s) = busy s"
proof -
  note h = ready_holds [OF r]
  note v = upd_view [OF inv h links key ok]
  have "ready (upd_buf b f s) bn c = ready s bn c" for c
  proof (cases "c = b")
    case True
    then show ?thesis using v(2,3) st by (simp add: ready_def)
  next
    case False
    then show ?thesis using v(2) bc_inv_unique [OF inv h] by (auto simp: ready_def)
  qed
  then show "ready (upd_buf b f s) = ready s" using v(8) by (intro ext) metis
  show "busy (upd_buf b f s) = busy s"
    using v(6) st ready_busy [OF r] busy_holds [OF inv h] by (auto simp: fun_eq_iff)
qed

lemma set_data_view:
  assumes inv: "bc_inv s" and r: "ready s bn b" and len: "length bs = BSIZE"
  shows "bc_inv (set_data b bs s)" and "lblock (set_data b bs s) = (lblock s)(bn := bs)"
    and "refs (set_data b bs s) = refs s" and "busy (set_data b bs s) = busy s"
    and "ready (set_data b bs s) = ready s" and "disk (set_data b bs s) = disk s"
    and "wtrace (set_data b bs s) = wtrace s" and "curpid (set_data b bs s) = curpid s"
proof -
  note h = ready_holds [OF r]
  have b: "b < NBUF" using h by (simp add: holds_block_def)
  have ok: "buf_ok (disk s) ((bufs s ! b)\<lparr>bdata := bs\<rparr>)"
    using bc_inv_buf [OF inv b] r len by (simp add: buf_ok_def ready_def held_def)
  note v = upd_view [where f = "\<lambda>x. x\<lparr>bdata := bs\<rparr>", OF inv h _ _ _ _ ok]
  show "bc_inv (set_data b bs s)" "lblock (set_data b bs s) = (lblock s)(bn := bs)"
    using v(1,7) r by (simp_all add: set_data_def ready_def)
  show "refs (set_data b bs s) = refs s" using v(5) refs_holds [OF inv h] by (simp add: set_data_def fun_upd_idem)
  show "busy (set_data b bs s) = busy s" "ready (set_data b bs s) = ready s"
    using ready_upd [where f = "\<lambda>x. x\<lparr>bdata := bs\<rparr>", OF inv r _ _ _ _ _ _ ok] by (simp_all add: set_data_def)
qed (simp_all add: set_data_def)

lemma bpin_view:
  assumes inv: "bc_inv s" and r: "ready s bn b" and lim: "refs s bn < 2 ^ 32 - 1"
  shows "bc_inv (bpin b s)" and "lblock (bpin b s) = lblock s" and "refs (bpin b s) = (refs s)(bn := refs s bn + 1)"
    and "busy (bpin b s) = busy s" and "ready (bpin b s) = ready s" and "disk (bpin b s) = disk s"
    and "wtrace (bpin b s) = wtrace s" and "curpid (bpin b s) = curpid s"
proof -
  note h = ready_holds [OF r]
  have b: "b < NBUF" using h by (simp add: holds_block_def)
  have no: "refcnt (bufs s ! b) + 1 \<noteq> 0"
    using lim refs_holds [OF inv h] by (simp add: unat_eq_zero [symmetric] unat_word_ariths)
  have ok: "buf_ok (disk s) ((bufs s ! b)\<lparr>refcnt := refcnt (bufs s ! b) + 1\<rparr>)"
    using bc_inv_buf [OF inv b] h no by (simp add: buf_ok_def holds_block_def)
  note v = upd_view [where f = "\<lambda>x. x\<lparr>refcnt := refcnt x + 1\<rparr>", OF inv h _ _ _ _ ok]
  show "bc_inv (bpin b s)" "lblock (bpin b s) = lblock s"
    using v(1,7) r ready_lblock [OF inv r] by (simp_all add: bpin_def ready_def fun_upd_idem)
  show "refs (bpin b s) = (refs s)(bn := refs s bn + 1)"
    using v(5) refs_holds [OF inv h] unatSuc [of "refcnt (bufs s ! b)"] no by (simp add: bpin_def add.commute)
  show "busy (bpin b s) = busy s" "ready (bpin b s) = ready s"
    using ready_upd [where f = "\<lambda>x. x\<lparr>refcnt := refcnt x + 1\<rparr>", OF inv r _ _ _ _ _ _ ok] by (simp_all add: bpin_def)
qed (simp_all add: bpin_def)

lemma unat_pred: "w \<noteq> 0 \<Longrightarrow> unat (w - 1) = unat (w :: u32) - 1"
  by (simp add: unat_minus_one)

lemma bunpin_view:
  assumes inv: "bc_inv s" and r: "ready s bn b" and two: "1 < refs s bn"
  shows "bc_inv (bunpin b s)" and "lblock (bunpin b s) = lblock s" and "refs (bunpin b s) = (refs s)(bn := refs s bn - 1)"
    and "busy (bunpin b s) = busy s" and "ready (bunpin b s) = ready s" and "disk (bunpin b s) = disk s"
    and "wtrace (bunpin b s) = wtrace s" and "curpid (bunpin b s) = curpid s"
proof -
  note h = ready_holds [OF r]
  have b: "b < NBUF" using h by (simp add: holds_block_def)
  have nz: "refcnt (bufs s ! b) \<noteq> 0" using two refs_holds [OF inv h] by auto
  have "unat (refcnt (bufs s ! b) - 1) \<noteq> 0" using two refs_holds [OF inv h] unat_pred [OF nz] by simp
  then have no: "refcnt (bufs s ! b) - 1 \<noteq> 0" by force
  have ok: "buf_ok (disk s) ((bufs s ! b)\<lparr>refcnt := refcnt (bufs s ! b) - 1\<rparr>)"
    using bc_inv_buf [OF inv b] h no by (simp add: buf_ok_def holds_block_def)
  note v = upd_view [where f = "\<lambda>x. x\<lparr>refcnt := refcnt x - 1\<rparr>", OF inv h _ _ _ _ ok]
  show "bc_inv (bunpin b s)" "lblock (bunpin b s) = lblock s"
    using v(1,7) r ready_lblock [OF inv r] by (simp_all add: bunpin_def ready_def fun_upd_idem)
  show "refs (bunpin b s) = (refs s)(bn := refs s bn - 1)"
    using v(5) refs_holds [OF inv h] unat_pred [OF nz] by (simp add: bunpin_def)
  show "busy (bunpin b s) = busy s" "ready (bunpin b s) = ready s"
    using ready_upd [where f = "\<lambda>x. x\<lparr>refcnt := refcnt x - 1\<rparr>", OF inv r _ _ _ _ _ _ ok] by (simp_all add: bunpin_def)
qed (simp_all add: bunpin_def)


lemma bwrite_eq:
  assumes inv: "bc_inv s" and r: "ready s bn b" and bn: "unat bn < RAMDISK_BLOCKS"
  shows "bwrite b s = Ok (s\<lparr>disk := put_block (unat bn) (lblock s bn) (disk s), write_count := write_count s + 1,
    wtrace := wtrace s @ [(unat bn, lblock s bn)]\<rparr>)"
proof -
  have "unat (bn * 1024) = unat bn * 1024" using bn by (subst unat_mult_lem [THEN iffD1]) auto
  then show ?thesis
    using r bn ready_lblock [OF inv r]
    by (simp add: bwrite_def ready_def holds_block_def held_def holdingsleep_def virtio_disk_rw_def ramdisk_rw_def
        Let_def put_block_def)
qed

lemma bwrite_view:
  assumes inv: "bc_inv s" and r: "ready s bn b" and bn: "unat bn < RAMDISK_BLOCKS"
  obtains s' where "bwrite b s = Ok s'" and "bc_inv s'" and "lblock s' = lblock s" and "refs s' = refs s"
    and "busy s' = busy s" and "ready s' = ready s" and "disk s' = put_block (unat bn) (lblock s bn) (disk s)"
    and "wtrace s' = wtrace s @ [(unat bn, lblock s bn)]" and "curpid s' = curpid s"
proof -
  let ?s = "s\<lparr>disk := put_block (unat bn) (lblock s bn) (disk s), write_count := write_count s + 1,
    wtrace := wtrace s @ [(unat bn, lblock s bn)]\<rparr>"
  note h = ready_holds [OF r]
  have len: "length (lblock s bn) = BSIZE" by (rule length_lblock [OF inv])
  have l: "lru ?s ord = lru s ord" for ord by (rule lru_cong) simp_all
  have hb: "holds_block ?s i x = holds_block s i x" for i x by (simp add: holds_block_def)
  have dk: "disk_block (disk ?s) (unat x) = (if x = bn then lblock s bn else disk_block (disk s) (unat x))" for x
    using disk_block_put [OF len] by (simp add: word_unat_eq_iff)
  have bo: "buf_ok (disk ?s) (bufs ?s ! i)" if "i < NBUF" for i
  proof -
    have "bdata (bufs s ! i) = disk_block (disk ?s) (unat (blockno (bufs s ! i)))"
      if z: "refcnt (bufs s ! i) = 0" and v: "bvalid (bufs s ! i)"
    proof (cases "blockno (bufs s ! i) = bn")
      case True
      then have "holds_block s i bn" using bc_inv_buf [OF inv \<open>i < NBUF\<close>] v \<open>i < NBUF\<close> by (auto simp: buf_ok_def holds_block_def)
      then show ?thesis using lblock_cached [OF inv _ v] dk True by simp
    next
      case False
      then show ?thesis using bc_inv_buf [OF inv \<open>i < NBUF\<close>] z v dk [of "blockno (bufs s ! i)"] by (simp add: buf_ok_def)
    qed
    then show ?thesis using bc_inv_buf [OF inv that] by (simp add: buf_ok_def)
  qed
  have inv': "bc_inv ?s" using inv bo unfolding bc_inv_def l hb by blast
  have lb: "lblock ?s x = lblock s x" for x
  proof (cases "\<exists>i. holds_block s i x \<and> bvalid (bufs s ! i)")
    case True
    then obtain i where "holds_block s i x" "bvalid (bufs s ! i)" by blast
    then show ?thesis using lblock_cached [OF inv] lblock_cached [OF inv', of i x] hb by simp
  next
    case False
    then have "x \<noteq> bn" using r h by (auto simp: ready_def)
    then show ?thesis using False lblock_uncached [of s x] lblock_uncached [of ?s x] dk [of x] hb by auto
  qed
  show ?thesis
  proof (rule that [OF bwrite_eq [OF assms] inv'])
    show "lblock ?s = lblock s" using lb by (intro ext)
    show "refs ?s = refs s" by (simp add: refs_def hb fun_eq_iff split: option.split)
    show "busy ?s = busy s" by (simp add: busy_def hb fun_eq_iff)
    show "ready ?s = ready s" by (simp add: ready_def hb fun_eq_iff)
  qed simp_all
qed

lemma brelse_view:
  assumes inv: "bc_inv s" and r: "ready s bn b"
    and clean: "refs s bn = 1 \<Longrightarrow> lblock s bn = disk_block (disk s) (unat bn)"
  obtains s' where "brelse b s = Ok s'" and "bc_inv s'" and "lblock s' = lblock s"
    and "refs s' = (refs s)(bn := refs s bn - 1)" and "busy s' = (busy s)(bn := False)"
    and "\<And>x c. x \<noteq> bn \<Longrightarrow> ready s' x c = ready s x c"
    and "disk s' = disk s" and "wtrace s' = wtrace s" and "curpid s' = curpid s"
proof -
  note h = ready_holds [OF r]
  note len = bc_inv_length [OF inv]
  have b: "b < NBUF" and bd: "bdev (bufs s ! b) = 1" "blockno (bufs s ! b) = bn" using h by (simp_all add: holds_block_def)
  let ?f = "\<lambda>x. x\<lparr>block := releasesleep (block x), refcnt := refcnt x - 1\<rparr>"
  let ?t = "upd_buf b ?f s"
  have nz: "refcnt (bufs s ! b) \<noteq> 0" using ready_refs [OF inv r] refs_holds [OF inv h] by auto
  have one: "bdata (bufs s ! b) = disk_block (disk s) (unat bn)" if "refcnt (bufs s ! b) - 1 = 0"
    using that clean refs_holds [OF inv h] ready_lblock [OF inv r] by simp
  have ok: "buf_ok (disk s) (?f (bufs s ! b))"
    using bc_inv_buf [OF inv b] bd one by (auto simp: buf_ok_def releasesleep_def)
  note v = upd_view [where f = ?f, OF inv h _ _ _ _ ok]
  have t: "bc_inv ?t" "lblock ?t = lblock s" "refs ?t = (refs s)(bn := refs s bn - 1)" "busy ?t = (busy s)(bn := False)"
    "\<And>x c. x \<noteq> bn \<Longrightarrow> ready ?t x c = ready s x c" "bufs ?t ! b = ?f (bufs s ! b)"
    using v r ready_lblock [OF inv r] refs_holds [OF inv h] unat_pred [OF nz]
    by (simp_all add: ready_def fun_upd_idem releasesleep_def)
  have eq: "brelse b s = Ok (if refcnt (bufs ?t ! b) = 0 then lru_insert b (lru_remove b ?t) else ?t)"
    using r b len by (simp add: brelse_def ready_def held_def holdingsleep_def Let_def upd_buf_upd_buf)
  obtain ord where ord: "lru ?t ord" using t(1) by (auto simp: bc_inv_def)
  note mv = lru_move_front [OF ord b]
  note w = same_core_view [OF t(1) mv(2,1)]
  have c: "disk (lru_insert b (lru_remove b ?t)) = disk s" "wtrace (lru_insert b (lru_remove b ?t)) = wtrace s"
    "curpid (lru_insert b (lru_remove b ?t)) = curpid s"
    using mv(2) by (simp_all add: same_core_def)
  show ?thesis
    by (cases "refcnt (bufs ?t ! b) = 0")
      (rule that [OF eq]; use t w c in \<open>simp del: upd_buf_simps(1)\<close>)+
qed

section \<open>Initialisation\<close>

lemma same_core_lru_insert: "same_core s t \<Longrightarrow> same_core s (lru_insert b t)"
  unfolding lru_insert_def Let_def by (intro same_core_upd) simp_all

text \<open>The buffers as the C runtime leaves them: zero.\<close>

definition bss :: "bstate \<Rightarrow> bool" where
  "bss s \<longleftrightarrow> length (bufs s) = NBUF + 1 \<and> (\<forall>b \<in> set (bufs s). core b = core buf0)"

lemma core_block: "core (b\<lparr>block := l\<rparr>) = (core b)\<lparr>block := l\<rparr>"
  by (simp add: core_def)

lemma same_core_upd_init:
  assumes "same_core s t" and "\<And>i. i < length (bufs s) \<Longrightarrow> core (bufs s ! i) = core buf0"
  shows "same_core s (upd_buf b (\<lambda>x. x\<lparr>block := initsleeplock\<rparr>) t)"
proof -
  have "core ((bufs t ! i)\<lparr>block := initsleeplock\<rparr>) = core (bufs t ! i)" if "i < length (bufs s)" for i
  proof -
    have "core (bufs t ! i) = core buf0" using assms that by (simp add: same_core_def)
    then show ?thesis by (simp add: core_block) (simp add: buf0_def core_def)
  qed
  then show ?thesis using assms(1) by (simp add: same_core_def bufs_upd_buf)
qed

lemma same_core_binit:
  assumes "bss s"
  shows "same_core s (binit s)"
proof -
  have z: "core (bufs s ! i) = core buf0" if "i < length (bufs s)" for i using assms that by (simp add: bss_def)
  have "same_core s (fold (\<lambda>b s. upd_buf b (\<lambda>x. x\<lparr>block := initsleeplock\<rparr>) (lru_insert b s)) bs t)"
    if "same_core s t" for bs t
    using that
  proof (induction bs arbitrary: t)
    case (Cons b bs)
    then show ?case using same_core_upd_init [OF same_core_lru_insert [OF Cons.prems] z] by simp
  qed simp
  moreover have "same_core s (upd_buf bhead (\<lambda>x. x\<lparr>bnext := bhead\<rparr>) (upd_buf bhead (\<lambda>x. x\<lparr>bprev := bhead\<rparr>) s))"
    by (intro same_core_upd same_core_refl) simp_all
  ultimately show ?thesis by (simp add: binit_def Let_def)
qed

lemma binit_view:
  assumes "bss s"
  shows "bc_inv (binit s)" and "lblock (binit s) = (\<lambda>x. disk_block (disk s) (unat x))" and "refs (binit s) = (\<lambda>_. 0)"
    and "busy (binit s) = (\<lambda>_. False)" and "ready (binit s) = (\<lambda>_ _. False)"
proof -
  note sc = same_core_binit [OF assms]
  have len: "length (bufs s) = NBUF + 1" using assms by (simp add: bss_def)
  have c: "core (bufs (binit s) ! i) = core buf0" if "i < NBUF" for i
    using that sc assms len by (auto simp: same_core_def bss_def)
  have f: "bdev (bufs (binit s) ! i) = 0 \<and> refcnt (bufs (binit s) ! i) = 0 \<and> \<not> bvalid (bufs (binit s) ! i) \<and>
      length (bdata (bufs (binit s) ! i)) = BSIZE \<and> \<not> slocked (block (bufs (binit s) ! i))" if "i < NBUF" for i
    using c [OF that] by (cases "bufs (binit s) ! i") (simp add: core_def buf0_def initsleeplock_def)
  have h: "\<not> holds_block (binit s) i x" for i x using f [of i] by (auto simp: holds_block_def)
  have d: "disk (binit s) = disk s" using sc by (simp add: same_core_def)
  have "buf_ok (disk (binit s)) (bufs (binit s) ! i)" if "i < NBUF" for i using f [OF that] by (simp add: buf_ok_def)
  then show "bc_inv (binit s)" using h binit_lru [OF len] unfolding bc_inv_def by blast
  show "lblock (binit s) = (\<lambda>x. disk_block (disk s) (unat x))" using lblock_uncached [of "binit s"] h d by (simp add: fun_eq_iff)
  show "refs (binit s) = (\<lambda>_. 0)" using refs_none h by blast
  show "busy (binit s) = (\<lambda>_. False)" using h by (simp add: busy_def fun_eq_iff)
  show "ready (binit s) = (\<lambda>_ _. False)" using h by (simp add: ready_def fun_eq_iff)
qed

definition bstate0 :: bstate where
  "bstate0 = \<lparr>disk = (\<lambda>_. 0), read_count = 0, write_count = 0, bufs = replicate (NBUF + 1) buf0,
     curpid = 1, wtrace = []\<rparr>"

lemma bss_bstate0: "bss bstate0"
  by (auto simp: bss_def bstate0_def)

section \<open>Properties\<close>

text \<open>
  C13: \<open>binit\<close> establishes the cache. From zeroed memory it links all the buffers, each once, into one list
  that can be walked in both directions, most recently initialised first, and the invariant of the cache
  holds: no buffer is referenced, locked or valid, so that every block reads as it is on the disk.
\<close>

theorem binit_establishes:
  assumes "bss s"
  shows "lru (binit s) (rev [0..<NBUF]) \<and> bc_inv (binit s) \<and> disk (binit s) = disk s \<and>
    (\<forall>bn. lblock (binit s) bn = disk_block (disk s) (unat bn) \<and> refs (binit s) bn = 0 \<and> \<not> busy (binit s) bn)"
  using binit_view [OF assms] same_core_binit [OF assms] binit_lru assms by (simp add: same_core_def bss_def)

theorem binit_establishes_witness: "bss bstate0 \<and> bc_inv (binit bstate0)"
  using binit_establishes [OF bss_bstate0] bss_bstate0 by blast

text \<open>
  C6: the cache is invisible and loses no write. From a state where the invariant holds and nothing is
  locked, reading a block of the disk, storing new contents into its buffer, writing it through and releasing it
  never panics or blocks; afterwards the block and its place on the disk hold the new contents, every other
  block and every other place on the disk is as it was, no reference is left over, the invariant holds, and
  no two buffers cache one block.
\<close>

theorem bcache_write_through:
  assumes inv: "bc_inv s" and bn: "unat bn < RAMDISK_BLOCKS" and nb: "\<not> busy s bn"
    and lim: "refs s bn < 2 ^ 32 - 1" and room: "card {x. 0 < refs s x} < NBUF" and len: "length bs = BSIZE"
  shows "\<exists>s'. obind (bread 1 bn s) (\<lambda>(b, s1). obind (bwrite b (set_data b bs s1)) (brelse b)) = Ok s' \<and>
    lblock s' = (lblock s)(bn := bs) \<and>
    (\<forall>n. disk_block (disk s') n = (if n = unat bn then bs else disk_block (disk s) n)) \<and>
    refs s' = refs s \<and> busy s' = busy s \<and> bc_inv s' \<and>
    (\<forall>i j x. holds_block s' i x \<longrightarrow> holds_block s' j x \<longrightarrow> i = j)"
proof -
  obtain b s1 where rd: "bread 1 bn s = Ok (b, s1)"
    using bread_succeeds [OF inv bn nb] room by blast
  note v1 = bread_view [OF inv rd lim]
  let ?s2 = "set_data b bs s1"
  note v2 = set_data_view [OF v1(1,2) len]
  have r2: "ready ?s2 bn b" using v1(2) v2(5) by simp
  obtain s3 where w: "bwrite b ?s2 = Ok s3" and v3: "bc_inv s3" "lblock s3 = lblock ?s2" "refs s3 = refs ?s2"
    "busy s3 = busy ?s2" "ready s3 = ready ?s2" "disk s3 = put_block (unat bn) (lblock ?s2 bn) (disk ?s2)"
    using bwrite_view [OF v2(1) r2 bn] by metis
  have lb: "lblock s3 bn = disk_block (disk s3) (unat bn)"
    using v3(2,6) v2(2) disk_block_put [OF len] by simp
  obtain s4 where rl: "brelse b s3 = Ok s4" and v4: "bc_inv s4" "lblock s4 = lblock s3"
    "refs s4 = (refs s3)(bn := refs s3 bn - 1)" "busy s4 = (busy s3)(bn := False)" "disk s4 = disk s3"
    using brelse_view [OF v3(1), of bn b] r2 v3(5) lb by metis
  have "lblock s4 = (lblock s)(bn := bs)" "refs s4 = refs s" "busy s4 = busy s"
    using v1 v2 v3 v4 nb by (simp_all add: fun_upd_idem fun_eq_iff)
  moreover have "\<forall>n. disk_block (disk s4) n = (if n = unat bn then bs else disk_block (disk s) n)"
    using v1(6) v2(2,6) v3(6) v4(5) disk_block_put [OF len] by simp
  moreover have "\<forall>i j x. holds_block s4 i x \<longrightarrow> holds_block s4 j x \<longrightarrow> i = j" using bc_inv_unique [OF v4(1)] by blast
  ultimately show ?thesis using rd w rl v4(1) by simp
qed

theorem bcache_write_through_witness:
  "\<exists>s'. obind (bread 1 5 (binit bstate0)) (\<lambda>(b, s1). obind (bwrite b (set_data b (replicate BSIZE 7) s1)) (brelse b)) = Ok s' \<and>
    lblock s' 5 = replicate BSIZE 7"
proof -
  note v = binit_view [OF bss_bstate0]
  show ?thesis
    using bcache_write_through [of "binit bstate0" 5 "replicate BSIZE 7"] v by auto
qed

end
