(* ===== verification/Xv6_Log.thy ===== *)
theory Xv6_Log
  imports Xv6_Bio
begin

text \<open>
  \<open>kernel/log.c\<close>: the write-ahead log. The functions take the \<open>struct log\<close> and the buffer cache and
  return what they change. The in-memory header \<open>log.lh\<close> is the pair \<open>lh_n\<close>, \<open>lh_block\<close>; an access
  outside \<open>block[LOGBLOCKS]\<close> is \<open>Undefined\<close>. \<open>begin_op\<close> going to sleep is \<open>Blocks\<close>. The header's
  copy on disk is little-endian in the first bytes of its block: \<open>n\<close>, then the block numbers.
\<close>

record log =
  lstart :: u32
  outstanding :: int
  committing :: bool
  ldev :: u32
  lh_n :: int
  lh_block :: "u32 list"

definition log0 :: log where
  "log0 = \<lparr>lstart = 0, outstanding = 0, committing = False, ldev = 0, lh_n = 0, lh_block = replicate LOGBLOCKS 0\<rparr>"

section \<open>Between the log and the home locations\<close>

definition install_step :: "bool \<Rightarrow> log \<Rightarrow> nat \<Rightarrow> bstate \<Rightarrow> bstate outcome" where
  "install_step recovering lg tail s =
     (if LOGBLOCKS \<le> tail then Undefined
      else obind (bread (ldev lg) (lstart lg + of_nat tail + 1) s) (\<lambda>(lbuf, s1).
        obind (bread (ldev lg) (lh_block lg ! tail) s1) (\<lambda>(dbuf, s2).
        obind (bwrite dbuf (set_data dbuf (bdata (bufs s2 ! lbuf)) s2)) (\<lambda>s3.
        let s4 = (if recovering then s3 else bunpin dbuf s3)
        in obind (brelse lbuf s4) (brelse dbuf)))))"

definition install_trans :: "bool \<Rightarrow> log \<Rightarrow> bstate \<Rightarrow> bstate outcome" where
  "install_trans recovering lg s = ofold (install_step recovering lg) [0..<nat (lh_n lg)] s"

definition write_log_step :: "log \<Rightarrow> nat \<Rightarrow> bstate \<Rightarrow> bstate outcome" where
  "write_log_step lg tail s =
     (if LOGBLOCKS \<le> tail then Undefined
      else obind (bread (ldev lg) (lstart lg + of_nat tail + 1) s) (\<lambda>(to, s1).
        obind (bread (ldev lg) (lh_block lg ! tail) s1) (\<lambda>(from, s2).
        obind (bwrite to (set_data to (bdata (bufs s2 ! from)) s2)) (\<lambda>s3.
        obind (brelse from s3) (brelse to)))))"

definition write_log :: "log \<Rightarrow> bstate \<Rightarrow> bstate outcome" where
  "write_log lg s = ofold (write_log_step lg) [0..<nat (lh_n lg)] s"

section \<open>The header\<close>

primrec read_head_loop :: "byte list \<Rightarrow> nat \<Rightarrow> nat \<Rightarrow> u32 list \<Rightarrow> u32 list outcome" where
  "read_head_loop d i 0 bl = Ok bl"
| "read_head_loop d i (Suc k) bl =
     (if LOGBLOCKS \<le> i then Undefined
      else read_head_loop d (Suc i) k (bl[i := get32 d (4 + 4 * i)]))"

definition read_head :: "log \<Rightarrow> bstate \<Rightarrow> (log \<times> bstate) outcome" where
  "read_head lg s =
     obind (bread (ldev lg) (lstart lg) s) (\<lambda>(b, s1).
       let d = bdata (bufs s1 ! b); n = sint (get32 d 0)
       in obind (read_head_loop d 0 (nat n) (lh_block lg)) (\<lambda>bl.
            obind (brelse b s1) (\<lambda>s2. Ok (lg\<lparr>lh_n := n, lh_block := bl\<rparr>, s2))))"

primrec write_head_loop :: "u32 list \<Rightarrow> nat \<Rightarrow> nat \<Rightarrow> byte list \<Rightarrow> byte list outcome" where
  "write_head_loop bl i 0 d = Ok d"
| "write_head_loop bl i (Suc k) d =
     (if LOGBLOCKS \<le> i then Undefined
      else write_head_loop bl (Suc i) k (put32 d (4 + 4 * i) (bl ! i)))"

definition write_head :: "log \<Rightarrow> bstate \<Rightarrow> bstate outcome" where
  "write_head lg s =
     obind (bread (ldev lg) (lstart lg) s) (\<lambda>(b, s1).
       obind (write_head_loop (lh_block lg) 0 (nat (lh_n lg)) (put32 (bdata (bufs s1 ! b)) 0 (of_int (lh_n lg))))
         (\<lambda>d. obind (bwrite b (set_data b d s1)) (brelse b)))"

section \<open>Recovery, commit and the system calls' interface\<close>

definition recover_from_log :: "log \<Rightarrow> bstate \<Rightarrow> (log \<times> bstate) outcome" where
  "recover_from_log lg s =
     obind (read_head lg s) (\<lambda>(lg1, s1).
       obind (install_trans True lg1 s1) (\<lambda>s2.
         let lg2 = lg1\<lparr>lh_n := 0\<rparr>
         in obind (write_head lg2 s2) (\<lambda>s3. Ok (lg2, s3))))"

definition initlog :: "u32 \<Rightarrow> u32 \<Rightarrow> log \<Rightarrow> bstate \<Rightarrow> (log \<times> bstate) outcome" where
  "initlog dev logstart lg s =
     (if 4 + 4 * LOGBLOCKS \<ge> BSIZE then Panic ''initlog: too big logheader''
      else recover_from_log (lg\<lparr>lstart := logstart, ldev := dev\<rparr>) s)"

definition begin_op :: "log \<Rightarrow> log outcome" where
  "begin_op lg =
     (if committing lg then Blocks
      else if lh_n lg + (outstanding lg + 1) * int MAXOPBLOCKS > int LOGBLOCKS then Blocks
      else Ok (lg\<lparr>outstanding := outstanding lg + 1\<rparr>))"

definition commit :: "log \<Rightarrow> bstate \<Rightarrow> (log \<times> bstate) outcome" where
  "commit lg s =
     (if lh_n lg > 0
      then obind (write_log lg s) (\<lambda>s1.
        obind (write_head lg s1) (\<lambda>s2.
        obind (install_trans False lg s2) (\<lambda>s3.
        let lg1 = lg\<lparr>lh_n := 0\<rparr>
        in obind (write_head lg1 s3) (\<lambda>s4. Ok (lg1, s4)))))
      else Ok (lg, s))"

definition end_op :: "log \<Rightarrow> bstate \<Rightarrow> (log \<times> bstate) outcome" where
  "end_op lg s =
     (let lg1 = lg\<lparr>outstanding := outstanding lg - 1\<rparr>
      in if committing lg1 then Panic ''log.committing''
         else if outstanding lg1 = 0
         then obind (commit (lg1\<lparr>committing := True\<rparr>) s) (\<lambda>(lg2, s1). Ok (lg2\<lparr>committing := False\<rparr>, s1))
         else Ok (lg1, s))"

text \<open>The search loop of \<open>log_write\<close>: the first index below \<open>n\<close> that holds the block, else \<open>n\<close>.\<close>

primrec absorb :: "u32 list \<Rightarrow> u32 \<Rightarrow> nat \<Rightarrow> nat \<Rightarrow> nat" where
  "absorb bl bn i 0 = i"
| "absorb bl bn i (Suc k) = (if bl ! i = bn then i else absorb bl bn (Suc i) k)"

definition log_write :: "nat \<Rightarrow> log \<Rightarrow> bstate \<Rightarrow> (log \<times> bstate) outcome" where
  "log_write b lg s =
     (if lh_n lg \<ge> int LOGBLOCKS then Panic ''too big a transaction''
      else if outstanding lg < 1 then Panic ''log_write outside of trans''
      else let bn = blockno (bufs s ! b);
               i = absorb (lh_block lg) bn 0 (nat (lh_n lg));
               lg1 = lg\<lparr>lh_block := (lh_block lg)[i := bn]\<rparr>
           in if int i = lh_n lg then Ok (lg1\<lparr>lh_n := lh_n lg + 1\<rparr>, bpin b s)
              else Ok (lg1, s))"

end
