(* ===== verification/Xv6_Log_Spec.thy ===== *)
theory Xv6_Log_Spec
  imports Xv6_Bio_Abs Xv6_Log
begin

text \<open>
  What the log's building blocks do to the client's view of the buffer cache: copying a block
  into the log, installing one from it, reading and writing the header. \<open>wrote s bn bs s'\<close> says that the only
  effect is that block \<open>bn\<close>, and its place on the disk, now hold \<open>bs\<close>.
\<close>

definition wrote :: "bstate \<Rightarrow> u32 \<Rightarrow> byte list \<Rightarrow> bstate \<Rightarrow> bool" where
  "wrote s bn bs s' \<longleftrightarrow> bc_inv s' \<and> lblock s' = (lblock s)(bn := bs) \<and> busy s' = busy s \<and>
     disk s' = put_block (unat bn) bs (disk s) \<and> wtrace s' = wtrace s @ [(unat bn, bs)]"

definition in_use :: "bstate \<Rightarrow> nat" where
  "in_use s = card {x. 0 < refs s x}"

lemma in_use_upd: "refs s' = (refs s)(a := n) \<Longrightarrow> in_use s' \<le> Suc (in_use s)"
proof -
  assume "refs s' = (refs s)(a := n)"
  then have "{x. 0 < refs s' x} \<subseteq> insert a {x. 0 < refs s x}" by (auto split: if_splits)
  then have "card {x. 0 < refs s' x} \<le> card (insert a {x. 0 < refs s x})" by (rule card_mono [rotated]) simp
  also have "\<dots> \<le> Suc (card {x. 0 < refs s x})" by (rule card_insert_le_m1) auto
  finally show ?thesis by (simp add: in_use_def)
qed

lemma clean_unreferenced:
  assumes inv: "bc_inv s" and z: "refs s bn = 0"
  shows "lblock s bn = disk_block (disk s) (unat bn)"
proof (cases "\<exists>i. holds_block s i bn \<and> bvalid (bufs s ! i)")
  case True
  then obtain i where i: "holds_block s i bn" "bvalid (bufs s ! i)" by blast
  then have "refcnt (bufs s ! i) = 0" using refs_holds [OF inv i(1)] z by (simp add: unat_eq_zero)
  then show ?thesis
    using i lblock_cached [OF inv i] bc_inv_buf [OF inv, of i] by (auto simp: holds_block_def buf_ok_def)
qed (use lblock_uncached in blast)

section \<open>Two buffers at a time\<close>

lemma read_two:
  assumes inv: "bc_inv s" and ne: "a \<noteq> c" and lt: "unat a < RAMDISK_BLOCKS" "unat c < RAMDISK_BLOCKS"
    and nb: "\<not> busy s a" "\<not> busy s c" and room: "in_use s < NBUF" "0 < refs s c \<or> Suc (in_use s) < NBUF"
    and lim: "refs s a < 2 ^ 32 - 1" "refs s c < 2 ^ 32 - 1"
  obtains b1 s1 b2 s2 where "bread 1 a s = Ok (b1, s1)" and "bread 1 c s1 = Ok (b2, s2)" and "bc_inv s2"
    and "ready s2 a b1" and "ready s2 c b2" and "lblock s2 = lblock s"
    and "refs s2 = (refs s)(a := refs s a + 1, c := refs s c + 1)" and "busy s2 = (busy s)(a := True, c := True)"
    and "disk s2 = disk s" and "wtrace s2 = wtrace s"
proof -
  obtain b1 s1 where 1: "bread 1 a s = Ok (b1, s1)"
    using bread_succeeds [OF inv lt(1) nb(1)] room(1) by (auto simp: in_use_def)
  note v1 = bread_view [OF inv 1 lim(1)]
  have "0 < refs s1 c \<or> in_use s1 < NBUF" using room(2) v1(4) ne in_use_upd [OF v1(4)] by auto
  then obtain b2 s2 where 2: "bread 1 c s1 = Ok (b2, s2)"
    using bread_succeeds [OF v1(1) lt(2)] v1(5) nb(2) ne by (auto simp: in_use_def)
  have "refs s1 c < 2 ^ 32 - 1" using v1(4) lim(2) ne by simp
  note v2 = bread_view [OF v1(1) 2 this]
  show ?thesis
  proof (rule that [OF 1 2 v2(1)])
    show "ready s2 a b1" using v2(9) v1(2) ne by blast
    show "ready s2 c b2" by (rule v2(2))
    show "refs s2 = (refs s)(a := refs s a + 1, c := refs s c + 1)" using v1(4) v2(4) ne by simp
  qed (use v1 v2 in simp_all)
qed

lemma write_back:
  assumes inv: "bc_inv s" and r: "ready s bn b" and len: "length bs = BSIZE" and lt: "unat bn < RAMDISK_BLOCKS"
  obtains s' where "bwrite b (set_data b bs s) = Ok s'" and "bc_inv s'" and "lblock s' = (lblock s)(bn := bs)"
    and "refs s' = refs s" and "busy s' = busy s" and "ready s' = ready s"
    and "disk s' = put_block (unat bn) bs (disk s)" and "wtrace s' = wtrace s @ [(unat bn, bs)]"
proof -
  note v = set_data_view [OF inv r len]
  have r': "ready (set_data b bs s) bn b" using v(5) r by simp
  show ?thesis using bwrite_view [OF v(1) r' lt] that v by (simp add: v(2)) (metis v)
qed

lemma release_two:
  assumes inv: "bc_inv s" and ne: "a \<noteq> c" and r: "ready s a b1" "ready s c b2"
    and clean: "refs s a = 1 \<Longrightarrow> lblock s a = disk_block (disk s) (unat a)"
      "refs s c = 1 \<Longrightarrow> lblock s c = disk_block (disk s) (unat c)"
  obtains s' where "obind (brelse b1 s) (brelse b2) = Ok s'" and "bc_inv s'" and "lblock s' = lblock s"
    and "refs s' = (refs s)(a := refs s a - 1, c := refs s c - 1)" and "busy s' = (busy s)(a := False, c := False)"
    and "disk s' = disk s" and "wtrace s' = wtrace s"
proof -
  obtain s1 where 1: "brelse b1 s = Ok s1" "bc_inv s1" "lblock s1 = lblock s" "refs s1 = (refs s)(a := refs s a - 1)"
    "busy s1 = (busy s)(a := False)" "\<And>x d. x \<noteq> a \<Longrightarrow> ready s1 x d = ready s x d" "disk s1 = disk s" "wtrace s1 = wtrace s"
    using brelse_view [OF inv r(1) clean(1)] by metis
  have r2: "ready s1 c b2" using 1(6) r(2) ne by metis
  have "refs s1 c = 1 \<Longrightarrow> lblock s1 c = disk_block (disk s1) (unat c)" using 1 clean(2) ne by simp
  then obtain s2 where 2: "brelse b2 s1 = Ok s2" "bc_inv s2" "lblock s2 = lblock s1" "refs s2 = (refs s1)(c := refs s1 c - 1)"
    "busy s2 = (busy s1)(c := False)" "disk s2 = disk s1" "wtrace s2 = wtrace s1"
    using brelse_view [OF 1(2) r2] by metis
  show ?thesis by (rule that [of s2]) (use 1 2 ne in auto)
qed

section \<open>One block to the log and back\<close>

lemma write_log_step_view:
  assumes inv: "bc_inv s" and dev: "ldev lg = 1" and tail: "tail < LOGBLOCKS"
    and a: "a = lstart lg + of_nat tail + 1" and c: "c = lh_block lg ! tail"
    and ne: "a \<noteq> c" and lt: "unat a < RAMDISK_BLOCKS" "unat c < RAMDISK_BLOCKS"
    and nb: "\<not> busy s a" "\<not> busy s c" and rc: "0 < refs s c" "refs s c < 2 ^ 32 - 1"
    and ra: "refs s a < 2 ^ 32 - 1" and room: "in_use s < NBUF"
  shows "\<exists>s'. write_log_step lg tail s = Ok s' \<and> wrote s a (lblock s c) s' \<and> refs s' = refs s"
proof -
  obtain b1 s1 b2 s2 where 1: "bread 1 a s = Ok (b1, s1)" "bread 1 c s1 = Ok (b2, s2)" "bc_inv s2"
    "ready s2 a b1" "ready s2 c b2" "lblock s2 = lblock s"
    "refs s2 = (refs s)(a := refs s a + 1, c := refs s c + 1)" "busy s2 = (busy s)(a := True, c := True)"
    "disk s2 = disk s" "wtrace s2 = wtrace s"
    by (rule read_two [OF inv ne lt nb room disjI1 [OF rc(1)] ra rc(2)])
  let ?d = "bdata (bufs s2 ! b2)"
  have d: "?d = lblock s c" using ready_lblock [OF 1(3,5)] 1(6) by simp
  have len: "length ?d = BSIZE" using d length_lblock [OF inv] by simp
  obtain s3 where 3: "bwrite b1 (set_data b1 ?d s2) = Ok s3" "bc_inv s3" "lblock s3 = (lblock s2)(a := ?d)"
    "refs s3 = refs s2" "busy s3 = busy s2" "ready s3 = ready s2" "disk s3 = put_block (unat a) ?d (disk s2)"
    "wtrace s3 = wtrace s2 @ [(unat a, ?d)]"
    by (rule write_back [OF 1(3,4) len lt(1)])
  have cl: "lblock s3 a = disk_block (disk s3) (unat a)" using 3 disk_block_put [OF len] by simp
  have nc: "refs s3 c = 1 \<Longrightarrow> lblock s3 c = disk_block (disk s3) (unat c)" using 3 1 rc by simp
  obtain s4 where 4: "obind (brelse b2 s3) (brelse b1) = Ok s4" "bc_inv s4" "lblock s4 = lblock s3"
    "refs s4 = (refs s3)(c := refs s3 c - 1, a := refs s3 a - 1)" "busy s4 = (busy s3)(c := False, a := False)"
    "disk s4 = disk s3" "wtrace s4 = wtrace s3"
    by (rule release_two [OF 3(2) ne [symmetric], of b2 b1]) (use 1 3 cl nc in auto)
  have "write_log_step lg tail s = Ok s4"
    using tail 1(1,2) 3(1) 4(1) dev by (simp add: write_log_step_def a c)
  moreover have "busy s4 = busy s" using 1(8) 3(5) 4(5) nb by (simp add: fun_eq_iff)
  then have "wrote s a (lblock s c) s4" using 1 3 4 d by (simp add: wrote_def)
  moreover have "refs s4 = refs s" using 1(7) 3(4) 4(4) ne by (simp add: fun_eq_iff)
  ultimately show ?thesis by blast
qed

lemma install_step_view:
  assumes inv: "bc_inv s" and dev: "ldev lg = 1" and tail: "tail < LOGBLOCKS"
    and a: "a = lstart lg + of_nat tail + 1" and c: "c = lh_block lg ! tail"
    and ne: "a \<noteq> c" and lt: "unat a < RAMDISK_BLOCKS" "unat c < RAMDISK_BLOCKS"
    and nb: "\<not> busy s a" "\<not> busy s c" and ra: "refs s a = 0" and rc: "refs s c < 2 ^ 32 - 1"
    and room: "in_use s < NBUF" and mode: "if recovering then Suc (in_use s) < NBUF else 0 < refs s c"
  shows "\<exists>s'. install_step recovering lg tail s = Ok s' \<and> wrote s c (lblock s a) s' \<and>
    refs s' = (if recovering then refs s else (refs s)(c := refs s c - 1))"
proof -
  have m: "0 < refs s c \<or> Suc (in_use s) < NBUF" using mode by (auto split: if_splits)
  have "refs s a < 2 ^ 32 - 1" using ra by simp
  then obtain b1 s1 b2 s2 where 1: "bread 1 a s = Ok (b1, s1)" "bread 1 c s1 = Ok (b2, s2)" "bc_inv s2"
    "ready s2 a b1" "ready s2 c b2" "lblock s2 = lblock s"
    "refs s2 = (refs s)(a := refs s a + 1, c := refs s c + 1)" "busy s2 = (busy s)(a := True, c := True)"
    "disk s2 = disk s" "wtrace s2 = wtrace s"
    using read_two [OF inv ne lt nb room m _ rc] by metis
  let ?d = "bdata (bufs s2 ! b1)"
  have d: "?d = lblock s a" using ready_lblock [OF 1(3,4)] 1(6) by simp
  have len: "length ?d = BSIZE" using d length_lblock [OF inv] by simp
  obtain s3 where 3: "bwrite b2 (set_data b2 ?d s2) = Ok s3" "bc_inv s3" "lblock s3 = (lblock s2)(c := ?d)"
    "refs s3 = refs s2" "busy s3 = busy s2" "ready s3 = ready s2" "disk s3 = put_block (unat c) ?d (disk s2)"
    "wtrace s3 = wtrace s2 @ [(unat c, ?d)]"
    by (rule write_back [OF 1(3,5) len lt(2)])
  define s4 where "s4 = (if recovering then s3 else bunpin b2 s3)"
  have r3: "ready s3 c b2" using 1(5) 3(6) by simp
  have two: "1 < refs s3 c" if "\<not> recovering" using 1 3 mode that by simp
  have 4: "bc_inv s4" "lblock s4 = lblock s3" "refs s4 = (if recovering then refs s3 else (refs s3)(c := refs s3 c - 1))"
    "busy s4 = busy s3" "ready s4 = ready s3" "disk s4 = disk s3" "wtrace s4 = wtrace s3"
    using bunpin_view [OF 3(2) r3 two] 3(2) by (simp_all add: s4_def)
  have ca: "lblock s4 a = disk_block (disk s4) (unat a)"
    using 4 3 1 ne disk_block_put [OF len] clean_unreferenced [OF inv ra] by (simp add: word_unat_eq_iff)
  have cc: "lblock s4 c = disk_block (disk s4) (unat c)" using 4 3 disk_block_put [OF len] by simp
  obtain s5 where 5: "obind (brelse b1 s4) (brelse b2) = Ok s5" "bc_inv s5" "lblock s5 = lblock s4"
    "refs s5 = (refs s4)(a := refs s4 a - 1, c := refs s4 c - 1)" "busy s5 = (busy s4)(a := False, c := False)"
    "disk s5 = disk s4" "wtrace s5 = wtrace s4"
    by (rule release_two [OF 4(1) ne, of b1 b2]) (use 1 3 4 ca cc in auto)
  have "install_step recovering lg tail s = Ok s5"
    using tail 1(1,2) 3(1) 5(1) [unfolded s4_def] dev by (simp add: install_step_def a c)
  moreover have "busy s5 = busy s" using 1(8) 3(5) 4(4) 5(5) nb by (simp add: fun_eq_iff)
  then have "wrote s c (lblock s a) s5" using 1 3 4 5 d by (simp add: wrote_def)
  moreover have "refs s5 = (if recovering then refs s else (refs s)(c := refs s c - 1))"
    using 1(7) 3(4) 4(3) 5(4) ne by (auto simp: fun_eq_iff)
  ultimately show ?thesis by blast
qed


section \<open>The header block\<close>

lemma write_head_loop_Ok:
  assumes "i + k \<le> LOGBLOCKS" and "length d = BSIZE"
  shows "\<exists>d'. write_head_loop bl i k d = Ok d' \<and> length d' = BSIZE \<and>
    (\<forall>off. off \<le> 4 * i \<longrightarrow> get32 d' off = get32 d off) \<and> (\<forall>j < k. get32 d' (4 + 4 * (i + j)) = bl ! (i + j))"
  using assms
proof (induction k arbitrary: i d)
  case (Suc k)
  let ?d = "put32 d (4 + 4 * i) (bl ! i)"
  have off: "4 + 4 * i + 4 \<le> length d" using Suc.prems by simp
  then have "length ?d = BSIZE" using Suc.prems(2) by simp
  then obtain d' where d': "write_head_loop bl (Suc i) k ?d = Ok d'" "length d' = BSIZE"
      "\<And>off. off \<le> 4 * Suc i \<Longrightarrow> get32 d' off = get32 ?d off"
      "\<And>j. j < k \<Longrightarrow> get32 d' (4 + 4 * (Suc i + j)) = bl ! (Suc i + j)"
    using Suc.IH [of "Suc i" ?d] Suc.prems(1) by auto
  have "get32 d' off = get32 d off" if "off \<le> 4 * i" for off using d'(3) [of off] that off by simp
  moreover have "get32 d' (4 + 4 * (i + j)) = bl ! (i + j)" if "j < Suc k" for j
    using d'(3) [of "4 + 4 * i"] d'(4) [of "j - 1"] that off by (cases j) auto
  ultimately show ?case using d'(1,2) Suc.prems by auto
qed simp

lemma read_head_loop_Ok:
  assumes "i + k \<le> LOGBLOCKS" and "length bl = LOGBLOCKS"
  shows "\<exists>bl'. read_head_loop d i k bl = Ok bl' \<and> length bl' = LOGBLOCKS \<and>
    (\<forall>j < i. bl' ! j = bl ! j) \<and> (\<forall>j < k. bl' ! (i + j) = get32 d (4 + 4 * (i + j)))"
  using assms
proof (induction k arbitrary: i bl)
  case (Suc k)
  let ?b = "bl[i := get32 d (4 + 4 * i)]"
  obtain bl' where bl': "read_head_loop d (Suc i) k ?b = Ok bl'" "length bl' = LOGBLOCKS"
      "\<And>j. j < Suc i \<Longrightarrow> bl' ! j = ?b ! j" "\<And>j. j < k \<Longrightarrow> bl' ! (Suc i + j) = get32 d (4 + 4 * (Suc i + j))"
    using Suc.IH [of "Suc i" ?b] Suc.prems by auto
  have "bl' ! (i + j) = get32 d (4 + 4 * (i + j))" if "j < Suc k" for j
    using bl'(3) [of i] bl'(4) [of "j - 1"] that Suc.prems by (cases j) auto
  moreover have "bl' ! j = bl ! j" if "j < i" for j using bl'(3) [of j] that by simp
  ultimately show ?case using bl'(1,2) Suc.prems by simp
qed simp

text \<open>\<open>is_head d n bl\<close>: the bytes \<open>d\<close> of a header block name \<open>n\<close> blocks, those of \<open>bl\<close>.\<close>

definition is_head :: "byte list \<Rightarrow> nat \<Rightarrow> u32 list \<Rightarrow> bool" where
  "is_head d n bl \<longleftrightarrow> length d = BSIZE \<and> n \<le> LOGBLOCKS \<and> get32 d 0 = of_nat n \<and> (\<forall>i < n. get32 d (4 + 4 * i) = bl ! i)"

lemma sint_small: "n \<le> LOGBLOCKS \<Longrightarrow> sint (of_nat n :: u32) = int n"
  by (simp add: sint_uint uint_nat unat_of_nat_small signed_take_bit_int_eq_self)


lemma write_head_view:
  assumes inv: "bc_inv s" and dev: "ldev lg = 1" and n: "lh_n lg = int n" "n \<le> LOGBLOCKS"
    and lt: "unat (lstart lg) < RAMDISK_BLOCKS" and nb: "\<not> busy s (lstart lg)" and z: "refs s (lstart lg) = 0"
    and room: "in_use s < NBUF"
  shows "\<exists>s' d. write_head lg s = Ok s' \<and> is_head d n (lh_block lg) \<and> wrote s (lstart lg) d s' \<and> refs s' = refs s"
proof -
  let ?a = "lstart lg"
  obtain b s1 where 1: "bread 1 ?a s = Ok (b, s1)"
    using bread_succeeds [OF inv lt nb] room by (auto simp: in_use_def)
  have "refs s ?a < 2 ^ 32 - 1" using z by simp
  note v1 = bread_view [OF inv 1 this]
  let ?d0 = "put32 (bdata (bufs s1 ! b)) 0 (of_nat n)"
  have l0: "length (bdata (bufs s1 ! b)) = BSIZE" using ready_lblock [OF v1(1,2)] length_lblock [OF v1(1)] by metis
  then have "length ?d0 = BSIZE" by simp
  then obtain d where d: "write_head_loop (lh_block lg) 0 n ?d0 = Ok d" "length d = BSIZE" "get32 d 0 = get32 ?d0 0"
      "\<And>j. j < n \<Longrightarrow> get32 d (4 + 4 * j) = lh_block lg ! j"
    using write_head_loop_Ok [of 0 n ?d0 "lh_block lg"] n(2) by auto
  obtain s2 where 2: "bwrite b (set_data b d s1) = Ok s2" "bc_inv s2" "lblock s2 = (lblock s1)(?a := d)"
    "refs s2 = refs s1" "busy s2 = busy s1" "ready s2 = ready s1" "disk s2 = put_block (unat ?a) d (disk s1)"
    "wtrace s2 = wtrace s1 @ [(unat ?a, d)]"
    by (rule write_back [OF v1(1,2) d(2) lt])
  have cl: "lblock s2 ?a = disk_block (disk s2) (unat ?a)" using 2 disk_block_put [OF d(2)] by simp
  have r2: "ready s2 ?a b" using 2(6) v1(2) by simp
  obtain s3 where 3: "brelse b s2 = Ok s3" "bc_inv s3" "lblock s3 = lblock s2"
    "refs s3 = (refs s2)(?a := refs s2 ?a - 1)" "busy s3 = (busy s2)(?a := False)" "disk s3 = disk s2" "wtrace s3 = wtrace s2"
    using brelse_view [OF 2(2) r2] cl by metis
  have "write_head lg s = Ok s3" using 1 d(1) 2(1) 3(1) dev n(1) by (simp add: write_head_def)
  moreover have "is_head d n (lh_block lg)" using d n(2) l0 by (simp add: is_head_def)
  moreover have "busy s3 = busy s" using v1(5) 2(5) 3(5) nb by (simp add: fun_eq_iff)
  then have "wrote s ?a d s3" using v1 2 3 by (simp add: wrote_def)
  moreover have "refs s3 = refs s" using v1(4) 2(4) 3(4) by (simp add: fun_eq_iff)
  ultimately show ?thesis by blast
qed

lemma read_head_view:
  assumes inv: "bc_inv s" and dev: "ldev lg = 1" and len: "length (lh_block lg) = LOGBLOCKS"
    and hd: "is_head (lblock s (lstart lg)) n bl"
    and lt: "unat (lstart lg) < RAMDISK_BLOCKS" and nb: "\<not> busy s (lstart lg)" and z: "refs s (lstart lg) = 0"
    and room: "in_use s < NBUF"
  shows "\<exists>s' bl'. read_head lg s = Ok (lg\<lparr>lh_n := int n, lh_block := bl'\<rparr>, s') \<and> length bl' = LOGBLOCKS \<and>
    (\<forall>i < n. bl' ! i = bl ! i) \<and>
    bc_inv s' \<and> lblock s' = lblock s \<and> refs s' = refs s \<and> busy s' = busy s \<and> disk s' = disk s \<and> wtrace s' = wtrace s"
proof -
  let ?a = "lstart lg"
  obtain b s1 where 1: "bread 1 ?a s = Ok (b, s1)"
    using bread_succeeds [OF inv lt nb] room by (auto simp: in_use_def)
  have "refs s ?a < 2 ^ 32 - 1" using z by simp
  note v1 = bread_view [OF inv 1 this]
  have d: "bdata (bufs s1 ! b) = lblock s ?a" using ready_lblock [OF v1(1,2)] v1(3) by simp
  have n: "n \<le> LOGBLOCKS" "sint (get32 (lblock s ?a) 0) = int n" "\<And>i. i < n \<Longrightarrow> get32 (lblock s ?a) (4 + 4 * i) = bl ! i"
    using hd sint_small by (auto simp: is_head_def)
  obtain bl' where bl': "read_head_loop (lblock s ?a) 0 n (lh_block lg) = Ok bl'" "length bl' = LOGBLOCKS"
      "\<And>j. j < n \<Longrightarrow> bl' ! j = get32 (lblock s ?a) (4 + 4 * j)"
    using read_head_loop_Ok [of 0 n "lh_block lg" "lblock s ?a"] n(1) len by auto
  have cl: "lblock s1 ?a = disk_block (disk s1) (unat ?a)" using v1 clean_unreferenced [OF inv z] by simp
  obtain s2 where 2: "brelse b s1 = Ok s2" "bc_inv s2" "lblock s2 = lblock s1"
    "refs s2 = (refs s1)(?a := refs s1 ?a - 1)" "busy s2 = (busy s1)(?a := False)" "disk s2 = disk s1" "wtrace s2 = wtrace s1"
    using brelse_view [OF v1(1,2)] cl by metis
  have "read_head lg s = Ok (lg\<lparr>lh_n := int n, lh_block := bl'\<rparr>, s2)"
    using 1 bl'(1) 2(1) dev n(2) d by (simp add: read_head_def Let_def)
  moreover have "busy s2 = busy s" using v1(5) 2(5) nb by (simp add: fun_eq_iff)
  moreover have "refs s2 = refs s" using v1(4) 2(4) by (simp add: fun_eq_iff)
  ultimately show ?thesis using bl' n(3) 2 v1 by auto
qed

end
