(* ===== verification/Xv6_Log_Crash.thy ===== *)
theory Xv6_Log_Crash
  imports Xv6_Log_Spec
begin

text \<open>
  Transactions are atomic with respect to crashes. A crash leaves the disk as the first \<open>k\<close> block
  writes of the running code made it, for any \<open>k\<close>, and loses the cache and the in-memory header; the kernel boots
  with an empty cache and runs \<open>recover_from_log\<close>. The writes are those recorded in \<open>wtrace\<close>.
\<close>

section \<open>Layout\<close>

definition lpos :: "u32 \<Rightarrow> nat \<Rightarrow> u32" where
  "lpos start i = start + of_nat i + 1"

definition in_log :: "u32 \<Rightarrow> nat \<Rightarrow> bool" where
  "in_log start x \<longleftrightarrow> unat start \<le> x \<and> x \<le> unat start + LOGBLOCKS"

definition log_layout :: "u32 \<Rightarrow> nat \<Rightarrow> u32 list \<Rightarrow> bool" where
  "log_layout start n bl \<longleftrightarrow> n \<le> LOGBLOCKS \<and> length bl = LOGBLOCKS \<and> unat start + LOGBLOCKS < RAMDISK_BLOCKS \<and>
     distinct (take n bl) \<and> (\<forall>i < n. unat (bl ! i) < RAMDISK_BLOCKS \<and> \<not> in_log start (unat (bl ! i)))"

definition log_pre :: "log \<Rightarrow> nat \<Rightarrow> bstate \<Rightarrow> bool" where
  "log_pre lg n s \<longleftrightarrow> bc_inv s \<and> ldev lg = 1 \<and> lh_n lg = int n \<and> log_layout (lstart lg) n (lh_block lg) \<and>
     (\<forall>x. in_log (lstart lg) (unat x) \<longrightarrow> refs s x = 0 \<and> \<not> busy s x) \<and>
     (\<forall>i < n. \<not> busy s (lh_block lg ! i) \<and> refs s (lh_block lg ! i) < 2 ^ 32 - 1) \<and> in_use s < NBUF"

definition apply_writes :: "(nat \<times> byte list) list \<Rightarrow> (nat \<Rightarrow> byte) \<Rightarrow> nat \<Rightarrow> byte" where
  "apply_writes ws d = fold (\<lambda>(n, bs). put_block n bs) ws d"

lemma apply_writes_simps [simp]:
  "apply_writes [] d = d" "apply_writes (xs @ ys) d = apply_writes ys (apply_writes xs d)"
  "apply_writes [(n, bs)] d = put_block n bs d"
  by (simp_all add: apply_writes_def)

lemma unat_lpos: "log_layout start n bl \<Longrightarrow> i < LOGBLOCKS \<Longrightarrow> unat (lpos start i) = unat start + i + 1"
  unfolding lpos_def by (simp add: log_layout_def unat_word_ariths unat_of_nat)

lemma in_log_lpos: "log_layout start n bl \<Longrightarrow> i < LOGBLOCKS \<Longrightarrow> in_log start (unat (lpos start i))"
  by (simp add: unat_lpos in_log_def)

lemma lpos_inj:
  assumes "log_layout start n bl" and "i < LOGBLOCKS" and "j < LOGBLOCKS" and "lpos start i = lpos start j"
  shows "i = j"
proof -
  have "unat start + i + 1 = unat start + j + 1"
    using unat_lpos [OF assms(1,2)] unat_lpos [OF assms(1,3)] assms(4) by metis
  then show ?thesis by simp
qed

lemma lpos_not_start: "log_layout start n bl \<Longrightarrow> i < LOGBLOCKS \<Longrightarrow> lpos start i \<noteq> start"
  using unat_lpos [of start n bl i] by auto

lemma in_log_start: "in_log start (unat start)"
  by (simp add: in_log_def)

lemma home_not_lpos: "log_layout start n bl \<Longrightarrow> i < n \<Longrightarrow> j < LOGBLOCKS \<Longrightarrow> bl ! i \<noteq> lpos start j"
  using in_log_lpos [of start n bl j] by (auto simp: log_layout_def)

lemma home_inj:
  assumes "log_layout start n bl" and "i < n" and "j < n" and "bl ! i = bl ! j"
  shows "i = j"
proof -
  have d: "distinct (take n bl)" and l: "n \<le> length bl" using assms(1) by (simp_all add: log_layout_def)
  have "take n bl ! i = take n bl ! j" using assms by simp
  then show ?thesis using nth_eq_iff_index_eq [OF d, of i j] assms(2,3) l by simp
qed

section \<open>The loops\<close>

definition logged :: "bstate \<Rightarrow> log \<Rightarrow> nat \<Rightarrow> (nat \<times> byte list) list" where
  "logged s lg k = map (\<lambda>i. (unat (lpos (lstart lg) i), lblock s (lh_block lg ! i))) [0..<k]"

lemma write_log_view:
  assumes pre: "log_pre lg n s" and pin: "\<And>i. i < n \<Longrightarrow> 0 < refs s (lh_block lg ! i)" and k: "k \<le> n"
  shows "\<exists>s'. ofold (write_log_step lg) [0..<k] s = Ok s' \<and> bc_inv s' \<and> refs s' = refs s \<and> busy s' = busy s \<and>
    (\<forall>x. (\<forall>i < k. x \<noteq> lpos (lstart lg) i) \<longrightarrow> lblock s' x = lblock s x) \<and>
    (\<forall>i < k. lblock s' (lpos (lstart lg) i) = lblock s (lh_block lg ! i)) \<and>
    wtrace s' = wtrace s @ logged s lg k \<and> disk s' = apply_writes (logged s lg k) (disk s)"
  using k
proof (induction k)
  case 0
  then show ?case using pre by (simp add: log_pre_def logged_def)
next
  case (Suc k)
  have lay: "log_layout (lstart lg) n (lh_block lg)" and dev: "ldev lg = 1" and kn: "k < n"
    and lb: "k < LOGBLOCKS" using pre Suc.prems by (auto simp: log_pre_def log_layout_def)
  obtain s1 where s1: "ofold (write_log_step lg) [0..<k] s = Ok s1" "bc_inv s1" "refs s1 = refs s" "busy s1 = busy s"
    "\<And>x. (\<forall>i < k. x \<noteq> lpos (lstart lg) i) \<Longrightarrow> lblock s1 x = lblock s x"
    "\<And>i. i < k \<Longrightarrow> lblock s1 (lpos (lstart lg) i) = lblock s (lh_block lg ! i)"
    "wtrace s1 = wtrace s @ logged s lg k" "disk s1 = apply_writes (logged s lg k) (disk s)"
    using Suc by auto
  let ?a = "lpos (lstart lg) k" and ?c = "lh_block lg ! k"
  have ne: "?a \<noteq> ?c" using home_not_lpos [OF lay kn lb] by simp
  have lt: "unat ?a < RAMDISK_BLOCKS" "unat ?c < RAMDISK_BLOCKS"
    using unat_lpos [OF lay lb] lay kn lb by (auto simp: log_layout_def)
  have log: "refs s ?a = 0" "\<not> busy s ?a" using pre in_log_lpos [OF lay lb] by (auto simp: log_pre_def)
  have "\<exists>s'. write_log_step lg k s1 = Ok s' \<and> wrote s1 ?a (lblock s1 ?c) s' \<and> refs s' = refs s1"
    by (rule write_log_step_view [OF s1(2) dev lb _ refl ne lt])
      (use log pre kn pin s1(3,4) in \<open>auto simp: lpos_def log_pre_def in_use_def\<close>)
  then obtain s2 where s2: "write_log_step lg k s1 = Ok s2" "wrote s1 ?a (lblock s1 ?c) s2" "refs s2 = refs s1" by blast
  have c: "lblock s1 ?c = lblock s ?c"
    by (rule s1(5)) (use home_not_lpos [OF lay kn] lb in auto)
  have "ofold (write_log_step lg) [0..<Suc k] s = Ok s2" using s1(1) s2(1) by (simp add: ofold_append)
  moreover have "lblock s2 (lpos (lstart lg) i) = lblock s (lh_block lg ! i)" if "i < Suc k" for i
  proof (cases "i = k")
    case True
    then show ?thesis using s2(2) c by (simp add: wrote_def)
  next
    case False
    then have "lpos (lstart lg) i \<noteq> ?a" using lpos_inj [OF lay, of i k] that lb by auto
    then show ?thesis using s2(2) s1(6) [of i] that False by (simp add: wrote_def)
  qed
  moreover have "lblock s2 x = lblock s x" if "\<forall>i < Suc k. x \<noteq> lpos (lstart lg) i" for x
    using that s2(2) s1(5) [of x] by (simp add: wrote_def)
  ultimately show ?case using s1 s2 c by (auto simp: wrote_def logged_def)
qed

definition installed :: "bstate \<Rightarrow> log \<Rightarrow> nat \<Rightarrow> (nat \<times> byte list) list" where
  "installed s lg k = map (\<lambda>i. (unat (lh_block lg ! i), lblock s (lpos (lstart lg) i))) [0..<k]"

definition unpinned :: "bool \<Rightarrow> bstate \<Rightarrow> log \<Rightarrow> nat \<Rightarrow> u32 \<Rightarrow> nat" where
  "unpinned recovering s lg k x =
     (if \<not> recovering \<and> (\<exists>i < k. x = lh_block lg ! i) then refs s x - 1 else refs s x)"

lemma in_use_mono: "(\<And>x. refs s' x \<le> refs s x) \<Longrightarrow> in_use s' \<le> in_use s"
  unfolding in_use_def by (intro card_mono Collect_mono) (auto intro: less_le_trans)

lemma install_view:
  assumes pre: "log_pre lg n s" and k: "k \<le> n"
    and mode: "if recovering then Suc (in_use s) < NBUF else (\<forall>i < n. 0 < refs s (lh_block lg ! i))"
  shows "\<exists>s'. ofold (install_step recovering lg) [0..<k] s = Ok s' \<and> bc_inv s' \<and> busy s' = busy s \<and>
    refs s' = unpinned recovering s lg k \<and>
    (\<forall>x. (\<forall>i < k. x \<noteq> lh_block lg ! i) \<longrightarrow> lblock s' x = lblock s x) \<and>
    (\<forall>i < k. lblock s' (lh_block lg ! i) = lblock s (lpos (lstart lg) i)) \<and>
    wtrace s' = wtrace s @ installed s lg k \<and> disk s' = apply_writes (installed s lg k) (disk s)"
  using k
proof (induction k)
  case 0
  then show ?case using pre by (simp add: log_pre_def installed_def unpinned_def fun_eq_iff)
next
  case (Suc k)
  have lay: "log_layout (lstart lg) n (lh_block lg)" and dev: "ldev lg = 1" and kn: "k < n"
    and lb: "k < LOGBLOCKS" and use: "in_use s < NBUF" using pre Suc.prems by (auto simp: log_pre_def log_layout_def)
  obtain s1 where s1: "ofold (install_step recovering lg) [0..<k] s = Ok s1" "bc_inv s1" "busy s1 = busy s"
    "refs s1 = unpinned recovering s lg k"
    "\<And>x. (\<forall>i < k. x \<noteq> lh_block lg ! i) \<Longrightarrow> lblock s1 x = lblock s x"
    "\<And>i. i < k \<Longrightarrow> lblock s1 (lh_block lg ! i) = lblock s (lpos (lstart lg) i)"
    "wtrace s1 = wtrace s @ installed s lg k" "disk s1 = apply_writes (installed s lg k) (disk s)"
    using Suc by auto
  let ?a = "lpos (lstart lg) k" and ?c = "lh_block lg ! k"
  have ne: "?a \<noteq> ?c" using home_not_lpos [OF lay kn lb] by simp
  have lt: "unat ?a < RAMDISK_BLOCKS" "unat ?c < RAMDISK_BLOCKS"
    using unat_lpos [OF lay lb] lay kn lb by (auto simp: log_layout_def)
  have log: "refs s ?a = 0" "\<not> busy s ?a" using pre in_log_lpos [OF lay lb] by (auto simp: log_pre_def)
  have new: "\<forall>i < k. ?c \<noteq> lh_block lg ! i" using home_inj [OF lay kn] kn by (metis less_trans nat_neq_iff)
  have rc: "refs s1 ?c = refs s ?c" using s1(4) new by (auto simp: unpinned_def)
  have ra: "refs s1 ?a = 0" using s1(4) log by (simp add: unpinned_def)
  have iu: "in_use s1 \<le> in_use s" by (rule in_use_mono) (simp add: s1(4) unpinned_def)
  have "\<exists>s'. install_step recovering lg k s1 = Ok s' \<and> wrote s1 ?c (lblock s1 ?a) s' \<and>
      refs s' = (if recovering then refs s1 else (refs s1)(?c := refs s1 ?c - 1))"
    by (rule install_step_view [OF s1(2) dev lb _ refl ne lt _ _ ra])
      (use log pre kn s1(3) rc iu use mode in \<open>auto simp: lpos_def log_pre_def\<close>)
  then obtain s2 where s2: "install_step recovering lg k s1 = Ok s2" "wrote s1 ?c (lblock s1 ?a) s2"
    "refs s2 = (if recovering then refs s1 else (refs s1)(?c := refs s1 ?c - 1))" by blast
  have a: "lblock s1 ?a = lblock s ?a"
    by (rule s1(5)) (use home_not_lpos [OF lay _ lb] kn in \<open>metis less_trans\<close>)
  have "ofold (install_step recovering lg) [0..<Suc k] s = Ok s2" using s1(1) s2(1) by (simp add: ofold_append)
  moreover have "lblock s2 (lh_block lg ! i) = lblock s (lpos (lstart lg) i)" if "i < Suc k" for i
  proof (cases "i = k")
    case True
    then show ?thesis using s2(2) a by (simp add: wrote_def)
  next
    case False
    then have "i < k" using that by simp
    then show ?thesis using s2(2) s1(6) [of i] new by (auto simp: wrote_def)
  qed
  moreover have "lblock s2 x = lblock s x" if "\<forall>i < Suc k. x \<noteq> lh_block lg ! i" for x
    using that s2(2) s1(5) [of x] by (simp add: wrote_def)
  moreover have "refs s2 = unpinned recovering s lg (Suc k)"
  proof
    fix x
    show "refs s2 x = unpinned recovering s lg (Suc k) x"
    proof (cases "x = ?c")
      case True
      then show ?thesis using s2(3) rc by (auto simp: unpinned_def)
    next
      case False
      then show ?thesis using s2(3) s1(4) by (auto simp: unpinned_def less_Suc_eq)
    qed
  qed
  ultimately show ?case using s1 s2 a by (auto simp: wrote_def installed_def)
qed


section \<open>Commit and recovery as sequences of writes\<close>

definition homes :: "bstate \<Rightarrow> log \<Rightarrow> nat \<Rightarrow> (nat \<times> byte list) list" where
  "homes s lg n = map (\<lambda>i. (unat (lh_block lg ! i), lblock s (lh_block lg ! i))) [0..<n]"

lemma commit_view:
  assumes pre: "log_pre lg n s" and n: "0 < n" and pin: "\<And>i. i < n \<Longrightarrow> 0 < refs s (lh_block lg ! i)"
  shows "\<exists>s' h1 h0. commit lg s = Ok (lg\<lparr>lh_n := 0\<rparr>, s') \<and> is_head h1 n (lh_block lg) \<and> is_head h0 0 (lh_block lg) \<and>
    wtrace s' = wtrace s @ logged s lg n @ (unat (lstart lg), h1) # homes s lg n @ [(unat (lstart lg), h0)] \<and>
    bc_inv s' \<and> busy s' = busy s \<and> refs s' = unpinned False s lg n \<and>
    (\<forall>x. \<not> in_log (lstart lg) (unat x) \<longrightarrow> lblock s' x = lblock s x)"
proof -
  let ?st = "lstart lg" and ?bl = "lh_block lg"
  have lay: "log_layout ?st n ?bl" and dev: "ldev lg = 1" and nn: "lh_n lg = int n" and nb: "n \<le> LOGBLOCKS"
    and use: "in_use s < NBUF" and st: "refs s ?st = 0" "\<not> busy s ?st" and lt: "unat ?st < RAMDISK_BLOCKS"
    using pre in_log_start by (auto simp: log_pre_def log_layout_def)
  have inlog: "\<not> in_log ?st (unat (?bl ! i))" if "i < n" for i using lay that by (simp add: log_layout_def)
  obtain s1 where s1: "write_log lg s = Ok s1" "bc_inv s1" "refs s1 = refs s" "busy s1 = busy s"
    "\<And>x. (\<forall>i < n. x \<noteq> lpos ?st i) \<Longrightarrow> lblock s1 x = lblock s x"
    "\<And>i. i < n \<Longrightarrow> lblock s1 (lpos ?st i) = lblock s (?bl ! i)" "wtrace s1 = wtrace s @ logged s lg n"
    using write_log_view [OF pre pin order_refl] nn by (auto simp: write_log_def)
  have u1: "in_use s1 = in_use s" by (simp add: in_use_def s1(3))
  obtain s2 h1 where s2: "write_head lg s1 = Ok s2" "is_head h1 n ?bl" "wrote s1 ?st h1 s2" "refs s2 = refs s1"
    using write_head_view [OF s1(2) dev nn nb lt] s1(3,4) st u1 use by auto
  have pre2: "log_pre lg n s2"
    using pre s1(3,4) s2(3,4) by (auto simp: log_pre_def wrote_def in_use_def)
  obtain s3 where s3: "install_trans False lg s2 = Ok s3" "bc_inv s3" "busy s3 = busy s2" "refs s3 = unpinned False s2 lg n"
    "\<And>x. (\<forall>i < n. x \<noteq> ?bl ! i) \<Longrightarrow> lblock s3 x = lblock s2 x"
    "\<And>i. i < n \<Longrightarrow> lblock s3 (?bl ! i) = lblock s2 (lpos ?st i)" "wtrace s3 = wtrace s2 @ installed s2 lg n"
    using install_view [OF pre2 order_refl, of False] pin nn s1(3) s2(4) by (auto simp: install_trans_def)
  have r3: "refs s3 = unpinned False s lg n" using s3(4) s2(4) s1(3) by (intro ext) (auto simp: unpinned_def)
  have "in_use s3 \<le> in_use s" by (rule in_use_mono) (simp add: r3 unpinned_def)
  then have u3: "in_use s3 < NBUF" using use by simp
  have st3: "refs s3 ?st = 0" "\<not> busy s3 ?st"
    using r3 st s3(3) s2(3) s1(4) by (simp_all add: unpinned_def wrote_def)
  have z: "lh_n (lg\<lparr>lh_n := 0\<rparr>) = int 0" by simp
  obtain s4 h0 where s4: "write_head (lg\<lparr>lh_n := 0\<rparr>) s3 = Ok s4" "is_head h0 0 ?bl" "wrote s3 ?st h0 s4" "refs s4 = refs s3"
    using write_head_view [OF s3(2) _ z, of] dev lt st3 u3 by auto
  have "commit lg s = Ok (lg\<lparr>lh_n := 0\<rparr>, s4)" using s1(1) s2(1) s3(1) s4(1) n nn by (simp add: commit_def Let_def)
  moreover have lp: "lblock s2 (lpos ?st i) = lblock s (?bl ! i)" if "i < n" for i
    using s2(3) s1(6) [OF that] lpos_not_start [OF lay, of i] that nb by (simp add: wrote_def)
  then have "installed s2 lg n = homes s lg n" by (simp add: installed_def homes_def)
  moreover have "lblock s4 x = lblock s x" if x: "\<not> in_log ?st (unat x)" for x
  proof -
    have xs: "x \<noteq> ?st" using x in_log_start by metis
    have xl: "\<forall>i < n. x \<noteq> lpos ?st i" using x in_log_lpos [OF lay] nb by (metis less_le_trans)
    have 4: "lblock s4 x = lblock s3 x" "lblock s2 x = lblock s x"
      using s4(3) s2(3) s1(5) [OF xl] xs by (simp_all add: wrote_def)
    show ?thesis
    proof (cases "\<exists>i < n. x = ?bl ! i")
      case True
      then show ?thesis using 4 s3(6) lp by auto
    next
      case False
      then show ?thesis using 4 s3(5) by simp
    qed
  qed
  moreover have "wtrace s4 = wtrace s @ logged s lg n @ (unat ?st, h1) # homes s lg n @ [(unat ?st, h0)]"
    using s1(7) s2(3) s3(7) s4(3) calculation(2) by (simp add: wrote_def)
  moreover have "busy s4 = busy s" using s1(4) s2(3) s3(3) s4(3) by (simp add: wrote_def)
  moreover have "refs s4 = unpinned False s lg n" "bc_inv s4" using r3 s4(3,4) by (simp_all add: wrote_def)
  ultimately show ?thesis using s2(2) s4(2) by blast
qed

definition reboot :: "(nat \<Rightarrow> byte) \<Rightarrow> bstate" where
  "reboot d = binit (bstate0\<lparr>disk := d\<rparr>)"

lemma reboot_view:
  shows "bc_inv (reboot d)" and "lblock (reboot d) = (\<lambda>x. disk_block d (unat x))" and "refs (reboot d) = (\<lambda>_. 0)"
    and "busy (reboot d) = (\<lambda>_. False)" and "disk (reboot d) = d" and "wtrace (reboot d) = []" and "in_use (reboot d) = 0"
proof -
  have b: "bss (bstate0\<lparr>disk := d\<rparr>)" using bss_bstate0 by (simp add: bss_def)
  note v = binit_view [OF b]
  show "bc_inv (reboot d)" "lblock (reboot d) = (\<lambda>x. disk_block d (unat x))" "refs (reboot d) = (\<lambda>_. 0)"
    "busy (reboot d) = (\<lambda>_. False)" "in_use (reboot d) = 0"
    using v by (simp_all add: reboot_def in_use_def)
  show "disk (reboot d) = d" "wtrace (reboot d) = []"
    using same_core_binit [OF b] by (simp_all add: reboot_def same_core_def bstate0_def)
qed

definition replay :: "u32 \<Rightarrow> nat \<Rightarrow> u32 list \<Rightarrow> (nat \<Rightarrow> byte) \<Rightarrow> (nat \<times> byte list) list" where
  "replay start n bl d = map (\<lambda>i. (unat (bl ! i), disk_block d (unat (lpos start i)))) [0..<n]"

lemma recover_view:
  assumes dev: "ldev lg = 1" and len: "length (lh_block lg) = LOGBLOCKS"
    and lay: "log_layout (lstart lg) n bl" and hd: "is_head (disk_block d (unat (lstart lg))) n bl"
  shows "\<exists>lg' s' h0. recover_from_log lg (reboot d) = Ok (lg', s') \<and> lh_n lg' = 0 \<and> is_head h0 0 bl \<and> bc_inv s' \<and>
    wtrace s' = replay (lstart lg) n bl d @ [(unat (lstart lg), h0)] \<and>
    disk s' = apply_writes (replay (lstart lg) n bl d @ [(unat (lstart lg), h0)]) d"
proof -
  let ?st = "lstart lg"
  note rb = reboot_view [of d]
  have lt: "unat ?st < RAMDISK_BLOCKS" and nl: "n \<le> LOGBLOCKS" using lay by (simp_all add: log_layout_def)
  obtain s1 bl' where s1: "read_head lg (reboot d) = Ok (lg\<lparr>lh_n := int n, lh_block := bl'\<rparr>, s1)" "length bl' = LOGBLOCKS"
    "\<And>i. i < n \<Longrightarrow> bl' ! i = bl ! i" "bc_inv s1" "lblock s1 = lblock (reboot d)" "refs s1 = refs (reboot d)"
    "busy s1 = busy (reboot d)" "disk s1 = d" "wtrace s1 = []"
    using read_head_view [OF rb(1) dev len _ lt, of n bl] hd rb by auto
  let ?lg = "lg\<lparr>lh_n := int n, lh_block := bl'\<rparr>"
  have eq: "take n bl' = take n bl" using s1(2,3) lay nl by (intro nth_equalityI) (auto simp: log_layout_def)
  have u: "in_use s1 = 0" using rb(7) s1(6) by (simp add: in_use_def)
  have pre: "log_pre ?lg n s1"
    using s1(2-7) lay eq rb(3,4) u dev by (auto simp: log_pre_def log_layout_def)
  obtain s2 where s2: "install_trans True ?lg s1 = Ok s2" "bc_inv s2" "busy s2 = busy s1" "refs s2 = unpinned True s1 ?lg n"
    "wtrace s2 = wtrace s1 @ installed s1 ?lg n" "disk s2 = apply_writes (installed s1 ?lg n) (disk s1)"
    using install_view [OF pre order_refl, of True] u by (auto simp: install_trans_def)
  have ins: "installed s1 ?lg n = replay ?st n bl d"
    using s1(3,5) rb(2) by (simp add: installed_def replay_def)
  have u2: "refs s2 = (\<lambda>_. 0)" using s2(4) s1(6) rb(3) by (simp add: unpinned_def fun_eq_iff)
  have z: "lh_n (?lg\<lparr>lh_n := 0\<rparr>) = int 0" by simp
  obtain s3 h0 where s3: "write_head (?lg\<lparr>lh_n := 0\<rparr>) s2 = Ok s3" "is_head h0 0 bl'" "wrote s2 ?st h0 s3"
    using write_head_view [OF s2(2) _ z, of] dev lt u2 s2(3) s1(7) rb(4) by (auto simp: in_use_def)
  have "recover_from_log lg (reboot d) = Ok (?lg\<lparr>lh_n := 0\<rparr>, s3)"
    using s1(1) s2(1) s3(1) by (simp add: recover_from_log_def Let_def)
  moreover have "is_head h0 0 bl" using s3(2) by (simp add: is_head_def)
  moreover have "wtrace s3 = replay ?st n bl d @ [(unat ?st, h0)]"
    using s2(5) s3(3) s1(9) ins by (simp add: wrote_def)
  moreover have "disk s3 = apply_writes (replay ?st n bl d @ [(unat ?st, h0)]) d"
    using s2(6) s3(3) s1(8) ins by (simp add: wrote_def)
  moreover have "bc_inv s3" using s3(3) by (simp add: wrote_def)
  ultimately show ?thesis by (intro exI [of _ "?lg\<lparr>lh_n := 0\<rparr>"] exI [of _ s3] exI [of _ h0]) simp
qed


section \<open>The disk after some of the writes\<close>

lemma apply_writes_other:
  assumes "\<forall>(n, bs) \<in> set ws. length bs = BSIZE" and "x \<notin> fst ` set ws"
  shows "disk_block (apply_writes ws d) x = disk_block d x"
  unfolding apply_writes_def by (rule ram.rd_fold_notin [OF assms])

lemma apply_writes_map:
  assumes "\<And>i. i < n \<Longrightarrow> length (g i) = BSIZE" and "inj_on f {..<n}" and "i < n"
  shows "disk_block (apply_writes (map (\<lambda>i. (f i, g i)) [0..<n]) d) (f i) = g i"
  using assms
proof (induction n)
  case (Suc n)
  show ?case
  proof (cases "i = n")
    case True
    then show ?thesis using Suc.prems(1) by (simp add: disk_block_put)
  next
    case False
    then have "f i \<noteq> f n" using Suc.prems by (auto simp: inj_on_def)
    moreover have "inj_on f {..<n}" using Suc.prems(2) by (rule inj_on_subset) auto
    ultimately show ?thesis using Suc False by (simp add: disk_block_put)
  qed
qed simp

lemma take_map_upt: "take k (map h [0..<n]) = map h [0..<min k n]"
  by (simp add: take_map take_upt min_def)

lemma homes_inj: "log_layout start n bl \<Longrightarrow> inj_on (\<lambda>i. unat (bl ! i)) {..<n}"
  by (rule inj_onI) (auto simp: word_unat_eq_iff [symmetric] dest: home_inj)

lemma lpos_inj_on: "log_layout start n bl \<Longrightarrow> inj_on (\<lambda>i. unat (lpos start i)) {..<n}"
proof (rule inj_onI)
  fix i j
  assume lay: "log_layout start n bl" and "i \<in> {..<n}" "j \<in> {..<n}" "unat (lpos start i) = unat (lpos start j)"
  moreover have "n \<le> LOGBLOCKS" using lay by (simp add: log_layout_def)
  ultimately show "i = j" by (intro lpos_inj [OF lay]) (simp_all add: word_unat_eq_iff)
qed

text \<open>The disk after the first \<open>k\<close> blocks of the log have been written, before the header.\<close>

lemma before_commit:
  assumes inv: "bc_inv s" and lay: "log_layout (lstart lg) n (lh_block lg)" and k: "k \<le> n"
  shows "disk_block (apply_writes (logged s lg k) d) (unat (lstart lg)) = disk_block d (unat (lstart lg))"
    and "\<not> in_log (lstart lg) x \<Longrightarrow> disk_block (apply_writes (logged s lg k) d) x = disk_block d x"
    and "i < k \<Longrightarrow> disk_block (apply_writes (logged s lg k) d) (unat (lpos (lstart lg) i)) = lblock s (lh_block lg ! i)"
proof -
  have kb: "k \<le> LOGBLOCKS" using k lay by (simp add: log_layout_def)
  have len: "\<forall>(n, bs) \<in> set (logged s lg k). length bs = BSIZE" using length_lblock [OF inv] by (auto simp: logged_def)
  have key: "y \<in> fst ` set (logged s lg k) \<Longrightarrow> \<exists>i < LOGBLOCKS. y = unat (lpos (lstart lg) i)" for y
    using kb by (auto simp: logged_def) (metis less_le_trans)
  show "disk_block (apply_writes (logged s lg k) d) (unat (lstart lg)) = disk_block d (unat (lstart lg))"
    by (rule apply_writes_other [OF len]) (use key unat_lpos [OF lay] in fastforce)
  show "disk_block (apply_writes (logged s lg k) d) x = disk_block d x" if "\<not> in_log (lstart lg) x"
    by (rule apply_writes_other [OF len]) (use key in_log_lpos [OF lay] that in metis)
  have "inj_on (\<lambda>i. unat (lpos (lstart lg) i)) {..<k}" by (rule inj_on_subset [OF lpos_inj_on [OF lay]]) (use k in auto)
  then show "disk_block (apply_writes (logged s lg k) d) (unat (lpos (lstart lg) i)) = lblock s (lh_block lg ! i)" if "i < k"
    unfolding logged_def by (rule apply_writes_map [rotated]) (use that length_lblock [OF inv] in auto)
qed

text \<open>Writes to home locations leave the log alone and put the new contents in place.\<close>

lemma at_home:
  assumes lay: "log_layout start n bl" and k: "k \<le> n" and len: "\<And>i. length (g i) = BSIZE"
  defines "ws \<equiv> map (\<lambda>i. (unat (bl ! i), g i)) [0..<k]"
  shows "in_log start x \<Longrightarrow> disk_block (apply_writes ws d) x = disk_block d x"
    and "(\<forall>i < k. x \<noteq> unat (bl ! i)) \<Longrightarrow> disk_block (apply_writes ws d) x = disk_block d x"
    and "i < k \<Longrightarrow> disk_block (apply_writes ws d) (unat (bl ! i)) = g i"
proof -
  have l: "\<forall>(n, bs) \<in> set ws. length bs = BSIZE" using len by (auto simp: ws_def)
  show *: "disk_block (apply_writes ws d) x = disk_block d x" if "\<forall>i < k. x \<noteq> unat (bl ! i)" for x
    by (rule apply_writes_other [OF l]) (use that in \<open>auto simp: ws_def\<close>)
  show "disk_block (apply_writes ws d) x = disk_block d x" if "in_log start x"
    by (rule *) (use that lay k in \<open>auto simp: log_layout_def\<close>)
  have "inj_on (\<lambda>i. unat (bl ! i)) {..<k}" by (rule inj_on_subset [OF homes_inj [OF lay]]) (use k in auto)
  then show "disk_block (apply_writes ws d) (unat (bl ! i)) = g i" if "i < k"
    unfolding ws_def by (rule apply_writes_map [rotated]) (use that len in auto)
qed


section \<open>Crashes\<close>

text \<open>The contents of a disk once the blocks that its log names are installed.\<close>

definition redone :: "u32 \<Rightarrow> nat \<Rightarrow> u32 list \<Rightarrow> (nat \<Rightarrow> byte) \<Rightarrow> nat \<Rightarrow> byte list" where
  "redone start n bl d x = (case find (\<lambda>i. unat (bl ! i) = x) [0..<n] of
     None \<Rightarrow> disk_block d x | Some i \<Rightarrow> disk_block d (unat (lpos start i)))"

definition committed :: "bstate \<Rightarrow> log \<Rightarrow> nat \<Rightarrow> nat \<Rightarrow> byte list" where
  "committed s lg n x = (case find (\<lambda>i. unat (lh_block lg ! i) = x) [0..<n] of
     None \<Rightarrow> disk_block (disk s) x | Some i \<Rightarrow> lblock s (lh_block lg ! i))"

lemma redone_0 [simp]: "redone start 0 bl d x = disk_block d x"
  by (simp add: redone_def)

lemma initlog_eq: "initlog dev st lg s = recover_from_log (lg\<lparr>lstart := st, ldev := dev\<rparr>) s"
  by (simp add: initlog_def)

lemma length_log0 [simp]: "length (lh_block log0) = LOGBLOCKS"
  by (simp add: log0_def)

lemma at_home_find:
  assumes lay: "log_layout start n bl" and k: "k \<le> n" and len: "\<And>i. length (g i) = BSIZE"
  shows "disk_block (apply_writes (map (\<lambda>i. (unat (bl ! i), g i)) [0..<k]) d) x =
    (case find (\<lambda>i. unat (bl ! i) = x) [0..<k] of None \<Rightarrow> disk_block d x | Some i \<Rightarrow> g i)"
proof (cases "find (\<lambda>i. unat (bl ! i) = x) [0..<k]")
  case None
  then have "\<forall>i < k. x \<noteq> unat (bl ! i)" by (auto simp: find_upt_None)
  then show ?thesis using None at_home(2) [where g = g, OF lay k len] by simp
next
  case (Some i)
  then show ?thesis using at_home(3) [where g = g, OF lay k len] find_upt_Some [OF Some] by auto
qed

lemma recover_redone:
  assumes lay: "log_layout st n bl" and hd: "is_head (disk_block d (unat st)) n bl"
  shows "\<exists>lg' s' h0. initlog 1 st log0 (reboot d) = Ok (lg', s') \<and> lh_n lg' = 0 \<and> is_head h0 0 bl \<and>
    wtrace s' = replay st n bl d @ [(unat st, h0)] \<and> disk s' = apply_writes (wtrace s') d \<and> bc_inv s' \<and>
    (\<forall>x. \<not> in_log st x \<longrightarrow> disk_block (disk s') x = redone st n bl d x)"
proof -
  obtain lg' s' h0 where r: "initlog 1 st log0 (reboot d) = Ok (lg', s')" "lh_n lg' = 0" "is_head h0 0 bl"
    "wtrace s' = replay st n bl d @ [(unat st, h0)]" "disk s' = apply_writes (replay st n bl d @ [(unat st, h0)]) d" "bc_inv s'"
    using recover_view [of "log0\<lparr>lstart := st, ldev := 1\<rparr>" n bl d] lay hd by (auto simp: initlog_eq)
  have l: "length h0 = BSIZE" using r(3) by (simp add: is_head_def)
  have "disk_block (disk s') x = redone st n bl d x" if x: "\<not> in_log st x" for x
  proof -
    have "x \<noteq> unat st" using x in_log_start by blast
    then show ?thesis
      using at_home_find [OF lay order_refl, of "\<lambda>i. disk_block d (unat (lpos st i))" d x]
      by (simp add: r(5) disk_block_put [OF l] replay_def redone_def)
  qed
  then show ?thesis using r by auto
qed

lemma is_head_0: "is_head d 0 bl = is_head d 0 bl'"
  by (simp add: is_head_def)

lemma log_layout_le: "log_layout st n bl \<Longrightarrow> m \<le> n \<Longrightarrow> log_layout st m bl"
  using distinct_take [of "take n bl" m] by (simp add: log_layout_def min_def)

lemma in_logD: "in_log st x \<Longrightarrow> x = unat st \<or> (\<exists>i < LOGBLOCKS. x = unat st + i + 1)"
  by (auto simp: in_log_def intro: exI [of _ "x - unat st - 1"])

text \<open>The three phases of a commit.\<close>

lemma crash_early:
  assumes inv: "bc_inv s" and lay: "log_layout (lstart lg) n (lh_block lg)" and k: "k \<le> n"
    and hd: "is_head (disk_block d (unat (lstart lg))) 0 (lh_block lg)"
  shows "is_head (disk_block (apply_writes (logged s lg k) d) (unat (lstart lg))) 0 (lh_block lg)"
    and "\<not> in_log (lstart lg) x \<Longrightarrow> redone (lstart lg) 0 (lh_block lg) (apply_writes (logged s lg k) d) x = disk_block d x"
  using before_commit [where d = d, OF inv lay k] hd by simp_all

lemma crash_late:
  assumes inv: "bc_inv s" and lay: "log_layout (lstart lg) n (lh_block lg)" and k: "k \<le> n"
    and hd: "is_head h1 n (lh_block lg)"
  defines "d' \<equiv> apply_writes (take k (homes s lg n)) (put_block (unat (lstart lg)) h1 (apply_writes (logged s lg n) (disk s)))"
  shows "is_head (disk_block d' (unat (lstart lg))) n (lh_block lg)"
    and "\<not> in_log (lstart lg) x \<Longrightarrow> redone (lstart lg) n (lh_block lg) d' x = committed s lg n x"
proof -
  let ?st = "lstart lg" and ?bl = "lh_block lg"
  have l1: "length h1 = BSIZE" using hd by (simp add: is_head_def)
  have nl: "n \<le> LOGBLOCKS" using lay by (simp add: log_layout_def)
  have ll: "length (lblock s y) = BSIZE" for y by (rule length_lblock [OF inv])
  have tk: "take k (homes s lg n) = map (\<lambda>i. (unat (?bl ! i), lblock s (?bl ! i))) [0..<k]"
    using k by (simp add: homes_def take_map_upt min_def)
  note h = at_home [where g = "\<lambda>i. lblock s (?bl ! i)", OF lay k ll]
  show "is_head (disk_block d' (unat ?st)) n ?bl"
    using h(1) in_log_start hd by (simp add: d'_def tk disk_block_put [OF l1])
  have lg: "disk_block d' (unat (lpos ?st i)) = lblock s (?bl ! i)" if "i < n" for i
  proof -
    have "unat (lpos ?st i) \<noteq> unat ?st" using unat_lpos [OF lay, of i] that nl by simp
    then show ?thesis
      using h(1) in_log_lpos [OF lay, of i] before_commit(3) [OF inv lay order_refl that] that nl
      by (simp add: d'_def tk disk_block_put [OF l1])
  qed
  show "redone ?st n ?bl d' x = committed s lg n x" if x: "\<not> in_log ?st x"
  proof (cases "find (\<lambda>i. unat (?bl ! i) = x) [0..<n]")
    case None
    then have "\<forall>i < k. x \<noteq> unat (?bl ! i)" using k unfolding find_upt_None by (metis less_le_trans)
    moreover have "x \<noteq> unat ?st" using x in_log_start by blast
    ultimately have "disk_block d' x = disk_block (disk s) x"
      using h(2) before_commit(2) [OF inv lay order_refl x] by (simp add: d'_def tk disk_block_put [OF l1])
    then show ?thesis using None by (simp add: redone_def committed_def)
  next
    case (Some i)
    then show ?thesis using lg find_upt_Some [OF Some] by (simp add: redone_def committed_def)
  qed
qed

lemma crash_done:
  assumes inv: "bc_inv s" and lay: "log_layout (lstart lg) n (lh_block lg)"
    and hd: "is_head h1 n (lh_block lg)" "is_head h0 0 (lh_block lg)"
  defines "d' \<equiv> put_block (unat (lstart lg)) h0 (apply_writes (homes s lg n)
    (put_block (unat (lstart lg)) h1 (apply_writes (logged s lg n) (disk s))))"
  shows "is_head (disk_block d' (unat (lstart lg))) 0 (lh_block lg)"
    and "\<not> in_log (lstart lg) x \<Longrightarrow> redone (lstart lg) 0 (lh_block lg) d' x = committed s lg n x"
proof -
  let ?st = "lstart lg" and ?bl = "lh_block lg"
  have l: "length h1 = BSIZE" "length h0 = BSIZE" using hd by (simp_all add: is_head_def)
  have ll: "length (lblock s y) = BSIZE" for y by (rule length_lblock [OF inv])
  show "is_head (disk_block d' (unat ?st)) 0 ?bl" using hd(2) by (simp add: d'_def disk_block_put [OF l(2)])
  show "redone ?st 0 ?bl d' x = committed s lg n x" if x: "\<not> in_log ?st x"
  proof -
    have "x \<noteq> unat ?st" using x in_log_start by blast
    then show ?thesis
      using at_home_find [OF lay order_refl ll, of "\<lambda>i. ?bl ! i"] before_commit(2) [OF inv lay order_refl x]
      by (simp add: d'_def disk_block_put [OF l(1)] disk_block_put [OF l(2)] homes_def committed_def split: option.split)
  qed
qed


lemma take_commit:
  assumes "length A = n" and "length C = n"
  shows "take k (A @ (a, h1) # C @ [(b, h0)]) =
    (if k \<le> n then take k A else if k \<le> 2 * n + 1 then A @ (a, h1) # take (k - n - 1) C else A @ (a, h1) # C @ [(b, h0)])"
proof -
  consider (1) "k \<le> n" | (2) "n < k" "k \<le> 2 * n + 1" | (3) "2 * n + 1 < k" by linarith
  then show ?thesis
  proof cases
    case 2
    then obtain j where "k = n + Suc j" "j \<le> n" using assms by (metis add_Suc_right less_iff_Suc_add mult_2 add_le_cancel_left Suc_eq_plus1 Suc_le_mono)
    then show ?thesis using assms by simp
  qed (use assms in simp_all)
qed

section \<open>Updates inside a transaction\<close>

lemma absorb_cases:
  "i + k \<le> length bl \<Longrightarrow> (absorb bl bn i k = i + k \<and> (\<forall>j < k. bl ! (i + j) \<noteq> bn)) \<or>
    (\<exists>j < k. absorb bl bn i k = i + j \<and> bl ! (i + j) = bn)"
proof (induction k arbitrary: i)
  case (Suc k)
  show ?case
  proof (cases "bl ! i = bn")
    case True
    then show ?thesis by auto
  next
    case False
    have "(absorb bl bn (Suc i) k = Suc i + k \<and> (\<forall>j < k. bl ! (Suc i + j) \<noteq> bn)) \<or>
      (\<exists>j < k. absorb bl bn (Suc i) k = Suc i + j \<and> bl ! (Suc i + j) = bn)"
      using Suc.IH [of "Suc i"] Suc.prems by simp
    then show ?thesis
    proof
      assume a: "absorb bl bn (Suc i) k = Suc i + k \<and> (\<forall>j < k. bl ! (Suc i + j) \<noteq> bn)"
      have "bl ! (i + j) \<noteq> bn" if "j < Suc k" for j using a False that by (cases j) auto
      then show ?thesis using a False by simp
    next
      assume "\<exists>j < k. absorb bl bn (Suc i) k = Suc i + j \<and> bl ! (Suc i + j) = bn"
      then obtain j where "j < k" "absorb bl bn (Suc i) k = Suc i + j" "bl ! (Suc i + j) = bn" by blast
      then show ?thesis using False by (intro disjI2 exI [of _ "Suc j"]) simp
    qed
  qed
qed simp

text \<open>What a system call does to one block: read, modify, \<open>log_write\<close>, release.\<close>

definition log_update :: "u32 \<Rightarrow> byte list \<Rightarrow> log \<Rightarrow> bstate \<Rightarrow> (log \<times> bstate) outcome" where
  "log_update bn bs lg s =
     obind (bread 1 bn s) (\<lambda>(b, s1).
       obind (log_write b lg (set_data b bs s1)) (\<lambda>(lg', s2).
         obind (brelse b s2) (\<lambda>s3. Ok (lg', s3))))"

definition pinned :: "log \<Rightarrow> nat \<Rightarrow> bstate \<Rightarrow> bool" where
  "pinned lg n s \<longleftrightarrow> (\<forall>i < n. 0 < refs s (lh_block lg ! i))"

lemma log_layout_snoc:
  assumes lay: "log_layout st n bl" and n: "n < LOGBLOCKS" and new: "\<forall>j < n. bl ! j \<noteq> bn"
    and bn: "unat bn < RAMDISK_BLOCKS" "\<not> in_log st (unat bn)"
  shows "log_layout st (Suc n) (bl[n := bn])"
proof -
  have len: "length bl = LOGBLOCKS" using lay by (simp add: log_layout_def)
  have t: "take (Suc n) (bl[n := bn]) = take n bl @ [bn]" using n len by (simp add: take_Suc_conv_app_nth)
  have "bn \<notin> set (take n bl)" using new len n by (auto simp: in_set_conv_nth)
  then have "distinct (take (Suc n) (bl[n := bn]))" using lay by (simp add: t log_layout_def)
  moreover have "unat (bl[n := bn] ! i) < RAMDISK_BLOCKS \<and> \<not> in_log st (unat (bl[n := bn] ! i))" if "i < Suc n" for i
    using lay bn that n len by (cases "i = n") (auto simp: log_layout_def)
  ultimately show ?thesis using lay n by (simp add: log_layout_def)
qed

lemma log_update_view:
  assumes pre: "log_pre lg n s" and pin: "pinned lg n s" and n: "n < LOGBLOCKS" and out: "1 \<le> outstanding lg"
    and bn: "unat bn < RAMDISK_BLOCKS" "\<not> in_log (lstart lg) (unat bn)" "\<not> busy s bn"
    and room: "Suc (in_use s) < NBUF" and lim: "refs s bn < 2 ^ 32 - 2" and len: "length bs = BSIZE"
    and cl: "(\<exists>i < n. lh_block lg ! i = bn) \<or> refs s bn = 0"
  shows "\<exists>lg' n' s'. log_update bn bs lg s = Ok (lg', s') \<and> log_pre lg' n' s' \<and> pinned lg' n' s' \<and>
    lstart lg' = lstart lg \<and> outstanding lg' = outstanding lg \<and>
    take n (lh_block lg') = take n (lh_block lg) \<and> (\<exists>i < n'. lh_block lg' ! i = bn) \<and>
    n' = (if \<exists>i < n. lh_block lg ! i = bn then n else Suc n) \<and>
    lblock s' = (lblock s)(bn := bs) \<and> disk s' = disk s \<and> wtrace s' = wtrace s"
proof -
  let ?bl = "lh_block lg"
  have inv: "bc_inv s" and lay: "log_layout (lstart lg) n ?bl" and ln: "lh_n lg = int n" and lb: "length ?bl = LOGBLOCKS"
    using pre by (auto simp: log_pre_def log_layout_def)
  obtain b s1 where 1: "bread 1 bn s = Ok (b, s1)"
    using bread_succeeds [OF inv bn(1,3)] room by (auto simp: in_use_def)
  have lim1: "refs s bn < 2 ^ 32 - 1" using lim by simp
  note v1 = bread_view [OF inv 1 lim1]
  define s2 where "s2 = set_data b bs s1"
  note v2 = set_data_view [OF v1(1,2) len, folded s2_def]
  have r2: "ready s2 bn b" using v1(2) v2(5) by simp
  have bk: "blockno (bufs s2 ! b) = bn" using r2 by (simp add: ready_def holds_block_def)
  have lim2: "refs s2 bn < 2 ^ 32 - 1" using v1(4) v2(3) lim by simp
  define i where "i = absorb ?bl bn 0 n"
  define s3 where "s3 = (if i = n then bpin b s2 else s2)"
  define lg' where "lg' = lg\<lparr>lh_block := ?bl[i := bn], lh_n := (if i = n then int (Suc n) else int n)\<rparr>"
  have lw: "log_write b lg s2 = Ok (lg', s3)"
    using n out ln by (simp add: log_write_def Let_def bk i_def lg'_def s3_def)
  have ic: "(i = n \<and> (\<forall>j < n. ?bl ! j \<noteq> bn)) \<or> (i < n \<and> ?bl ! i = bn)"
    using absorb_cases [of 0 n ?bl bn] n lb by (auto simp: i_def)
  have v3: "bc_inv s3" "lblock s3 = lblock s2" "busy s3 = busy s2" "ready s3 = ready s2" "disk s3 = disk s2"
    "wtrace s3 = wtrace s2" "refs s3 = (refs s2)(bn := refs s2 bn + (if i = n then 1 else 0))"
    using bpin_view [OF v2(1) r2 lim2] v2(1) by (simp_all add: s3_def)
  have two: "refs s3 bn \<noteq> 1"
  proof (cases "i = n")
    case False
    then have "0 < refs s bn" using ic pin by (auto simp: pinned_def)
    then show ?thesis using False v3(7) v2(3) v1(4) by simp
  qed (use v3(7) v2(3) v1(4) in simp)
  have r3: "ready s3 bn b" using v3(4) r2 by simp
  obtain s4 where 4: "brelse b s3 = Ok s4" "bc_inv s4" "lblock s4 = lblock s3" "refs s4 = (refs s3)(bn := refs s3 bn - 1)"
    "busy s4 = (busy s3)(bn := False)" "disk s4 = disk s3" "wtrace s4 = wtrace s3"
    using brelse_view [OF v3(1) r3] two by metis
  have up: "log_update bn bs lg s = Ok (lg', s4)" using 1 lw 4(1) by (simp add: log_update_def s2_def)
  have refs4: "refs s4 = (refs s)(bn := refs s bn + (if i = n then 1 else 0))"
    using 4(4) v3(7) v2(3) v1(4) by (auto simp: fun_eq_iff)
  have busy4: "busy s4 = busy s" using 4(5) v3(3) v2(4) v1(5) bn(3) by (simp add: fun_eq_iff)
  have use4: "in_use s4 < NBUF" using in_use_upd [OF refs4] room by simp
  define n' where "n' = (if i = n then Suc n else n)"
  have lay': "log_layout (lstart lg) n' (lh_block lg')"
    using ic log_layout_snoc [OF lay n _ bn(1,2)] lay lb n by (auto simp: n'_def lg'_def list_update_id)
  have homes': "lh_block lg' ! j = (if j = i then bn else ?bl ! j)" if "j < n'" for j
    using that ic lb n by (auto simp: lg'_def n'_def nth_list_update split: if_splits)
  have jn: "j < n" if "j < n'" "j \<noteq> i" for j using that ic by (auto simp: n'_def split: if_splits)
  have "log_pre lg' n' s4"
    using pre lay' 4(2) busy4 refs4 use4 bn homes' jn lim by (auto simp: log_pre_def lg'_def n'_def split: if_splits)
  moreover have "pinned lg' n' s4"
    using pin homes' jn refs4 ic by (auto simp: pinned_def split: if_splits)
  moreover have "take n (lh_block lg') = take n ?bl" using ic by (auto simp: lg'_def list_update_id)
  moreover have "\<exists>j < n'. lh_block lg' ! j = bn" using homes' ic by (intro exI [of _ i]) (auto simp: n'_def)
  moreover have "n' = (if \<exists>i < n. ?bl ! i = bn then n else Suc n)" using ic by (auto simp: n'_def)
  moreover have "lblock s4 = (lblock s)(bn := bs)" "disk s4 = disk s" "wtrace s4 = wtrace s"
    using 4 v3 v2 v1 by simp_all
  ultimately show ?thesis using up by (intro exI [of _ lg'] exI [of _ n'] exI [of _ s4]) (simp add: lg'_def)
qed

text \<open>A transaction of one block on an empty disk.\<close>

lemma one_block_transaction:
  obtains lg s where "log_update 100 (replicate BSIZE 7) (log0\<lparr>lstart := 2, ldev := 1, outstanding := 1\<rparr>) (reboot (\<lambda>_. 0)) = Ok (lg, s)"
    and "log_pre lg 1 s" and "pinned lg 1 s" and "lstart lg = 2" and "lh_block lg ! 0 = 100"
    and "lblock s 100 = replicate BSIZE 7" and "disk s = (\<lambda>_. 0)"
proof -
  let ?lg = "log0\<lparr>lstart := 2, ldev := 1, outstanding := 1\<rparr>"
  note rb = reboot_view [of "\<lambda>_. 0"]
  have pre: "log_pre ?lg 0 (reboot (\<lambda>_. 0))"
    using rb by (simp add: log_pre_def log_layout_def) (simp add: log0_def)
  have "in_log 2 100 = False" by (simp add: in_log_def)
  then obtain lg n s where u: "log_update 100 (replicate BSIZE 7) ?lg (reboot (\<lambda>_. 0)) = Ok (lg, s)" "log_pre lg n s" "pinned lg n s"
    "lstart lg = 2" "\<exists>i < n. lh_block lg ! i = 100" "n = 1" "lblock s = (lblock (reboot (\<lambda>_. 0)))(100 := replicate BSIZE 7)"
    "disk s = (\<lambda>_. 0)"
    using log_update_view [OF pre, of 100 "replicate BSIZE 7"] rb by (auto simp: pinned_def)
  show ?thesis by (rule that [OF u(1)]) (use u in simp_all)
qed

lemma disk_block_const: "disk_block (\<lambda>_. c) n = replicate BSIZE c"
  by (simp add: disk_block_def map_replicate_const)

lemma le_word_replicate_0 [simp]: "le_word (replicate n 0) = 0"
  by (induction n) simp_all

lemma empty_head: "is_head (disk_block (\<lambda>_. 0) n) 0 bl"
  by (simp add: is_head_def disk_block_const get32_def slice_def)

section \<open>Properties\<close>

text \<open>
  C1: commits are atomic across crashes. Let \<open>s\<close> be a state with \<open>n\<close> blocks in the transaction, each
  pinned in the cache, at least one buffer free, and an empty log on the disk. Then \<open>commit\<close> returns; and if power is
  lost after any number \<open>k\<close> of its block writes, booting from that disk with an empty cache and running
  \<open>initlog\<close> succeeds, empties the log, and leaves every block outside the log as it was before the
  transaction when \<open>k \<le> n\<close> (the header had not been written), and as the transaction wrote it otherwise.
  There is no third possibility.
\<close>

theorem commit_crash_atomic:
  assumes pre: "log_pre lg n s" and pin: "\<And>i. i < n \<Longrightarrow> 0 < refs s (lh_block lg ! i)"
    and hd: "is_head (disk_block (disk s) (unat (lstart lg))) 0 (lh_block lg)"
  shows "\<exists>lg' s'. commit lg s = Ok (lg', s') \<and>
    (\<forall>k. \<exists>lgr sr. initlog 1 (lstart lg) log0
        (reboot (apply_writes (take k (drop (length (wtrace s)) (wtrace s'))) (disk s))) = Ok (lgr, sr) \<and>
      lh_n lgr = 0 \<and>
      (\<forall>x. \<not> in_log (lstart lg) x \<longrightarrow>
        disk_block (disk sr) x = (if k \<le> n then disk_block (disk s) x else committed s lg n x)))"
proof (cases "n = 0")
  case True
  have lay: "log_layout (lstart lg) 0 (lh_block lg)" and z: "lh_n lg = 0" using pre True by (simp_all add: log_pre_def)
  have "commit lg s = Ok (lg, s)" using z by (simp add: commit_def)
  moreover have "committed s lg n x = disk_block (disk s) x" for x using True by (simp add: committed_def)
  moreover obtain lgr sr where "initlog 1 (lstart lg) log0 (reboot (disk s)) = Ok (lgr, sr)" "lh_n lgr = 0"
    "\<forall>x. \<not> in_log (lstart lg) x \<longrightarrow> disk_block (disk sr) x = disk_block (disk s) x"
    using recover_redone [OF lay hd] by auto
  ultimately show ?thesis by auto
next
  case False
  let ?st = "lstart lg" and ?bl = "lh_block lg"
  have inv: "bc_inv s" and lay: "log_layout ?st n ?bl" using pre by (simp_all add: log_pre_def)
  obtain s' h1 h0 where c: "commit lg s = Ok (lg\<lparr>lh_n := 0\<rparr>, s')" and h1: "is_head h1 n ?bl" and h0: "is_head h0 0 ?bl"
    and w: "wtrace s' = wtrace s @ logged s lg n @ (unat ?st, h1) # homes s lg n @ [(unat ?st, h0)]"
    using commit_view [OF pre _ pin] False by blast
  have "\<exists>lgr sr. initlog 1 ?st log0 (reboot (apply_writes (take k (drop (length (wtrace s)) (wtrace s'))) (disk s))) = Ok (lgr, sr) \<and>
      lh_n lgr = 0 \<and> (\<forall>x. \<not> in_log ?st x \<longrightarrow>
        disk_block (disk sr) x = (if k \<le> n then disk_block (disk s) x else committed s lg n x))" for k
  proof -
    define d' where "d' = apply_writes (take k (drop (length (wtrace s)) (wtrace s'))) (disk s)"
    have len: "length (logged s lg n) = n" "length (homes s lg n) = n" by (simp_all add: logged_def homes_def)
    have dr: "drop (length (wtrace s)) (wtrace s') = logged s lg n @ (unat ?st, h1) # homes s lg n @ [(unat ?st, h0)]"
      by (simp add: w)
    note tk = take_commit [OF len, of k "unat ?st" h1 "unat ?st" h0, folded dr]
    have "\<exists>m \<le> n. is_head (disk_block d' (unat ?st)) m ?bl \<and> (\<forall>x. \<not> in_log ?st x \<longrightarrow> redone ?st m ?bl d' x =
        (if k \<le> n then disk_block (disk s) x else committed s lg n x))"
    proof (cases "k \<le> n")
      case True
      then have "d' = apply_writes (logged s lg k) (disk s)"
        by (simp add: d'_def tk) (simp add: logged_def take_map_upt min_def)
      then show ?thesis using crash_early [OF inv lay True hd] True by (intro exI [of _ 0]) simp
    next
      case late: False
      show ?thesis
      proof (cases "k \<le> 2 * n + 1")
        case True
        then have "d' = apply_writes (take (k - n - 1) (homes s lg n)) (put_block (unat ?st) h1 (apply_writes (logged s lg n) (disk s)))"
          using late by (simp add: d'_def tk) (simp add: apply_writes_def)
        moreover have "k - n - 1 \<le> n" using True by simp
        ultimately show ?thesis using crash_late [OF inv lay _ h1] late by (intro exI [of _ n]) simp
      next
        case False
        then have "d' = put_block (unat ?st) h0 (apply_writes (homes s lg n)
            (put_block (unat ?st) h1 (apply_writes (logged s lg n) (disk s))))"
          using late by (simp add: d'_def tk) (simp add: dr apply_writes_def)
        then show ?thesis using crash_done [OF inv lay h1 h0] late by (intro exI [of _ 0]) simp
      qed
    qed
    then obtain m where m: "m \<le> n" "is_head (disk_block d' (unat ?st)) m ?bl"
      "\<And>x. \<not> in_log ?st x \<Longrightarrow> redone ?st m ?bl d' x = (if k \<le> n then disk_block (disk s) x else committed s lg n x)" by blast
    have "log_layout ?st m ?bl" using log_layout_le [OF lay m(1)] .
    from recover_redone [OF this m(2)] m(3) show ?thesis unfolding d'_def by (metis (no_types, lifting))
  qed
  then show ?thesis using c by blast
qed

theorem commit_crash_atomic_witness:
  "\<exists>lg s lg' s' lgr sr. log_pre lg 1 s \<and> commit lg s = Ok (lg', s') \<and>
    initlog 1 2 log0 (reboot (apply_writes (take 2 (drop (length (wtrace s)) (wtrace s'))) (disk s))) = Ok (lgr, sr) \<and>
    disk_block (disk s) 100 = replicate BSIZE 0 \<and> disk_block (disk sr) 100 = replicate BSIZE 7"
proof -
  obtain lg s where w: "log_pre lg 1 s" "pinned lg 1 s" "lstart lg = 2" "lh_block lg ! 0 = 100"
    "lblock s 100 = replicate BSIZE 7" "disk s = (\<lambda>_. 0)"
    by (rule one_block_transaction)
  have hd: "is_head (disk_block (disk s) (unat (lstart lg))) 0 (lh_block lg)" using w(6) empty_head by simp
  have pin: "0 < refs s (lh_block lg ! i)" if "i < 1" for i using w(2) that by (simp add: pinned_def)
  obtain lg' s' where c: "commit lg s = Ok (lg', s')" and k: "\<And>k. \<exists>lgr sr. initlog 1 (lstart lg) log0
        (reboot (apply_writes (take k (drop (length (wtrace s)) (wtrace s'))) (disk s))) = Ok (lgr, sr) \<and>
      lh_n lgr = 0 \<and> (\<forall>x. \<not> in_log (lstart lg) x \<longrightarrow>
        disk_block (disk sr) x = (if k \<le> 1 then disk_block (disk s) x else committed s lg 1 x))"
    using commit_crash_atomic [OF w(1) pin hd] by blast
  have "disk_block (disk s) 100 = replicate BSIZE 0"
    using w(6) by (simp add: disk_block_const)
  moreover have "committed s lg 1 100 = replicate BSIZE 7" using w(4,5) by (simp add: committed_def)
  moreover have "\<not> in_log (lstart lg) 100" using w(3) by (simp add: in_log_def)
  moreover obtain lgr sr where "initlog 1 2 log0 (reboot (apply_writes (take 2 (drop (length (wtrace s)) (wtrace s'))) (disk s))) = Ok (lgr, sr)"
    "\<forall>x. \<not> in_log (lstart lg) x \<longrightarrow> disk_block (disk sr) x = committed s lg 1 x"
    using k [of 2] w(3) by auto
  ultimately show ?thesis using c w(1) by metis
qed

text \<open>
  C8: recovery may itself be interrupted. From any disk whose header names \<open>n\<close> blocks of a well-formed
  log, \<open>initlog\<close> returns; and if power is lost after any number of its block writes, booting again and running
  it to the end gives every block outside the log the contents that the undisturbed recovery gives it.
\<close>

theorem recovery_idempotent:
  assumes lay: "log_layout st n bl" and hd: "is_head (disk_block d (unat st)) n bl"
  shows "\<exists>lg s. initlog 1 st log0 (reboot d) = Ok (lg, s) \<and> lh_n lg = 0 \<and>
    (\<forall>k. \<exists>lg' s'. initlog 1 st log0 (reboot (apply_writes (take k (wtrace s)) d)) = Ok (lg', s') \<and> lh_n lg' = 0 \<and>
      (\<forall>x. \<not> in_log st x \<longrightarrow> disk_block (disk s') x = disk_block (disk s) x \<and> disk_block (disk s) x = redone st n bl d x))"
proof -
  obtain lg s h0 where r: "initlog 1 st log0 (reboot d) = Ok (lg, s)" "lh_n lg = 0" "is_head h0 0 bl"
    "wtrace s = replay st n bl d @ [(unat st, h0)]" "disk s = apply_writes (wtrace s) d"
    "\<And>x. \<not> in_log st x \<Longrightarrow> disk_block (disk s) x = redone st n bl d x"
    using recover_redone [OF lay hd] by blast
  have "\<exists>lg' s'. initlog 1 st log0 (reboot (apply_writes (take k (wtrace s)) d)) = Ok (lg', s') \<and> lh_n lg' = 0 \<and>
      (\<forall>x. \<not> in_log st x \<longrightarrow> disk_block (disk s') x = disk_block (disk s) x \<and> disk_block (disk s) x = redone st n bl d x)" for k
  proof (cases "k \<le> n")
    case True
    define d' where "d' = apply_writes (take k (wtrace s)) d"
    have d': "d' = apply_writes (map (\<lambda>i. (unat (bl ! i), disk_block d (unat (lpos st i)))) [0..<k]) d"
      using True by (simp add: d'_def r(4) replay_def take_map_upt min_def)
    note h = at_home [where g = "\<lambda>i. disk_block d (unat (lpos st i))", OF lay True length_disk_block, of _ d, folded d']
    have nl: "n \<le> LOGBLOCKS" using lay by (simp add: log_layout_def)
    have hd': "is_head (disk_block d' (unat st)) n bl" using h(1) in_log_start hd by simp
    have "redone st n bl d' x = redone st n bl d x" for x
    proof (cases "find (\<lambda>i. unat (bl ! i) = x) [0..<n]")
      case None
      then have "\<forall>i < k. x \<noteq> unat (bl ! i)" using True unfolding find_upt_None by (metis less_le_trans)
      then show ?thesis using None h(2) by (simp add: redone_def)
    next
      case (Some i)
      then have "i < LOGBLOCKS" using find_upt_Some [OF Some] nl by simp
      then show ?thesis using Some h(1) in_log_lpos [OF lay] by (simp add: redone_def)
    qed
    then show ?thesis using recover_redone [OF lay hd'] r(6) unfolding d'_def by (metis (no_types, lifting))
  next
    case False
    then have t: "apply_writes (take k (wtrace s)) d = disk s" by (simp add: r(4,5) replay_def)
    have l: "length h0 = BSIZE" using r(3) by (simp add: is_head_def)
    have "is_head (disk_block (disk s) (unat st)) 0 bl" using r(3-5) by (simp add: disk_block_put [OF l])
    from recover_redone [OF log_layout_le [OF lay le0] this] show ?thesis using r(6) by (auto simp: t)
  qed
  then show ?thesis using r(1,2) by blast
qed

text \<open>A disk with a committed transaction of one block: block 100 is in the log, at block 3.\<close>

definition crashed_disk :: "nat \<Rightarrow> byte" where
  "crashed_disk = put_block 3 (replicate BSIZE 7) (put_block 2 (put32 (put32 (replicate BSIZE 0) 0 1) 4 100) (\<lambda>_. 0))"

theorem recovery_idempotent_witness:
  "\<exists>lg s lg' s'. initlog 1 2 log0 (reboot crashed_disk) = Ok (lg, s) \<and>
    initlog 1 2 log0 (reboot (apply_writes (take 1 (wtrace s)) crashed_disk)) = Ok (lg', s') \<and>
    disk_block (disk s') 100 = disk_block (disk s) 100 \<and> disk_block (disk s) 100 = replicate BSIZE 7"
proof -
  let ?bl = "replicate LOGBLOCKS 100"
  have len: "length (put32 (put32 (replicate BSIZE 0) 0 1) 4 100) = BSIZE" by simp
  have lay: "log_layout 2 1 ?bl" by (simp add: log_layout_def in_log_def)
  have hd: "is_head (disk_block crashed_disk (unat (2 :: u32))) 1 ?bl"
    using len by (simp add: crashed_disk_def disk_block_put is_head_def)
  have "redone 2 1 ?bl crashed_disk 100 = replicate BSIZE 7"
    by (simp add: redone_def lpos_def crashed_disk_def disk_block_put)
  moreover have "\<not> in_log 2 100" by (simp add: in_log_def)
  ultimately show ?thesis using recovery_idempotent [OF lay hd] by metis
qed

end
