(* ===== verification/Xv6_Log_Ops.thy ===== *)
theory Xv6_Log_Ops
  imports Xv6_Log Xv6_Bio_Abs
begin

text \<open>
  Concurrent file system operations on one log. An operation calls \<open>begin_op\<close>, any number of \<open>log_write\<close>s
  and \<open>end_op\<close>, interleaved with those of other operations; \<open>begin_op\<close> waits by not being enabled. The
  commit of the last \<open>end_op\<close> is one step: while it runs \<open>committing\<close> keeps \<open>begin_op\<close> out, and no other operation
  is active. \<open>ops\<close> maps each active operation to the number of blocks it has added to the transaction.
\<close>

record opstate =
  olog :: log
  ocache :: bstate
  ops :: "nat \<Rightarrow> nat option"

inductive log_step :: "opstate \<Rightarrow> opstate \<Rightarrow> bool" where
  begin_step: "ops t i = None \<Longrightarrow> begin_op (olog t) = Ok lg \<Longrightarrow>
    log_step t (t\<lparr>olog := lg, ops := (ops t)(i \<mapsto> 0)\<rparr>)"
| write_step: "ops t i = Some k \<Longrightarrow> k < MAXOPBLOCKS \<Longrightarrow> log_write b (olog t) (ocache t) = Ok (lg, s) \<Longrightarrow>
    log_step t (t\<lparr>olog := lg, ocache := s, ops := (ops t)(i \<mapsto> k + nat (lh_n lg - lh_n (olog t)))\<rparr>)"
| cache_step: "log_step t (t\<lparr>ocache := s\<rparr>)"
| end_step: "ops t i = Some k \<Longrightarrow> end_op (olog t) (ocache t) = Ok (lg, s) \<Longrightarrow>
    log_step t (t\<lparr>olog := lg, ocache := s, ops := (ops t)(i := None)\<rparr>)"

definition op_init :: "opstate \<Rightarrow> bool" where
  "op_init t \<longleftrightarrow> lh_n (olog t) = 0 \<and> outstanding (olog t) = 0 \<and> \<not> committing (olog t) \<and> ops t = Map.empty"

definition reserved :: "(nat \<Rightarrow> nat option) \<Rightarrow> nat" where
  "reserved w = (\<Sum>i \<in> dom w. MAXOPBLOCKS - the (w i))"

definition op_inv :: "opstate \<Rightarrow> bool" where
  "op_inv t \<longleftrightarrow> finite (dom (ops t)) \<and> outstanding (olog t) = int (card (dom (ops t))) \<and> \<not> committing (olog t) \<and>
     outstanding (olog t) \<le> 3 \<and> 0 \<le> lh_n (olog t) \<and> lh_n (olog t) + int (reserved (ops t)) \<le> int LOGBLOCKS"

lemma reserved_upd_new: "finite (dom w) \<Longrightarrow> w i = None \<Longrightarrow> reserved (w(i \<mapsto> k)) = reserved w + (MAXOPBLOCKS - k)"
proof -
  assume a: "finite (dom w)" "w i = None"
  then have i: "i \<notin> dom w" by auto
  have "(\<Sum>j \<in> dom w. MAXOPBLOCKS - the ((w(i \<mapsto> k)) j)) = reserved w"
    unfolding reserved_def by (rule sum.cong) (use i in auto)
  then show ?thesis using a i by (simp add: reserved_def)
qed

lemma reserved_remove:
  assumes "finite (dom w)" and "w i = Some k"
  shows "reserved w = reserved (w(i := None)) + (MAXOPBLOCKS - k)"
proof -
  have "w = (w(i := None))(i \<mapsto> k)" using assms by auto
  moreover have "finite (dom (w(i := None)))" using assms by simp
  ultimately show ?thesis using reserved_upd_new [of "w(i := None)" i k] by simp
qed

lemma reserved_le:
  assumes "finite (dom w)"
  shows "reserved w \<le> MAXOPBLOCKS * card (dom w)"
proof -
  have "reserved w \<le> (\<Sum>i \<in> dom w. MAXOPBLOCKS)" unfolding reserved_def by (rule sum_mono) simp
  then show ?thesis by (simp add: mult.commute)
qed

lemma begin_op_Ok: "begin_op lg = Ok lg' \<longleftrightarrow> \<not> committing lg \<and>
    lh_n lg + (outstanding lg + 1) * int MAXOPBLOCKS \<le> int LOGBLOCKS \<and> lg' = lg\<lparr>outstanding := outstanding lg + 1\<rparr>"
  by (auto simp: begin_op_def)

lemma log_write_Ok:
  assumes "log_write b lg s = Ok (lg', s')" and "0 \<le> lh_n lg"
  shows "outstanding lg' = outstanding lg" and "committing lg' = committing lg"
    and "lh_n lg' = lh_n lg \<or> lh_n lg' = lh_n lg + 1"
  using assms by (auto simp: log_write_def Let_def split: if_splits)

lemma end_op_Ok:
  assumes "end_op lg s = Ok (lg', s')" and "0 \<le> lh_n lg"
  shows "outstanding lg' = outstanding lg - 1" and "\<not> committing lg'" and "0 \<le> lh_n lg'" and "lh_n lg' \<le> lh_n lg"
  using assms by (auto simp: end_op_def commit_def Let_def obind_eq_Ok split: if_splits)

lemma op_inv_step: "log_step t t' \<Longrightarrow> op_inv t \<Longrightarrow> op_inv t'"
proof (induction rule: log_step.induct)
  case (begin_step t i lg)
  then have f: "finite (dom (ops t))" and i: "i \<notin> dom (ops t)" by (auto simp: op_inv_def)
  then show ?case
    using begin_step reserved_upd_new [OF f, of i 0] reserved_le [OF f] by (auto simp: op_inv_def begin_op_Ok)
next
  case (write_step t i k b lg s)
  then have f: "finite (dom (ops t))" and n: "0 \<le> lh_n (olog t)" by (auto simp: op_inv_def)
  note w = log_write_Ok [OF write_step.hyps(3) n]
  let ?k = "k + nat (lh_n lg - lh_n (olog t))"
  have "reserved ((ops t)(i \<mapsto> ?k)) = reserved ((ops t)(i := None)) + (MAXOPBLOCKS - ?k)"
    using reserved_upd_new [of "(ops t)(i := None)" i ?k] f by simp
  moreover have "reserved (ops t) = reserved ((ops t)(i := None)) + (MAXOPBLOCKS - k)"
    by (rule reserved_remove [OF f write_step.hyps(1)])
  moreover have "dom ((ops t)(i \<mapsto> ?k)) = dom (ops t)" using write_step.hyps(1) by auto
  ultimately show ?case using write_step w f by (auto simp: op_inv_def)
next
  case (cache_step t s)
  then show ?case by (simp add: op_inv_def)
next
  case (end_step t i k lg s)
  then have f: "finite (dom (ops t))" and n: "0 \<le> lh_n (olog t)" by (auto simp: op_inv_def)
  note e = end_op_Ok [OF end_step.hyps(2) n]
  have "i \<in> dom (ops t)" using end_step.hyps(1) by auto
  then have "0 < card (dom (ops t))" using f by (auto simp: card_gt_0_iff)
  then have "int (card (dom (ops t) - {i})) = int (card (dom (ops t))) - 1" using \<open>i \<in> dom (ops t)\<close> by simp
  then show ?case
    using end_step e f reserved_remove [OF f end_step.hyps(1)] by (auto simp: op_inv_def)
qed

lemma op_inv_init: "op_init t \<Longrightarrow> op_inv t"
  by (simp add: op_init_def op_inv_def reserved_def)

lemma op_inv_reachable: "log_step\<^sup>*\<^sup>* t t' \<Longrightarrow> op_init t \<Longrightarrow> op_inv t'"
  by (induction rule: rtranclp_induct) (auto intro: op_inv_init op_inv_step)

section \<open>Properties\<close>

text \<open>
  C11: the log's reservation is enough. Whatever operations run concurrently, as long as each adds at most
  \<open>MAXOPBLOCKS\<close> blocks, the transaction never outgrows the log: in every reachable state \<open>log_write\<close> by an active
  operation that has not used up its share returns (neither panic of \<open>log_write\<close> happens), no \<open>end_op\<close> finds a
  commit in progress, at most three operations are active, and \<open>outstanding\<close> counts them.
\<close>

theorem log_reservation_suffices:
  assumes "op_init t0" and "log_step\<^sup>*\<^sup>* t0 t"
  shows "0 \<le> lh_n (olog t) \<and> lh_n (olog t) \<le> int LOGBLOCKS \<and> \<not> committing (olog t) \<and>
    outstanding (olog t) = int (card (dom (ops t))) \<and> card (dom (ops t)) \<le> 3 \<and>
    (\<forall>i k b. ops t i = Some k \<longrightarrow> k < MAXOPBLOCKS \<longrightarrow> is_Ok (log_write b (olog t) (ocache t)))"
proof -
  have inv: "op_inv t" by (rule op_inv_reachable [OF assms(2,1)])
  have "is_Ok (log_write b (olog t) (ocache t))" if a: "ops t i = Some k" "k < MAXOPBLOCKS" for i k b
  proof -
    have f: "finite (dom (ops t))" and i: "i \<in> dom (ops t)" using inv a by (auto simp: op_inv_def)
    then have "0 < card (dom (ops t))" by (auto simp: card_gt_0_iff)
    then have "1 \<le> outstanding (olog t)" using inv by (auto simp: op_inv_def)
    moreover have "lh_n (olog t) < int LOGBLOCKS" using inv reserved_remove [OF f a(1)] a(2) by (auto simp: op_inv_def)
    ultimately show ?thesis by (simp add: log_write_def Let_def)
  qed
  then show ?thesis using inv by (auto simp: op_inv_def)
qed

theorem log_reservation_suffices_witness:
  "\<exists>t. log_step\<^sup>*\<^sup>* \<lparr>olog = log0, ocache = bstate0, ops = Map.empty\<rparr> t \<and> ops t 0 = Some 0 \<and> ops t 1 = Some 0 \<and>
    is_Ok (log_write 0 (olog t) (ocache t))"
proof -
  let ?t = "\<lparr>olog = log0, ocache = bstate0, ops = Map.empty\<rparr>"
  let ?t1 = "?t\<lparr>olog := log0\<lparr>outstanding := 1\<rparr>, ops := [0 \<mapsto> 0]\<rparr>"
  let ?t2 = "?t1\<lparr>olog := log0\<lparr>outstanding := 2\<rparr>, ops := [0 \<mapsto> 0, 1 \<mapsto> 0]\<rparr>"
  have "log_step ?t ?t1" using log_step.begin_step [of ?t 0 "log0\<lparr>outstanding := 1\<rparr>"] by (simp add: begin_op_Ok log0_def)
  moreover have "log_step ?t1 ?t2"
    using log_step.begin_step [of ?t1 1 "log0\<lparr>outstanding := 2\<rparr>"] by (simp add: begin_op_Ok log0_def)
  ultimately have r: "log_step\<^sup>*\<^sup>* ?t ?t2" by (rule converse_rtranclp_into_rtranclp [OF _ r_into_rtranclp])
  have "op_init ?t" by (simp add: op_init_def log0_def)
  moreover have "ops ?t2 1 = Some 0" "(0 :: nat) < MAXOPBLOCKS" by simp_all
  ultimately have "is_Ok (log_write 0 (olog ?t2) (ocache ?t2))"
    using log_reservation_suffices [OF _ r] by blast
  then show ?thesis using r by (intro exI [of _ ?t2]) simp
qed

end
