(* ===== verification/Xv6_Fs.thy ===== *)
theory Xv6_Fs
  imports Xv6_Log
begin

unbundle bit_operations_syntax

text \<open>
  \<open>kernel/fs.c\<close> with \<open>kernel/fs.h\<close> and the inode of \<open>kernel/file.h\<close>: block allocation, inodes, file
  contents, directories and path names, on top of the buffer cache and the log.

  The state holds the cache, the log, the superblock in memory and the inode table; an \<open>ip\<close> is an
  index into the table, a null \<open>ip\<close> is \<open>None\<close>. Structures on disk are read from and written to the bytes of
  their block at their C offsets. The copies of \<open>readi\<close> and \<open>writei\<close> to and from the caller are
  arguments (\<open>cout\<close>, \<open>cin\<close>, standing for \<open>either_copyout\<close> and \<open>either_copyin\<close> with their first
  argument), with the caller's memory as a second state \<open>u\<close>. Messages printed on the console are left out.
\<close>

section \<open>Layout of the disk\<close>

record superblock =
  magic :: u32
  sbsize :: u32
  nblocks :: u32
  ninodes :: u32
  nlog :: u32
  logstart :: u32
  inodestart :: u32
  bmapstart :: u32

abbreviation (input) FSMAGIC :: u32 where "FSMAGIC \<equiv> 0x10203040"
abbreviation (input) NDIRECT :: nat where "NDIRECT \<equiv> 12"
abbreviation (input) NINDIRECT :: nat where "NINDIRECT \<equiv> 256"
abbreviation (input) MAXFILE :: nat where "MAXFILE \<equiv> 268"
abbreviation (input) IPB :: nat where "IPB \<equiv> 16"
abbreviation (input) BPB :: nat where "BPB \<equiv> 8192"
abbreviation (input) DIRSIZ :: nat where "DIRSIZ \<equiv> 14"
abbreviation (input) T_DIR :: u16 where "T_DIR \<equiv> 1"
abbreviation (input) T_FILE :: u16 where "T_FILE \<equiv> 2"
abbreviation (input) T_DEVICE :: u16 where "T_DEVICE \<equiv> 3"

record dinode =
  dtype :: u16
  dmajor :: u16
  dminor :: u16
  dnlink :: u16
  dsize :: u32
  daddrs :: "u32 list"

definition get_sb :: "byte list \<Rightarrow> superblock" where
  "get_sb d = \<lparr>magic = get32 d 0, sbsize = get32 d 4, nblocks = get32 d 8, ninodes = get32 d 12,
     nlog = get32 d 16, logstart = get32 d 20, inodestart = get32 d 24, bmapstart = get32 d 28\<rparr>"

definition IBLOCK :: "u32 \<Rightarrow> superblock \<Rightarrow> u32" where
  "IBLOCK i sb = i div 16 + inodestart sb"

definition BBLOCK :: "u32 \<Rightarrow> superblock \<Rightarrow> u32" where
  "BBLOCK b sb = b div 8192 + bmapstart sb"

text \<open>\<open>(struct dinode*)bp->data + inum%IPB\<close>: 64 bytes per inode.\<close>

definition dinode_off :: "u32 \<Rightarrow> nat" where
  "dinode_off i = 64 * unat (i mod 16)"

definition get_addrs :: "byte list \<Rightarrow> nat \<Rightarrow> u32 list" where
  "get_addrs d off = map (\<lambda>i. get32 d (off + 4 * i)) [0..<NDIRECT + 1]"

definition put_addrs :: "byte list \<Rightarrow> nat \<Rightarrow> u32 list \<Rightarrow> byte list" where
  "put_addrs d off as = fold (\<lambda>i d. put32 d (off + 4 * i) (as ! i)) [0..<NDIRECT + 1] d"

definition get_dinode :: "byte list \<Rightarrow> nat \<Rightarrow> dinode" where
  "get_dinode d off = \<lparr>dtype = get16 d off, dmajor = get16 d (off + 2), dminor = get16 d (off + 4),
     dnlink = get16 d (off + 6), dsize = get32 d (off + 8), daddrs = get_addrs d (off + 12)\<rparr>"

definition put_dinode :: "byte list \<Rightarrow> nat \<Rightarrow> dinode \<Rightarrow> byte list" where
  "put_dinode d off di =
     put_addrs
       (put32 (put16 (put16 (put16 (put16 d off (dtype di)) (off + 2) (dmajor di)) (off + 4) (dminor di)) (off + 6) (dnlink di))
         (off + 8) (dsize di))
       (off + 12) (daddrs di)"

section \<open>State\<close>

record inode =
  idev :: u32
  inum :: u32
  iref :: int
  islock :: sleeplock
  ivalid :: bool
  itype :: u16
  imajor :: u16
  iminor :: u16
  nlink :: u16
  isize :: u32
  addrs :: "u32 list"

definition inode0 :: inode where
  "inode0 = \<lparr>idev = 0, inum = 0, iref = 0, islock = initsleeplock, ivalid = False, itype = 0, imajor = 0, iminor = 0,
     nlink = 0, isize = 0, addrs = replicate (NDIRECT + 1) 0\<rparr>"

record fsstate =
  fcache :: bstate
  flog :: log
  fsb :: superblock
  itable :: "inode list"

type_synonym 'a fcmd = "(fsstate, 'a) cmd"

definition ino :: "nat \<Rightarrow> fsstate \<Rightarrow> inode" where
  "ino ip s = itable s ! ip"

definition upd_ino :: "nat \<Rightarrow> (inode \<Rightarrow> inode) \<Rightarrow> unit fcmd" where
  "upd_ino ip f = modify (\<lambda>s. s\<lparr>itable := (itable s)[ip := f (itable s ! ip)]\<rparr>)"

text \<open>The calls into the cache and the log.\<close>

definition f_bread :: "u32 \<Rightarrow> u32 \<Rightarrow> nat fcmd" where
  "f_bread dev bn s = obind (bread dev bn (fcache s)) (\<lambda>(b, c). Ok (b, s\<lparr>fcache := c\<rparr>))"

definition f_brelse :: "nat \<Rightarrow> unit fcmd" where
  "f_brelse b s = obind (brelse b (fcache s)) (\<lambda>c. Ok ((), s\<lparr>fcache := c\<rparr>))"

definition f_log_write :: "nat \<Rightarrow> unit fcmd" where
  "f_log_write b s = obind (log_write b (flog s) (fcache s)) (\<lambda>(l, c). Ok ((), s\<lparr>flog := l, fcache := c\<rparr>))"

definition f_data :: "nat \<Rightarrow> byte list fcmd" where
  "f_data b = gets (\<lambda>s. bdata (bufs (fcache s) ! b))"

definition f_set_data :: "nat \<Rightarrow> byte list \<Rightarrow> unit fcmd" where
  "f_set_data b bs = modify (\<lambda>s. s\<lparr>fcache := set_data b bs (fcache s)\<rparr>)"

definition f_begin_op :: "unit fcmd" where
  "f_begin_op s = obind (begin_op (flog s)) (\<lambda>l. Ok ((), s\<lparr>flog := l\<rparr>))"

definition f_end_op :: "unit fcmd" where
  "f_end_op s = obind (end_op (flog s) (fcache s)) (\<lambda>(l, c). Ok ((), s\<lparr>flog := l, fcache := c\<rparr>))"

section \<open>Blocks\<close>

definition readsb :: "u32 \<Rightarrow> unit fcmd" where
  "readsb dev =
     bnd (f_bread dev 1) (\<lambda>bp.
     bnd (f_data bp) (\<lambda>d.
     thn (modify (\<lambda>s. s\<lparr>fsb := get_sb d\<rparr>))
         (f_brelse bp)))"

definition bzero :: "u32 \<Rightarrow> u32 \<Rightarrow> unit fcmd" where
  "bzero dev bno =
     bnd (f_bread dev bno) (\<lambda>bp.
     thn (f_set_data bp (replicate BSIZE 0))
    (thn (f_log_write bp)
         (f_brelse bp)))"

definition bit_set :: "byte list \<Rightarrow> nat \<Rightarrow> bool" where
  "bit_set d bi \<longleftrightarrow> d ! (bi div 8) AND push_bit (bi mod 8) 1 \<noteq> 0"

text \<open>One iteration of the outer loop of \<open>balloc\<close> looks at the bitmap block of \<open>b\<close>.\<close>

function balloc_loop :: "u32 \<Rightarrow> nat \<Rightarrow> u32 fcmd" where
  "balloc_loop dev b s =
     (if b < unat (sbsize (fsb s))
      then bnd (f_bread dev (BBLOCK (of_nat b) (fsb s))) (\<lambda>bp s1.
        let d = bdata (bufs (fcache s1) ! bp)
        in case find (\<lambda>bi. \<not> bit_set d bi) [0..<min BPB (unat (sbsize (fsb s)) - b)] of
             Some bi \<Rightarrow>
               thn (f_set_data bp (d[bi div 8 := d ! (bi div 8) OR push_bit (bi mod 8) 1]))
              (thn (f_log_write bp)
              (thn (f_brelse bp)
              (thn (bzero dev (of_nat (b + bi)))
                   (ret (of_nat (b + bi)))))) s1
           | None \<Rightarrow> bnd (f_brelse bp) (\<lambda>_ s2. balloc_loop dev (b + BPB) s2) s1) s
      else Ok (0, s))"
  by pat_completeness auto
termination
proof (relation "measure (\<lambda>(dev, b, s). 2 ^ 32 - b)")
  fix dev :: u32 and b :: nat and s s2 :: fsstate
  assume "b < unat (sbsize (fsb s))"
  then have "b < 2 ^ 32" using unsigned_less [of "sbsize (fsb s)", where 'a = nat] by simp
  then show "((dev, b + BPB, s2), dev, b, s) \<in> measure (\<lambda>(dev, b, s). 2 ^ 32 - b)" by auto
qed simp

declare balloc_loop.simps [simp del]

definition balloc :: "u32 \<Rightarrow> u32 fcmd" where
  "balloc dev = balloc_loop dev 0"

definition bfree :: "u32 \<Rightarrow> u32 \<Rightarrow> unit fcmd" where
  "bfree dev b =
     bnd (gets fsb) (\<lambda>sb.
     bnd (f_bread dev (BBLOCK b sb)) (\<lambda>bp.
     bnd (f_data bp) (\<lambda>d.
     let bi = unat (b mod 8192); m = push_bit (bi mod 8) 1
     in if d ! (bi div 8) AND m = 0 then panic ''freeing free block''
        else thn (f_set_data bp (d[bi div 8 := d ! (bi div 8) AND NOT m]))
            (thn (f_log_write bp)
                 (f_brelse bp)))))"

section \<open>Inodes\<close>

definition iinit :: "unit fcmd" where
  "iinit = modify (\<lambda>s. s\<lparr>itable := map (\<lambda>i. i\<lparr>islock := initsleeplock\<rparr>) (itable s)\<rparr>)"

text \<open>The loop of \<open>iget\<close>: \<open>Inl\<close> the entry in use for the inode, \<open>Inr\<close> the first free one.\<close>

primrec iget_scan :: "u32 \<Rightarrow> u32 \<Rightarrow> inode list \<Rightarrow> nat \<Rightarrow> nat option \<Rightarrow> nat + nat option" where
  "iget_scan dev i [] k emp = Inr emp"
| "iget_scan dev i (x # xs) k emp =
     (if iref x > 0 \<and> idev x = dev \<and> inum x = i then Inl k
      else iget_scan dev i xs (Suc k) (if emp = None \<and> iref x = 0 then Some k else emp))"

definition iget :: "u32 \<Rightarrow> u32 \<Rightarrow> nat fcmd" where
  "iget dev i =
     bnd (gets itable) (\<lambda>tab.
     case iget_scan dev i tab 0 None of
       Inl ip \<Rightarrow> thn (upd_ino ip (\<lambda>x. x\<lparr>iref := iref x + 1\<rparr>)) (ret ip)
     | Inr None \<Rightarrow> panic ''iget: no inodes''
     | Inr (Some ip) \<Rightarrow>
         thn (upd_ino ip (\<lambda>x. x\<lparr>idev := dev, inum := i, iref := 1, ivalid := False\<rparr>)) (ret ip))"

primrec ialloc_loop :: "u32 \<Rightarrow> u16 \<Rightarrow> nat list \<Rightarrow> nat option fcmd" where
  "ialloc_loop dev type [] = ret None"
| "ialloc_loop dev type (n # ns) =
     bnd (gets fsb) (\<lambda>sb.
     bnd (f_bread dev (IBLOCK (of_nat n) sb)) (\<lambda>bp.
     bnd (f_data bp) (\<lambda>d.
     let off = dinode_off (of_nat n)
     in if get16 d off = 0
        then thn (f_set_data bp (put16 (blit d off (replicate 64 0)) off type))
            (thn (f_log_write bp)
            (thn (f_brelse bp)
            (bnd (iget dev (of_nat n)) (\<lambda>ip. ret (Some ip)))))
        else thn (f_brelse bp)
                 (ialloc_loop dev type ns))))"

definition ialloc :: "u32 \<Rightarrow> u16 \<Rightarrow> nat option fcmd" where
  "ialloc dev type = bnd (gets fsb) (\<lambda>sb. ialloc_loop dev type [1..<unat (ninodes sb)])"

definition dinode_of :: "inode \<Rightarrow> dinode" where
  "dinode_of x = \<lparr>dtype = itype x, dmajor = imajor x, dminor = iminor x, dnlink = nlink x, dsize = isize x, daddrs = addrs x\<rparr>"

definition iupdate :: "nat \<Rightarrow> unit fcmd" where
  "iupdate ip =
     bnd (gets (ino ip)) (\<lambda>x.
     bnd (gets fsb) (\<lambda>sb.
     bnd (f_bread (idev x) (IBLOCK (inum x) sb)) (\<lambda>bp.
     bnd (f_data bp) (\<lambda>d.
     thn (f_set_data bp (put_dinode d (dinode_off (inum x)) (dinode_of x)))
    (thn (f_log_write bp)
         (f_brelse bp))))))"

definition idup :: "nat \<Rightarrow> nat fcmd" where
  "idup ip = thn (upd_ino ip (\<lambda>x. x\<lparr>iref := iref x + 1\<rparr>)) (ret ip)"

definition f_acquiresleep :: "nat \<Rightarrow> unit fcmd" where
  "f_acquiresleep ip s =
     obind (acquiresleep (curpid (fcache s)) (islock (ino ip s))) (\<lambda>l. upd_ino ip (\<lambda>x. x\<lparr>islock := l\<rparr>) s)"

definition f_releasesleep :: "nat \<Rightarrow> unit fcmd" where
  "f_releasesleep ip = upd_ino ip (\<lambda>x. x\<lparr>islock := releasesleep (islock x)\<rparr>)"

definition ilock :: "nat option \<Rightarrow> unit fcmd" where
  "ilock ipo =
     (case ipo of None \<Rightarrow> panic ''ilock''
      | Some ip \<Rightarrow>
          bnd (gets (ino ip)) (\<lambda>x.
          if iref x < 1 then panic ''ilock''
          else thn (f_acquiresleep ip)
            (if ivalid x then ret ()
             else bnd (gets fsb) (\<lambda>sb.
               bnd (f_bread (idev x) (IBLOCK (inum x) sb)) (\<lambda>bp.
               bnd (f_data bp) (\<lambda>d.
               let di = get_dinode d (dinode_off (inum x))
               in thn (upd_ino ip (\<lambda>x. x\<lparr>itype := dtype di, imajor := dmajor di, iminor := dminor di, nlink := dnlink di,
                        isize := dsize di, addrs := daddrs di\<rparr>))
                 (thn (f_brelse bp)
                 (thn (upd_ino ip (\<lambda>x. x\<lparr>ivalid := True\<rparr>))
                 (if dtype di = 0 then panic ''ilock: no type'' else ret ())))))))))"

definition iunlock :: "nat option \<Rightarrow> unit fcmd" where
  "iunlock ipo =
     (case ipo of None \<Rightarrow> panic ''iunlock''
      | Some ip \<Rightarrow>
          bnd (gets (\<lambda>s. holdingsleep (curpid (fcache s)) (islock (ino ip s)) \<and> iref (ino ip s) \<ge> 1)) (\<lambda>ok.
          if \<not> ok then panic ''iunlock'' else f_releasesleep ip))"

section \<open>File contents\<close>

definition bmap :: "nat \<Rightarrow> u32 \<Rightarrow> u32 fcmd" where
  "bmap ip bn =
     bnd (gets (ino ip)) (\<lambda>x.
     if unat bn < NDIRECT
     then let addr = addrs x ! unat bn
       in if addr = 0
          then bnd (balloc (idev x)) (\<lambda>addr.
               if addr = 0 then ret 0
               else thn (upd_ino ip (\<lambda>x. x\<lparr>addrs := (addrs x)[unat bn := addr]\<rparr>)) (ret addr))
          else ret addr
     else let bn = bn - 12
       in if unat bn < NINDIRECT
          then bnd (if addrs x ! NDIRECT = 0
                    then bnd (balloc (idev x)) (\<lambda>addr.
                         if addr = 0 then ret 0
                         else thn (upd_ino ip (\<lambda>x. x\<lparr>addrs := (addrs x)[NDIRECT := addr]\<rparr>)) (ret addr))
                    else ret (addrs x ! NDIRECT)) (\<lambda>ind.
               if ind = 0 then ret 0
               else bnd (f_bread (idev x) ind) (\<lambda>bp.
                    bnd (f_data bp) (\<lambda>a.
                    let addr = get32 a (4 * unat bn)
                    in bnd (if addr = 0
                            then bnd (balloc (idev x)) (\<lambda>addr.
                                 if addr \<noteq> 0
                                 then bnd (f_data bp) (\<lambda>a.
                                      thn (f_set_data bp (put32 a (4 * unat bn) addr))
                                     (thn (f_log_write bp)
                                          (ret addr)))
                                 else ret addr)
                            else ret addr) (\<lambda>addr.
                       thn (f_brelse bp) (ret addr)))))
          else panic ''bmap: out of range'')"

primrec itrunc_direct :: "nat \<Rightarrow> nat list \<Rightarrow> unit fcmd" where
  "itrunc_direct ip [] = ret ()"
| "itrunc_direct ip (i # is) =
     bnd (gets (ino ip)) (\<lambda>x.
     thn (if addrs x ! i \<noteq> 0
          then thn (bfree (idev x) (addrs x ! i)) (upd_ino ip (\<lambda>x. x\<lparr>addrs := (addrs x)[i := 0]\<rparr>))
          else ret ())
         (itrunc_direct ip is))"

primrec itrunc_indirect :: "u32 \<Rightarrow> nat \<Rightarrow> nat list \<Rightarrow> unit fcmd" where
  "itrunc_indirect dev bp [] = ret ()"
| "itrunc_indirect dev bp (j # js) =
     bnd (f_data bp) (\<lambda>a.
     thn (if get32 a (4 * j) \<noteq> 0 then bfree dev (get32 a (4 * j)) else ret ())
         (itrunc_indirect dev bp js))"

definition itrunc :: "nat \<Rightarrow> unit fcmd" where
  "itrunc ip =
     thn (itrunc_direct ip [0..<NDIRECT])
    (bnd (gets (ino ip)) (\<lambda>x.
     thn (if addrs x ! NDIRECT \<noteq> 0
          then bnd (f_bread (idev x) (addrs x ! NDIRECT)) (\<lambda>bp.
               thn (itrunc_indirect (idev x) bp [0..<NINDIRECT])
              (thn (f_brelse bp)
              (thn (bfree (idev x) (addrs x ! NDIRECT))
                   (upd_ino ip (\<lambda>x. x\<lparr>addrs := (addrs x)[NDIRECT := 0]\<rparr>)))))
          else ret ())
    (thn (upd_ino ip (\<lambda>x. x\<lparr>isize := 0\<rparr>))
         (iupdate ip))))"

definition iput :: "nat \<Rightarrow> unit fcmd" where
  "iput ip =
     bnd (gets (ino ip)) (\<lambda>x.
     thn (if iref x = 1 \<and> ivalid x \<and> nlink x = 0
          then thn (f_acquiresleep ip)
              (thn (itrunc ip)
              (thn (upd_ino ip (\<lambda>x. x\<lparr>itype := 0\<rparr>))
              (thn (iupdate ip)
              (thn (upd_ino ip (\<lambda>x. x\<lparr>ivalid := False\<rparr>))
                   (f_releasesleep ip)))))
          else ret ())
         (upd_ino ip (\<lambda>x. x\<lparr>iref := iref x - 1\<rparr>)))"

definition iunlockput :: "nat \<Rightarrow> unit fcmd" where
  "iunlockput ip = thn (iunlock (Some ip)) (iput ip)"

primrec ireclaim_loop :: "u32 \<Rightarrow> nat list \<Rightarrow> unit fcmd" where
  "ireclaim_loop dev [] = ret ()"
| "ireclaim_loop dev (n # ns) =
     bnd (gets fsb) (\<lambda>sb.
     bnd (f_bread dev (IBLOCK (of_nat n) sb)) (\<lambda>bp.
     bnd (f_data bp) (\<lambda>d.
     let off = dinode_off (of_nat n)
     in bnd (if get16 d off \<noteq> 0 \<and> get16 d (off + 6) = 0
             then bnd (iget dev (of_nat n)) (\<lambda>ip. ret (Some ip)) else ret None) (\<lambda>ipo.
        thn (f_brelse bp)
       (thn (case ipo of None \<Rightarrow> ret ()
             | Some ip \<Rightarrow> thn f_begin_op (thn (ilock (Some ip)) (thn (iunlock (Some ip)) (thn (iput ip) f_end_op))))
            (ireclaim_loop dev ns))))))"

definition ireclaim :: "u32 \<Rightarrow> unit fcmd" where
  "ireclaim dev = bnd (gets fsb) (\<lambda>sb. ireclaim_loop dev [1..<unat (ninodes sb)])"

definition f_initlog :: "u32 \<Rightarrow> unit fcmd" where
  "f_initlog dev s = obind (initlog dev (logstart (fsb s)) (flog s) (fcache s)) (\<lambda>(l, c). Ok ((), s\<lparr>flog := l, fcache := c\<rparr>))"

definition fsinit :: "u32 \<Rightarrow> unit fcmd" where
  "fsinit dev =
     thn (readsb dev)
    (bnd (gets fsb) (\<lambda>sb.
     if magic sb \<noteq> FSMAGIC then panic ''invalid file system''
     else thn (f_initlog dev) (ireclaim dev)))"

record stat =
  st_dev :: u32
  st_ino :: u32
  st_type :: u16
  st_nlink :: u16
  st_size :: u64

definition stati :: "nat \<Rightarrow> fsstate \<Rightarrow> stat" where
  "stati ip s = (let x = ino ip s in
     \<lparr>st_dev = idev x, st_ino = inum x, st_type = itype x, st_nlink = nlink x, st_size = ucast (isize x)\<rparr>)"

text \<open>\<open>min(n - tot, BSIZE - off%BSIZE)\<close>\<close>

definition io_chunk :: "u32 \<Rightarrow> u32 \<Rightarrow> u32 \<Rightarrow> u32" where
  "io_chunk tot off n = min (n - tot) (1024 - off mod 1024)"

lemma io_chunk_bounds:
  assumes "tot < n"
  shows "0 < unat (io_chunk tot off n)" and "unat tot + unat (io_chunk tot off n) \<le> unat n"
    and "unat (tot + io_chunk tot off n) = unat tot + unat (io_chunk tot off n)"
    and "unat off mod 1024 + unat (io_chunk tot off n) \<le> 1024"
proof -
  have m: "unat (off mod 1024) = unat off mod 1024" by (simp add: unat_mod)
  then have "unat (1024 - off mod 1024) = 1024 - unat off mod 1024"
    by (subst unat_sub) (simp_all add: word_le_nat_alt)
  moreover have s: "unat (n - tot) = unat n - unat tot" using assms by (simp add: unat_sub)
  ultimately have c: "unat (io_chunk tot off n) = min (unat n - unat tot) (1024 - unat off mod 1024)"
    by (simp add: io_chunk_def min_def word_le_nat_alt)
  have lt: "unat tot < unat n" using assms by (simp add: word_less_nat_alt)
  then show "0 < unat (io_chunk tot off n)" "unat off mod 1024 + unat (io_chunk tot off n) \<le> 1024" using c by auto
  show le: "unat tot + unat (io_chunk tot off n) \<le> unat n" using c lt by simp
  then show "unat (tot + io_chunk tot off n) = unat tot + unat (io_chunk tot off n)"
    using unsigned_less [of n, where 'a = nat] by (subst unat_add_lem [THEN iffD1]) auto
qed

lemma io_chunk_decr: "tot < n \<Longrightarrow> unat n - unat (tot + io_chunk tot off n) < unat n - unat tot"
  using io_chunk_bounds [of tot n off] by (simp add: word_less_nat_alt)

type_synonym 'u outcopy = "u64 \<Rightarrow> byte list \<Rightarrow> 'u \<Rightarrow> (int \<times> 'u) outcome"
type_synonym 'u incopy = "u64 \<Rightarrow> nat \<Rightarrow> 'u \<Rightarrow> ((int \<times> byte list) \<times> 'u) outcome"

function readi_loop :: "'u outcopy \<Rightarrow> nat \<Rightarrow> u32 \<Rightarrow> u32 \<Rightarrow> u64 \<Rightarrow> u32 \<Rightarrow> 'u \<Rightarrow> fsstate \<Rightarrow> (u32 \<times> 'u \<times> fsstate) outcome" where
  "readi_loop cout ip tot off dst n u s =
     (if tot < n
      then obind (bmap ip (off div 1024) s) (\<lambda>(addr, s1).
        if addr = 0 then Ok (tot, u, s1)
        else obind (f_bread (idev (ino ip s1)) addr s1) (\<lambda>(bp, s2).
          let m = io_chunk tot off n
          in obind (cout dst (slice (bdata (bufs (fcache s2) ! bp)) (unat (off mod 1024)) (unat m)) u) (\<lambda>(r, u1).
             if r = -1 then obind (f_brelse bp s2) (\<lambda>(_, s3). Ok (-1, u1, s3))
             else obind (f_brelse bp s2) (\<lambda>(_, s3).
               readi_loop cout ip (tot + m) (off + m) (dst + ucast m) n u1 s3))))
      else Ok (tot, u, s))"
  by pat_completeness auto
termination
  by (relation "measure (\<lambda>(cout, ip, tot, off, dst, n, u, s). unat n - unat tot)") (auto simp: io_chunk_decr)

declare readi_loop.simps [simp del]

definition readi :: "'u outcopy \<Rightarrow> nat \<Rightarrow> u64 \<Rightarrow> u32 \<Rightarrow> u32 \<Rightarrow> 'u \<Rightarrow> fsstate \<Rightarrow> (u32 \<times> 'u \<times> fsstate) outcome" where
  "readi cout ip dst off n u s =
     (let sz = isize (ino ip s)
      in if off > sz \<or> off + n < off then Ok (0, u, s)
         else readi_loop cout ip 0 off dst (if off + n > sz then sz - off else n) u s)"

text \<open>The loop of \<open>writei\<close> gives the total and the final offset. A failed copy may have changed the buffer.\<close>

function writei_loop ::
    "'u incopy \<Rightarrow> nat \<Rightarrow> u32 \<Rightarrow> u32 \<Rightarrow> u64 \<Rightarrow> u32 \<Rightarrow> 'u \<Rightarrow> fsstate \<Rightarrow> ((u32 \<times> u32) \<times> 'u \<times> fsstate) outcome" where
  "writei_loop cin ip tot off src n u s =
     (if tot < n
      then obind (bmap ip (off div 1024) s) (\<lambda>(addr, s1).
        if addr = 0 then Ok ((tot, off), u, s1)
        else obind (f_bread (idev (ino ip s1)) addr s1) (\<lambda>(bp, s2).
          let m = io_chunk tot off n
          in obind (cin src (unat m) u) (\<lambda>((r, bs), u1).
             obind (f_set_data bp (blit (bdata (bufs (fcache s2) ! bp)) (unat (off mod 1024)) bs) s2) (\<lambda>(_, s3).
             if r = -1 then obind (f_brelse bp s3) (\<lambda>(_, s4). Ok ((tot, off), u1, s4))
             else obind (f_log_write bp s3) (\<lambda>(_, s4). obind (f_brelse bp s4) (\<lambda>(_, s5).
               writei_loop cin ip (tot + m) (off + m) (src + ucast m) n u1 s5))))))
      else Ok ((tot, off), u, s))"
  by pat_completeness auto
termination
  by (relation "measure (\<lambda>(cin, ip, tot, off, src, n, u, s). unat n - unat tot)") (auto simp: io_chunk_decr)

declare writei_loop.simps [simp del]

definition writei :: "'u incopy \<Rightarrow> nat \<Rightarrow> u64 \<Rightarrow> u32 \<Rightarrow> u32 \<Rightarrow> 'u \<Rightarrow> fsstate \<Rightarrow> (u32 \<times> 'u \<times> fsstate) outcome" where
  "writei cin ip src off n u s =
     (if off > isize (ino ip s) \<or> off + n < off then Ok (-1, u, s)
      else if off + n > 274432 then Ok (-1, u, s)
      else obind (writei_loop cin ip 0 off src n u s) (\<lambda>((tot, off'), u1, s1).
        obind (thn (if off' > isize (ino ip s1) then upd_ino ip (\<lambda>x. x\<lparr>isize := off'\<rparr>) else ret ())
                   (iupdate ip) s1) (\<lambda>(_, s2).
        Ok (tot, u1, s2))))"

end
