(* ===== verification/Xv6_Dir.thy ===== *)
theory Xv6_Dir
  imports Xv6_Fs
begin

text \<open>
  The directory and path name part of \<open>kernel/fs.c\<close>. A name or path is the list of its bytes before
  the terminating zero; the name that \<open>skipelem\<close> leaves in its buffer is the list of at most \<open>DIRSIZ\<close>
  bytes that \<open>strncmp\<close> and \<open>strncpy\<close> with bound \<open>DIRSIZ\<close> see. A directory entry is its 16 bytes: the inode
  number, then the name.
\<close>

section \<open>Kernel-side copies\<close>

text \<open>\<open>readi\<close> and \<open>writei\<close> with a kernel buffer: the address is the offset in the buffer.\<close>

definition kout :: "byte list outcopy" where
  "kout dst bs buf = Ok (0, blit buf (unat dst) bs)"

definition kin :: "byte list incopy" where
  "kin src n buf = Ok ((0, slice buf (unat src) n), buf)"

section \<open>Directories\<close>

definition namecmp :: "byte list \<Rightarrow> byte list \<Rightarrow> int" where
  "namecmp s t = strncmp (list_view s) (list_view t) DIRSIZ"

definition de_inum :: "byte list \<Rightarrow> u16" where
  "de_inum de = get16 de 0"

definition de_name :: "byte list \<Rightarrow> byte list" where
  "de_name de = slice de 2 DIRSIZ"

definition read_dirent :: "string \<Rightarrow> nat \<Rightarrow> u32 \<Rightarrow> byte list fcmd" where
  "read_dirent msg dp off s =
     obind (readi kout dp 0 off 16 (replicate 16 0) s) (\<lambda>(r, de, s1).
       if r \<noteq> 16 then Panic msg else Ok (de, s1))"

text \<open>The offsets \<open>0, 16, ...\<close> below the size of the directory, which reading it does not change.\<close>

definition dir_offsets :: "u32 \<Rightarrow> u32 list" where
  "dir_offsets sz = map (\<lambda>k. of_nat (16 * k)) [0..<(unat sz + 15) div 16]"

primrec dirlookup_loop :: "nat \<Rightarrow> byte list \<Rightarrow> u32 list \<Rightarrow> (nat \<times> u32) option fcmd" where
  "dirlookup_loop dp name [] = ret None"
| "dirlookup_loop dp name (off # offs) =
     bnd (read_dirent ''dirlookup read'' dp off) (\<lambda>de.
     if de_inum de \<noteq> 0 \<and> namecmp name (de_name de) = 0
     then bnd (gets (ino dp)) (\<lambda>x. bnd (iget (idev x) (ucast (de_inum de))) (\<lambda>ip. ret (Some (ip, off))))
     else dirlookup_loop dp name offs)"

definition dirlookup :: "nat \<Rightarrow> byte list \<Rightarrow> (nat \<times> u32) option fcmd" where
  "dirlookup dp name =
     bnd (gets (ino dp)) (\<lambda>x.
     if itype x \<noteq> T_DIR then panic ''dirlookup not DIR''
     else dirlookup_loop dp name (dir_offsets (isize x)))"

primrec dirlink_scan :: "nat \<Rightarrow> u32 \<Rightarrow> u32 list \<Rightarrow> u32 fcmd" where
  "dirlink_scan dp end_off [] = ret end_off"
| "dirlink_scan dp end_off (off # offs) =
     bnd (read_dirent ''dirlink read'' dp off) (\<lambda>de.
     if de_inum de = 0 then ret off else dirlink_scan dp end_off offs)"

definition make_dirent :: "byte list \<Rightarrow> u32 \<Rightarrow> byte list" where
  "make_dirent name i = le_bytes 2 (ucast i :: u16) @ strncpy (list_view name) DIRSIZ"

definition dirlink :: "nat \<Rightarrow> byte list \<Rightarrow> u32 \<Rightarrow> int fcmd" where
  "dirlink dp name i =
     bnd (dirlookup dp name) (\<lambda>r.
     case r of
       Some (ip, _) \<Rightarrow> thn (iput ip) (ret (-1))
     | None \<Rightarrow>
         bnd (gets (\<lambda>s. isize (ino dp s))) (\<lambda>sz.
         bnd (dirlink_scan dp (of_nat (16 * ((unat sz + 15) div 16))) (dir_offsets sz)) (\<lambda>off s.
         obind (writei kin dp 0 off 16 (make_dirent name i) s) (\<lambda>(n, _, s1).
         Ok (if n \<noteq> 16 then -1 else 0, s1)))))"

section \<open>Path names\<close>

abbreviation (input) slash :: byte where "slash \<equiv> 47"

definition skipelem :: "byte list \<Rightarrow> (byte list \<times> byte list) option" where
  "skipelem path =
     (let p = dropWhile (\<lambda>c. c = slash) path
      in if p = [] then None
         else let elem = takeWhile (\<lambda>c. c \<noteq> slash) p;
                  rest = dropWhile (\<lambda>c. c \<noteq> slash) p
              in Some (dropWhile (\<lambda>c. c = slash) rest, if length elem \<ge> DIRSIZ then take DIRSIZ elem else elem))"

lemma skipelem_shorter:
  assumes "skipelem path = Some (path', name)"
  shows "length path' < length path"
proof -
  let ?p = "dropWhile (\<lambda>c. c = slash) path"
  have ne: "?p \<noteq> []" and p': "path' = dropWhile (\<lambda>c. c = slash) (dropWhile (\<lambda>c. c \<noteq> slash) ?p)"
    using assms by (auto simp: skipelem_def Let_def split: if_splits)
  have "hd ?p \<noteq> slash" using hd_dropWhile [OF ne] by simp
  then have "length (dropWhile (\<lambda>c. c \<noteq> slash) ?p) < length ?p"
    using ne length_dropWhile_le [of "\<lambda>c. c \<noteq> slash" "tl ?p"] by (cases ?p) (auto simp: less_Suc_eq_le)
  also have "\<dots> \<le> length path" by (rule length_dropWhile_le)
  finally show ?thesis unfolding p' by (rule le_less_trans [OF length_dropWhile_le])
qed

function namex_loop :: "bool \<Rightarrow> nat \<Rightarrow> byte list \<Rightarrow> byte list \<Rightarrow> fsstate \<Rightarrow> ((nat \<times> byte list) option \<times> fsstate) outcome" where
  "namex_loop parent ip path nm s =
     (case skipelem path of
        None \<Rightarrow>
          if parent then thn (iput ip) (ret None) s else Ok (Some (ip, nm), s)
      | Some (path', name) \<Rightarrow>
          bnd (ilock (Some ip)) (\<lambda>_ s1.
          if itype (ino ip s1) \<noteq> T_DIR then thn (iunlockput ip) (ret None) s1
          else if parent \<and> path' = [] then thn (iunlock (Some ip)) (ret (Some (ip, name))) s1
          else bnd (dirlookup ip name) (\<lambda>r s2.
            case r of
              None \<Rightarrow> thn (iunlockput ip) (ret None) s2
            | Some (nxt, _) \<Rightarrow> bnd (iunlockput ip) (\<lambda>_ s3. namex_loop parent nxt path' name s3) s2) s1) s)"
  by pat_completeness auto
termination
  by (relation "measure (\<lambda>(parent, ip, path, nm, s). length path)") (auto dest: skipelem_shorter)

declare namex_loop.simps [simp del]

definition namex :: "nat \<Rightarrow> byte list \<Rightarrow> bool \<Rightarrow> (nat \<times> byte list) option fcmd" where
  "namex cwd path parent =
     bnd (if path \<noteq> [] \<and> hd path = slash then iget 1 1 else idup cwd) (\<lambda>ip.
     namex_loop parent ip path [])"

definition namei :: "nat \<Rightarrow> byte list \<Rightarrow> nat option fcmd" where
  "namei cwd path = bnd (namex cwd path False) (\<lambda>r. ret (map_option fst r))"

definition nameiparent :: "nat \<Rightarrow> byte list \<Rightarrow> (nat \<times> byte list) option fcmd" where
  "nameiparent cwd path = namex cwd path True"

end
