(* ===== verification/Xv6_Pipe.thy ===== *)
theory Xv6_Pipe
  imports Xv6_Bytes Xv6_Riscv
begin

text \<open>
  \<open>kernel/pipe.c\<close>: the ring buffer of a pipe. \<open>nread\<close> and \<open>nwrite\<close> are 32-bit counters that run
  freely and wrap around; the slot of a byte is its number modulo \<open>PIPESIZE\<close>.

  A call of \<open>pipewrite\<close> or \<open>piperead\<close> runs under the pipe's lock until it returns or sleeps: one such
  section gives \<open>PRet\<close> the result or \<open>PSleep\<close> the progress made so far, from where a later section
  continues. \<open>pipe_step\<close> interleaves the sections of any number of readers and writers. The
  copies of single bytes from and to the caller (\<open>copyin\<close>, \<open>copyout\<close>) and whether the caller has been killed
  are arguments.
\<close>

abbreviation (input) PIPESIZE :: nat where "PIPESIZE \<equiv> 512"

record pipe =
  pdata :: "byte list"
  nread :: u32
  nwrite :: u32
  readopen :: bool
  writeopen :: bool

datatype psec = PSleep int | PRet int

type_synonym 'u incopy1 = "u64 \<Rightarrow> 'u \<Rightarrow> (byte option \<times> 'u) outcome"
type_synonym 'u outcopy1 = "u64 \<Rightarrow> byte \<Rightarrow> 'u \<Rightarrow> (int \<times> 'u) outcome"

section \<open>Operations\<close>

text \<open>The fields that \<open>pipealloc\<close> sets in a fresh page.\<close>

definition pipe_init :: "pipe \<Rightarrow> pipe" where
  "pipe_init pi = pi\<lparr>readopen := True, writeopen := True, nwrite := 0, nread := 0\<rparr>"

text \<open>\<open>pipeclose\<close>: also whether the page is to be freed.\<close>

definition pipe_close :: "bool \<Rightarrow> pipe \<Rightarrow> pipe \<times> bool" where
  "pipe_close writable pi =
     (let pi1 = (if writable then pi\<lparr>writeopen := False\<rparr> else pi\<lparr>readopen := False\<rparr>)
      in (pi1, \<not> readopen pi1 \<and> \<not> writeopen pi1))"

text \<open>\<open>pi->data[pi->nwrite++ % PIPESIZE] = ch\<close>\<close>

definition pipe_put :: "byte \<Rightarrow> pipe \<Rightarrow> pipe" where
  "pipe_put ch pi = pi\<lparr>pdata := (pdata pi)[unat (nwrite pi mod 512) := ch], nwrite := nwrite pi + 1\<rparr>"

function pipewrite_loop ::
    "'u incopy1 \<Rightarrow> bool \<Rightarrow> u64 \<Rightarrow> int \<Rightarrow> int \<Rightarrow> pipe \<Rightarrow> 'u \<Rightarrow> (psec \<times> pipe \<times> 'u) outcome" where
  "pipewrite_loop cin killed addr n i pi u =
     (if i < n
      then if \<not> readopen pi \<or> killed then Ok (PRet (-1), pi, u)
           else if nwrite pi = nread pi + 512 then Ok (PSleep i, pi, u)
           else obind (cin (addr + of_int i) u) (\<lambda>(r, u1).
             case r of None \<Rightarrow> Ok (PRet i, pi, u1)
             | Some ch \<Rightarrow> pipewrite_loop cin killed addr n (i + 1) (pipe_put ch pi) u1)
      else Ok (PRet i, pi, u))"
  by pat_completeness auto
termination
  by (relation "measure (\<lambda>(cin, killed, addr, n, i, pi, u). nat (n - i))") auto

declare pipewrite_loop.simps [simp del]

function piperead_loop ::
    "'u outcopy1 \<Rightarrow> u64 \<Rightarrow> int \<Rightarrow> int \<Rightarrow> pipe \<Rightarrow> 'u \<Rightarrow> (int \<times> pipe \<times> 'u) outcome" where
  "piperead_loop cout addr n i pi u =
     (if i < n
      then if nread pi = nwrite pi then Ok (i, pi, u)
           else obind (cout (addr + of_int i) (pdata pi ! unat (nread pi mod 512)) u) (\<lambda>(r, u1).
             if r = -1 then Ok (if i = 0 then -1 else i, pi, u1)
             else piperead_loop cout addr n (i + 1) (pi\<lparr>nread := nread pi + 1\<rparr>) u1)
      else Ok (i, pi, u))"
  by pat_completeness auto
termination
  by (relation "measure (\<lambda>(cout, addr, n, i, pi, u). nat (n - i))") auto

declare piperead_loop.simps [simp del]

definition piperead_sec :: "'u outcopy1 \<Rightarrow> bool \<Rightarrow> u64 \<Rightarrow> int \<Rightarrow> pipe \<Rightarrow> 'u \<Rightarrow> (psec \<times> pipe \<times> 'u) outcome" where
  "piperead_sec cout killed addr n pi u =
     (if nread pi = nwrite pi \<and> writeopen pi
      then if killed then Ok (PRet (-1), pi, u) else Ok (PSleep 0, pi, u)
      else obind (piperead_loop cout addr n 0 pi u) (\<lambda>(i, pi1, u1). Ok (PRet i, pi1, u1)))"

text \<open>A call that nobody else interferes with.\<close>

definition pipewrite :: "'u incopy1 \<Rightarrow> bool \<Rightarrow> u64 \<Rightarrow> int \<Rightarrow> pipe \<Rightarrow> 'u \<Rightarrow> (int \<times> pipe \<times> 'u) outcome" where
  "pipewrite cin killed addr n pi u =
     obind (pipewrite_loop cin killed addr n 0 pi u) (\<lambda>(r, pi1, u1).
       case r of PSleep _ \<Rightarrow> Blocks | PRet v \<Rightarrow> Ok (v, pi1, u1))"

definition piperead :: "'u outcopy1 \<Rightarrow> bool \<Rightarrow> u64 \<Rightarrow> int \<Rightarrow> pipe \<Rightarrow> 'u \<Rightarrow> (int \<times> pipe \<times> 'u) outcome" where
  "piperead cout killed addr n pi u =
     obind (piperead_sec cout killed addr n pi u) (\<lambda>(r, pi1, u1).
       case r of PSleep _ \<Rightarrow> Blocks | PRet v \<Rightarrow> Ok (v, pi1, u1))"

section \<open>The ring as a queue\<close>

definition pipe_inv :: "pipe \<Rightarrow> bool" where
  "pipe_inv pi \<longleftrightarrow> length (pdata pi) = PIPESIZE \<and> unat (nwrite pi - nread pi) \<le> PIPESIZE"

definition pcontents :: "pipe \<Rightarrow> byte list" where
  "pcontents pi = map (\<lambda>k. pdata pi ! unat ((nread pi + of_nat k) mod 512)) [0..<unat (nwrite pi - nread pi)]"

lemma unat_mod512: "unat (x mod 512) = unat (x :: u32) mod 512"
  by (simp add: unat_mod)

lemma mod_offset_inj:
  fixes a i j q :: nat
  assumes "(a + i) mod q = (a + j) mod q" and "i < q" and "j < q"
  shows "i = j"
proof -
  have *: "j = i" if "(a + i) mod q = (a + j) mod q" "i \<le> j" "j < q" for i j
  proof -
    have "q dvd (a + j) - (a + i)" using that mod_eq_dvd_iff_nat [of "a + i" "a + j" q] by simp
    then have "q dvd j - i" by simp
    then show ?thesis using that(2,3) by (auto dest: dvd_imp_le)
  qed
  show ?thesis
  proof (cases "i \<le> j")
    case True
    then show ?thesis using * [OF assms(1) True assms(3)] by simp
  next
    case False
    then show ?thesis using * [OF assms(1) [symmetric] _ assms(2)] by simp
  qed
qed

lemma slot_inj:
  fixes x :: u32
  assumes "i < PIPESIZE" and "j < PIPESIZE" and "unat ((x + of_nat i) mod 512) = unat ((x + of_nat j) mod 512)"
  shows "i = j"
proof -
  have u: "unat ((x + of_nat k) mod 512) = (unat x + k) mod 512" if "k < PIPESIZE" for k
  proof -
    have "(512 :: nat) dvd 2 ^ 32" by simp
    then have "(unat x + k) mod 2 ^ 32 mod 512 = (unat x + k) mod 512" by (rule mod_mod_cancel)
    moreover have "unat (x + of_nat k) = (unat x + k) mod 2 ^ 32"
      using that by (simp add: unat_word_ariths unat_of_nat)
    ultimately show ?thesis by (simp only: unat_mod512)
  qed
  have "(unat x + i) mod 512 = (unat x + j) mod 512" using assms u by simp
  then show ?thesis using assms(1,2) by (rule mod_offset_inj)
qed

lemma full_iff: "nwrite pi = nread pi + 512 \<longleftrightarrow> unat (nwrite pi - nread pi) = PIPESIZE"
proof -
  have "nwrite pi = nread pi + 512 \<longleftrightarrow> nwrite pi - nread pi = 512" by (simp add: diff_eq_eq add.commute)
  also have "\<dots> \<longleftrightarrow> unat (nwrite pi - nread pi) = PIPESIZE" by (simp add: word_unat_eq_iff)
  finally show ?thesis .
qed

lemma length_pcontents [simp]: "length (pcontents pi) = unat (nwrite pi - nread pi)"
  by (simp add: pcontents_def)

lemma pcontents_empty: "pcontents pi = [] \<longleftrightarrow> nread pi = nwrite pi"
proof -
  have "pcontents pi = [] \<longleftrightarrow> unat (nwrite pi - nread pi) = 0" by (metis length_0_conv length_pcontents)
  then show ?thesis by (auto simp: unat_eq_zero)
qed

lemma pipe_put_contents:
  assumes inv: "pipe_inv pi" and nf: "nwrite pi \<noteq> nread pi + 512"
  shows "pipe_inv (pipe_put ch pi)" and "pcontents (pipe_put ch pi) = pcontents pi @ [ch]"
proof -
  let ?c = "unat (nwrite pi - nread pi)" and ?w = "unat (nwrite pi mod 512)"
  have "?c \<noteq> PIPESIZE" using nf full_iff [of pi] by blast
  moreover have "?c \<le> PIPESIZE" using inv by (simp add: pipe_inv_def)
  ultimately have c: "?c < PIPESIZE" by (rule le_neq_implies_less [rotated])
  have eq: "nwrite pi + 1 - nread pi = (nwrite pi - nread pi) + 1" by simp
  have "unat ((nwrite pi - nread pi) + 1) = ?c + 1"
    using c by (subst unat_add_lem [THEN iffD1]) auto
  then have c': "unat (nwrite pi + 1 - nread pi) = Suc ?c" by (simp only: eq Suc_eq_plus1)
  have len: "length (pdata pi) = PIPESIZE" using inv by (simp add: pipe_inv_def)
  have w: "?w < PIPESIZE" by (simp add: unat_mod512)
  have nw: "nwrite pi = nread pi + of_nat ?c" by simp
  show "pipe_inv (pipe_put ch pi)" using c c' len by (simp add: pipe_inv_def pipe_put_def)
  have "(pdata pi)[?w := ch] ! unat ((nread pi + of_nat k) mod 512) = pdata pi ! unat ((nread pi + of_nat k) mod 512)"
    if "k < ?c" for k
  proof -
    have "unat ((nread pi + of_nat k) mod 512) \<noteq> ?w"
      using slot_inj [of k ?c "nread pi"] that c nw by (metis less_trans nat_neq_iff)
    then show ?thesis by simp
  qed
  moreover have "(pdata pi)[?w := ch] ! unat ((nread pi + of_nat ?c) mod 512) = ch"
    using w len nw by (metis nth_list_update_eq)
  ultimately show "pcontents (pipe_put ch pi) = pcontents pi @ [ch]"
    by (simp add: pcontents_def pipe_put_def c')
qed

lemma pipe_get_contents:
  assumes inv: "pipe_inv pi" and ne: "nread pi \<noteq> nwrite pi"
  shows "pipe_inv (pi\<lparr>nread := nread pi + 1\<rparr>)"
    and "pcontents pi = pdata pi ! unat (nread pi mod 512) # pcontents (pi\<lparr>nread := nread pi + 1\<rparr>)"
proof -
  let ?c = "unat (nwrite pi - nread pi)"
  have nz: "nwrite pi - nread pi \<noteq> 0" using ne by simp
  have c: "unat (nwrite pi - (nread pi + 1)) = ?c - 1" using unat_minus_one [OF nz] by (simp add: diff_diff_eq)
  have pos: "0 < ?c" using nz by (simp add: unat_gt_0)
  show "pipe_inv (pi\<lparr>nread := nread pi + 1\<rparr>)" using inv c by (auto simp: pipe_inv_def intro: le_trans [OF diff_le_self])
  have "[0..<?c] = 0 # map Suc [0..<?c - 1]" using pos upt_conv_Cons [OF pos] by (simp add: map_Suc_upt)
  then show "pcontents pi = pdata pi ! unat (nread pi mod 512) # pcontents (pi\<lparr>nread := nread pi + 1\<rparr>)"
    by (simp add: pcontents_def c add.assoc)
qed

section \<open>Sections\<close>

text \<open>
  A writer with the bytes \<open>bs\<close> to send from address 0 on, and a reader that collects what it is
  given, as callers whose memory is mapped.
\<close>

definition from_list :: "byte list \<Rightarrow> unit incopy1" where
  "from_list bs a u = Ok (Some (bs ! unat a), u)"

definition to_list :: "byte list outcopy1" where
  "to_list a ch u = Ok (0, u @ [ch])"

lemma write_section:
  assumes "pipe_inv pi" and "i \<le> length bs" and "length bs < 2 ^ 31"
  shows "\<exists>m r pi'. pipewrite_loop (from_list bs) killed 0 (int (length bs)) (int i) pi () = Ok (r, pi', ()) \<and>
    i + m \<le> length bs \<and> pipe_inv pi' \<and> pcontents pi' = pcontents pi @ take m (drop i bs) \<and>
    readopen pi' = readopen pi \<and> writeopen pi' = writeopen pi \<and> nread pi' = nread pi \<and>
    (r = PRet (int (length bs)) \<and> i + m = length bs \<or> r = PSleep (int (i + m)) \<and> i + m < length bs \<and> length (pcontents pi') = PIPESIZE \<or>
     r = PRet (-1) \<and> m = 0 \<and> (killed \<or> \<not> readopen pi))"
  using assms
proof (induction "length bs - i" arbitrary: i pi)
  case 0
  then show ?case by (subst pipewrite_loop.simps) (auto intro!: exI [of _ 0])
next
  case (Suc k)
  then have i: "i < length bs" by simp
  consider (stop) "\<not> readopen pi \<or> killed" | (full) "readopen pi" "\<not> killed" "nwrite pi = nread pi + 512"
    | (put) "readopen pi" "\<not> killed" "nwrite pi \<noteq> nread pi + 512" by blast
  then show ?case
  proof cases
    case stop
    then show ?thesis using i Suc.prems by (subst pipewrite_loop.simps) (auto intro!: exI [of _ 0])
  next
    case full
    then show ?thesis using i Suc.prems full_iff [of pi] by (subst pipewrite_loop.simps) (auto intro!: exI [of _ 0])
  next
    case put
    have ui: "unat (0 + of_int (int i) :: u64) = i" using i Suc.prems(3) by (simp add: unat_of_nat_small)
    note p = pipe_put_contents [OF Suc.prems(1) put(3), of "bs ! i"]
    have k: "k = length bs - Suc i" and si: "Suc i \<le> length bs" using Suc.hyps(2) i by simp_all
    obtain m r pi' where ih: "pipewrite_loop (from_list bs) killed 0 (int (length bs)) (int (Suc i)) (pipe_put (bs ! i) pi) () = Ok (r, pi', ())"
      "Suc i + m \<le> length bs" "pipe_inv pi'" "pcontents pi' = pcontents (pipe_put (bs ! i) pi) @ take m (drop (Suc i) bs)"
      "readopen pi' = readopen (pipe_put (bs ! i) pi)" "writeopen pi' = writeopen (pipe_put (bs ! i) pi)"
      "nread pi' = nread (pipe_put (bs ! i) pi)"
      "r = PRet (int (length bs)) \<and> Suc i + m = length bs \<or> r = PSleep (int (Suc i + m)) \<and> Suc i + m < length bs \<and> length (pcontents pi') = PIPESIZE \<or>
        r = PRet (-1) \<and> m = 0 \<and> (killed \<or> \<not> readopen (pipe_put (bs ! i) pi))"
      using Suc.hyps(1) [OF k p(1) si Suc.prems(3)] by blast
    have eq: "pipewrite_loop (from_list bs) killed 0 (int (length bs)) (int i) pi () = Ok (r, pi', ())"
      using ih(1) put i ui by (subst pipewrite_loop.simps) (simp add: from_list_def add.commute)
    have t: "take (Suc m) (drop i bs) = bs ! i # take m (drop (Suc i) bs)" using i by (simp add: Cons_nth_drop_Suc [symmetric])
    have ro: "readopen (pipe_put (bs ! i) pi) = readopen pi" "writeopen (pipe_put (bs ! i) pi) = writeopen pi"
      "nread (pipe_put (bs ! i) pi) = nread pi" by (simp_all add: pipe_put_def)
    show ?thesis
      using eq ih(2-8) p(2) t ro put(1,2)
      by (intro exI [of _ "Suc m"] exI [of _ r] exI [of _ pi']) auto
  qed
qed

lemma read_section:
  assumes "pipe_inv pi" and "0 \<le> i"
  shows "\<exists>m pi'. piperead_loop to_list addr n i pi acc = Ok (i + int m, pi', acc @ take m (pcontents pi)) \<and>
    m = min (nat (n - i)) (length (pcontents pi)) \<and> pipe_inv pi' \<and> pcontents pi' = drop m (pcontents pi) \<and>
    readopen pi' = readopen pi \<and> writeopen pi' = writeopen pi \<and> nwrite pi' = nwrite pi"
  using assms
proof (induction "nat (n - i)" arbitrary: i pi acc)
  case 0
  then show ?case by (subst piperead_loop.simps) simp
next
  case (Suc k)
  then have i: "i < n" by simp
  show ?case
  proof (cases "nread pi = nwrite pi")
    case True
    then show ?thesis using i Suc.prems pcontents_empty [of pi] by (subst piperead_loop.simps) simp
  next
    case False
    let ?pi = "pi\<lparr>nread := nread pi + 1\<rparr>" and ?ch = "pdata pi ! unat (nread pi mod 512)"
    note g = pipe_get_contents [OF Suc.prems(1) False]
    have k: "k = nat (n - (i + 1))" and i0: "0 \<le> i + 1" using Suc.hyps(2) Suc.prems(2) by simp_all
    obtain m pi' where ih: "piperead_loop to_list addr n (i + 1) ?pi (acc @ [?ch]) = Ok (i + 1 + int m, pi', (acc @ [?ch]) @ take m (pcontents ?pi))"
      "m = min (nat (n - (i + 1))) (length (pcontents ?pi))" "pipe_inv pi'" "pcontents pi' = drop m (pcontents ?pi)"
      "readopen pi' = readopen ?pi" "writeopen pi' = writeopen ?pi" "nwrite pi' = nwrite ?pi"
      using Suc.hyps(1) [OF k g(1) i0] by blast
    have eq: "piperead_loop to_list addr n i pi acc = Ok (i + int (Suc m), pi', acc @ take (Suc m) (pcontents pi))"
      using ih(1) i False g(2) by (subst piperead_loop.simps) (simp add: to_list_def)
    have "Suc m = min (nat (n - i)) (length (pcontents pi))" using ih(2) i g(2) by (simp del: length_pcontents)
    moreover have "pcontents pi' = drop (Suc m) (pcontents pi)" using ih(4) g(2) by simp
    ultimately show ?thesis using eq ih(3,5-7) by (intro exI [of _ "Suc m"] exI [of _ pi']) simp
  qed
qed


section \<open>Readers and writers\<close>

text \<open>
  \<open>wpend\<close> holds, for each call of \<open>pipewrite\<close> in progress, the bytes it has still to write. \<open>sent\<close> and
  \<open>recvd\<close> record the bytes that calls count as written and those that readers were given, in order.
\<close>

record psys =
  ppipe :: pipe
  wpend :: "nat \<Rightarrow> byte list option"
  sent :: "byte list"
  recvd :: "byte list"

definition psys_init :: "psys \<Rightarrow> bool" where
  "psys_init p \<longleftrightarrow> (\<exists>pi. length (pdata pi) = PIPESIZE \<and> ppipe p = pipe_init pi) \<and> wpend p = Map.empty \<and> sent p = [] \<and> recvd p = []"

inductive pipe_step :: "psys \<Rightarrow> psys \<Rightarrow> bool" where
  w_start: "wpend p i = None \<Longrightarrow> length bs < 2 ^ 31 \<Longrightarrow> pipe_step p (p\<lparr>wpend := (wpend p)(i \<mapsto> bs)\<rparr>)"
| w_sleep: "wpend p i = Some bs \<Longrightarrow>
    pipewrite_loop (from_list bs) killed 0 (int (length bs)) 0 (ppipe p) () = Ok (PSleep j, pi, ()) \<Longrightarrow>
    pipe_step p (p\<lparr>ppipe := pi, wpend := (wpend p)(i \<mapsto> drop (nat j) bs), sent := sent p @ take (nat j) bs\<rparr>)"
| w_return: "wpend p i = Some bs \<Longrightarrow>
    pipewrite_loop (from_list bs) killed 0 (int (length bs)) 0 (ppipe p) () = Ok (PRet j, pi, ()) \<Longrightarrow>
    pipe_step p (p\<lparr>ppipe := pi, wpend := (wpend p)(i := None), sent := sent p @ take (nat j) bs\<rparr>)"
| r_run: "piperead_sec to_list killed a n (ppipe p) [] = Ok (r, pi, got) \<Longrightarrow>
    pipe_step p (p\<lparr>ppipe := pi, recvd := recvd p @ got\<rparr>)"
| p_close: "pipe_step p (p\<lparr>ppipe := fst (pipe_close w (ppipe p))\<rparr>)"

definition psys_inv :: "psys \<Rightarrow> bool" where
  "psys_inv p \<longleftrightarrow> pipe_inv (ppipe p) \<and> recvd p @ pcontents (ppipe p) = sent p \<and>
     (\<forall>i bs. wpend p i = Some bs \<longrightarrow> length bs < 2 ^ 31)"

lemma write_run:
  assumes "pipe_inv pi" and "length bs < 2 ^ 31"
    and "pipewrite_loop (from_list bs) killed 0 (int (length bs)) 0 pi () = Ok (r, pi', ())"
  shows "pipe_inv pi' \<and> (r = PSleep j \<or> r = PRet j \<longrightarrow> pcontents pi' = pcontents pi @ take (nat j) bs)"
proof -
  obtain m r' pi'' where w: "pipewrite_loop (from_list bs) killed 0 (int (length bs)) (int 0) pi () = Ok (r', pi'', ())"
    "0 + m \<le> length bs" "pipe_inv pi''" "pcontents pi'' = pcontents pi @ take m (drop 0 bs)"
    "r' = PRet (int (length bs)) \<and> 0 + m = length bs \<or> r' = PSleep (int (0 + m)) \<and> 0 + m < length bs \<and> length (pcontents pi'') = PIPESIZE \<or>
     r' = PRet (-1) \<and> m = 0 \<and> (killed \<or> \<not> readopen pi)"
    using write_section [OF assms(1) le0 assms(2), of killed] by blast
  have e: "r' = r" "pi'' = pi'" using w(1) assms(3) by simp_all
  show ?thesis using w(2-5) unfolding e by (auto simp del: length_pcontents)
qed

lemma read_run:
  assumes "pipe_inv pi" and "piperead_sec to_list killed a n pi [] = Ok (r, pi', got)"
  shows "pipe_inv pi' \<and> pcontents pi = got @ pcontents pi'"
proof (cases "nread pi = nwrite pi \<and> writeopen pi")
  case True
  then show ?thesis using assms by (auto simp: piperead_sec_def split: if_splits)
next
  case False
  obtain m pi'' where "piperead_loop to_list a n 0 pi [] = Ok (0 + int m, pi'', [] @ take m (pcontents pi))"
    "pipe_inv pi''" "pcontents pi'' = drop m (pcontents pi)"
    using read_section [OF assms(1) order_refl, of a n "[]"] by blast
  then show ?thesis using assms(2) False by (auto simp: piperead_sec_def)
qed

lemma psys_inv_step: "pipe_step p p' \<Longrightarrow> psys_inv p \<Longrightarrow> psys_inv p'"
proof (induction rule: pipe_step.induct)
  case (w_sleep p i bs killed j pi)
  then have "length bs < 2 ^ 31" by (auto simp: psys_inv_def)
  then have "length (drop (nat j) bs) < 2 ^ 31" by (simp add: less_imp_diff_less)
  then show ?case using w_sleep write_run [OF _ _ w_sleep.hyps(2), of j] by (auto simp: psys_inv_def)
next
  case (w_return p i bs killed j pi)
  then show ?case using write_run [OF _ _ w_return.hyps(2), of j] by (auto simp: psys_inv_def)
next
  case (r_run killed a n p r pi got)
  then show ?case using read_run [OF _ r_run.hyps] by (auto simp: psys_inv_def)
next
  case (p_close p w)
  then show ?case by (auto simp: psys_inv_def pipe_close_def pipe_inv_def pcontents_def Let_def)
qed (auto simp: psys_inv_def)

lemma psys_inv_init: "psys_init p \<Longrightarrow> psys_inv p"
  by (auto simp: psys_init_def psys_inv_def pipe_init_def pipe_inv_def pcontents_def)

lemma psys_inv_reachable: "pipe_step\<^sup>*\<^sup>* p p' \<Longrightarrow> psys_init p \<Longrightarrow> psys_inv p'"
  by (induction rule: rtranclp_induct) (auto intro: psys_inv_init psys_inv_step)

section \<open>Properties\<close>

text \<open>
  C12: a pipe is a first-in first-out channel. However the sections of any number of readers and writers
  interleave, with killed callers and closed ends, and however often the 32-bit counters have wrapped around, the
  bytes given to readers followed by the bytes still in the ring are exactly the bytes that writers count as
  written, in the order they were written; and at most \<open>PIPESIZE\<close> bytes are in the ring.
\<close>

theorem pipe_fifo:
  assumes "psys_init p0" and "pipe_step\<^sup>*\<^sup>* p0 p"
  shows "recvd p @ pcontents (ppipe p) = sent p \<and> length (pcontents (ppipe p)) \<le> PIPESIZE"
  using psys_inv_reachable [OF assms(2,1)] by (simp add: psys_inv_def pipe_inv_def)

theorem pipe_fifo_witness:
  "\<exists>p. pipe_step\<^sup>*\<^sup>* \<lparr>ppipe = pipe_init \<lparr>pdata = replicate PIPESIZE 0, nread = 0, nwrite = 0, readopen = False, writeopen = False\<rparr>,
      wpend = Map.empty, sent = [], recvd = []\<rparr> p \<and> sent p = [104, 105] \<and> recvd p @ pcontents (ppipe p) = [104, 105]"
proof -
  let ?p0 = "\<lparr>ppipe = pipe_init \<lparr>pdata = replicate PIPESIZE 0, nread = 0, nwrite = 0, readopen = False, writeopen = False\<rparr>,
      wpend = Map.empty, sent = [], recvd = []\<rparr>"
  let ?bs = "[104, 105] :: byte list"
  let ?p1 = "?p0\<lparr>wpend := [0 \<mapsto> ?bs]\<rparr>"
  have init: "psys_init ?p0"
    unfolding psys_init_def by (intro conjI exI [of _ "\<lparr>pdata = replicate PIPESIZE 0, nread = 0, nwrite = 0, readopen = False, writeopen = False\<rparr>"]) simp_all
  have s1: "pipe_step ?p0 ?p1" using pipe_step.w_start [of ?p0 0 ?bs] by simp
  have inv: "pipe_inv (ppipe ?p0)" by (simp add: pipe_init_def pipe_inv_def)
  have small: "length ?bs < 2 ^ 31" by simp
  obtain m r pi where w: "pipewrite_loop (from_list ?bs) False 0 (int (length ?bs)) (int 0) (ppipe ?p0) () = Ok (r, pi, ())"
    "pcontents pi = pcontents (ppipe ?p0) @ take m (drop 0 ?bs)"
    "r = PRet (int (length ?bs)) \<and> 0 + m = length ?bs \<or> r = PSleep (int (0 + m)) \<and> 0 + m < length ?bs \<and> length (pcontents pi) = PIPESIZE \<or>
     r = PRet (-1) \<and> m = 0 \<and> (False \<or> \<not> readopen (ppipe ?p0))"
    using write_section [OF inv le0 small, of False] by blast
  have c0: "pcontents (ppipe ?p0) = []" by (simp add: pipe_init_def pcontents_def)
  have "length (pcontents pi) \<le> 2" using w(2) c0 by simp
  then have r: "r = PRet 2" using w(3) by (auto simp: pipe_init_def simp del: length_pcontents)
  let ?p2 = "?p1\<lparr>ppipe := pi, wpend := Map.empty, sent := ?bs\<rparr>"
  have "pipe_step ?p1 ?p2" using pipe_step.w_return [of ?p1 0 ?bs False 2 pi] w(1) r by simp
  with s1 have reach: "pipe_step\<^sup>*\<^sup>* ?p0 ?p2" by (rule converse_rtranclp_into_rtranclp [OF _ r_into_rtranclp])
  have "recvd ?p2 @ pcontents (ppipe ?p2) = sent ?p2" using pipe_fifo [OF init reach] by blast
  then show ?thesis using reach by (intro exI [of _ ?p2]) simp
qed

end
