(* ===== verification/Xv6_Kernel.thy ===== *)
theory Xv6_Kernel
  imports Xv6_Vm Xv6_Dir Xv6_Pipe
begin

unbundle bit_operations_syntax

text \<open>
  The state of the kernel that the system calls work on: physical memory with its allocator, the
  file system, the table of open files with the pipes, and the process table (\<open>kernel/proc.h\<close>,
  \<open>kernel/file.h\<close>). An element of a table is its index, a null pointer is \<open>None\<close>; the running process
  (\<open>myproc()\<close>) is the index \<open>curproc\<close>. Spin locks protect sections that are atomic here.

  Kernel structures that live in C variables are records and byte lists and not bytes of
  \<open>pmem\<close>: \<open>copyout_list\<close>, \<open>copyin_list\<close> and \<open>copyinstr_list\<close> are the functions of \<open>vm.c\<close> with such a
  kernel-side buffer as a list. Addresses that the linker chooses are fields of \<open>kenv\<close>.
\<close>

section \<open>Processes and files\<close>

text \<open>The channels that kernel code sleeps on: the address of a process, of \<open>ticks\<close>, or of some other object.\<close>

datatype kchan = ChNone | ChProc nat | ChTicks | ChAddr u64

datatype procstate = UNUSED | USED | SLEEPING | RUNNABLE | RUNNING | ZOMBIE

record kcontext =
  cra :: u64
  csp :: u64
  csaved :: "u64 list"

record trapframe =
  kernel_satp :: u64
  kernel_sp :: u64
  kernel_trap :: u64
  epc :: u64
  kernel_hartid :: u64
  tf_ra :: u64
  tf_sp :: u64
  tf_gp :: u64
  tf_tp :: u64
  tf_t :: "u64 list"
  tf_s :: "u64 list"
  a0 :: u64
  a1 :: u64
  a2 :: u64
  a3 :: u64
  a4 :: u64
  a5 :: u64
  a6 :: u64
  a7 :: u64

record proc =
  pstate :: procstate
  chan :: kchan
  pkilled :: bool
  xstate :: int
  pid :: int
  parent :: "nat option"
  kstack :: u64
  psz :: u64
  pagetable :: u64
  trapframe_pa :: u64
  tf :: trapframe
  pcontext :: kcontext
  ofile :: "nat option list"
  cwd :: "nat option"
  pname :: "byte list"

datatype ftype = FD_NONE | FD_PIPE | FD_INODE | FD_DEVICE

record kfile =
  ftype :: ftype
  fref :: int
  readable :: bool
  writable :: bool
  fpipe :: u64
  fip :: "nat option"
  foff :: u32
  fmajor :: u16

record kernel =
  kmem :: kstate
  kfs :: fsstate
  ftable :: "kfile list"
  pipes :: "u64 \<Rightarrow> pipe"
  procs :: "proc list"
  nextpid :: int
  initproc :: "nat option"
  curproc :: nat
  ticks :: u32

record kenv =
  kend :: u64
  trampoline_pa :: u64
  forkret_va :: u64
  usertrap_va :: u64

type_synonym 'a kcmd = "(kernel, 'a) cmd"

definition myproc :: "kernel \<Rightarrow> proc" where
  "myproc k = procs k ! curproc k"

definition upd_proc :: "nat \<Rightarrow> (proc \<Rightarrow> proc) \<Rightarrow> unit kcmd" where
  "upd_proc i f = modify (\<lambda>k. k\<lparr>procs := (procs k)[i := f (procs k ! i)]\<rparr>)"

definition upd_me :: "(proc \<Rightarrow> proc) \<Rightarrow> unit kcmd" where
  "upd_me f k = upd_proc (curproc k) f k"

definition upd_file :: "nat \<Rightarrow> (kfile \<Rightarrow> kfile) \<Rightarrow> unit kcmd" where
  "upd_file i f = modify (\<lambda>k. k\<lparr>ftable := (ftable k)[i := f (ftable k ! i)]\<rparr>)"

text \<open>The layers below, as commands of the kernel.\<close>

definition on_fs :: "'a fcmd \<Rightarrow> 'a kcmd" where
  "on_fs m k = obind (m (kfs k)) (\<lambda>(a, s). Ok (a, k\<lparr>kfs := s\<rparr>))"

definition on_mem :: "(kstate, 'a) cmd \<Rightarrow> 'a kcmd" where
  "on_mem m k = obind (m (kmem k)) (\<lambda>(a, s). Ok (a, k\<lparr>kmem := s\<rparr>))"

definition k_kalloc :: "u64 kcmd" where
  "k_kalloc = on_mem (\<lambda>s. Ok (kalloc s))"

definition k_kfree :: "kenv \<Rightarrow> u64 \<Rightarrow> unit kcmd" where
  "k_kfree e pa = on_mem (\<lambda>s. obind (kfree (kend e) pa s) (\<lambda>s1. Ok ((), s1)))"

section \<open>Copies between user space and kernel variables\<close>

definition chunk :: "u64 \<Rightarrow> nat \<Rightarrow> nat" where
  "chunk va len = min len (4096 - unat va mod 4096)"

lemma chunk_pos: "0 < len \<Longrightarrow> 0 < chunk va len"
  by (simp add: chunk_def)

function copyout_list ::
    "u64 \<Rightarrow> u64 \<Rightarrow> u64 \<Rightarrow> u64 \<Rightarrow> u64 \<Rightarrow> byte list \<Rightarrow> kstate \<Rightarrow> (int \<times> kstate) outcome" where
  "copyout_list end sz ppt pt dstva bs s =
     (if bs = [] then Ok (0, s)
      else let va0 = PGROUNDDOWN dstva in
        if va0 \<ge> MAXVA then Ok (-1, s)
        else obind (copy_page end sz ppt pt va0 s) (\<lambda>(pa0, s1).
          if pa0 = 0 then Ok (-1, s1)
          else obind (walk pt va0 False s1) (\<lambda>(pte, s2).
            if pte = 0 then Panic ''kerneltrap''
            else if ld64 (pmem s2) pte AND PTE_W = 0 then Ok (-1, s2)
            else let n = chunk dstva (length bs);
                     s3 = s2\<lparr>pmem := st_bytes (pmem s2) (pa0 + (dstva - va0)) (take n bs)\<rparr>
                 in copyout_list end sz ppt pt (va0 + PGSIZE) (drop n bs) s3)))"
  by pat_completeness auto
termination
  by (relation "measure (\<lambda>(end, sz, ppt, pt, dstva, bs, s). length bs)") (auto simp: chunk_pos diff_less)

declare copyout_list.simps [simp del]

text \<open>The result code and the bytes that were copied before a failure.\<close>

function copyin_list ::
    "u64 \<Rightarrow> u64 \<Rightarrow> u64 \<Rightarrow> u64 \<Rightarrow> u64 \<Rightarrow> nat \<Rightarrow> kstate \<Rightarrow> ((int \<times> byte list) \<times> kstate) outcome" where
  "copyin_list end sz ppt pt srcva len s =
     (if len = 0 then Ok ((0, []), s)
      else let va0 = PGROUNDDOWN srcva in
        obind (copy_page end sz ppt pt va0 s) (\<lambda>(pa0, s1).
          if pa0 = 0 then Ok ((-1, []), s1)
          else let n = chunk srcva len; bs = ld_bytes (pmem s1) (pa0 + (srcva - va0)) n
               in obind (copyin_list end sz ppt pt (va0 + PGSIZE) (len - n) s1) (\<lambda>((r, rest), s2).
                    Ok ((r, bs @ rest), s2))))"
  by pat_completeness auto
termination
  by (relation "measure (\<lambda>(end, sz, ppt, pt, srcva, len, s). len)") (auto simp: chunk_pos diff_less)

declare copyin_list.simps [simp del]

text \<open>The string up to its terminating zero, if one is found within \<open>max\<close> bytes of mapped memory.\<close>

function copyinstr_list :: "u64 \<Rightarrow> u64 \<Rightarrow> nat \<Rightarrow> kstate \<Rightarrow> byte list option outcome" where
  "copyinstr_list pt srcva mx s =
     (if mx = 0 then Ok None
      else let va0 = PGROUNDDOWN srcva in
        obind (walkaddr pt va0 s) (\<lambda>pa0.
          if pa0 = 0 then Ok None
          else let n = chunk srcva mx; bs = ld_bytes (pmem s) (pa0 + (srcva - va0)) n
               in if 0 \<in> set bs then Ok (Some (takeWhile (\<lambda>b. b \<noteq> 0) bs))
                  else obind (copyinstr_list pt (va0 + PGSIZE) (mx - n) s) (\<lambda>r. Ok (map_option ((@) bs) r))))"
  by pat_completeness auto
termination
  by (relation "measure (\<lambda>(pt, srcva, mx, s). mx)") (auto simp: chunk_pos diff_less)

declare copyinstr_list.simps [simp del]

definition k_copyout :: "kenv \<Rightarrow> u64 \<Rightarrow> u64 \<Rightarrow> byte list \<Rightarrow> int kcmd" where
  "k_copyout e pt dst bs k =
     on_mem (copyout_list (kend e) (psz (myproc k)) (pagetable (myproc k)) pt dst bs) k"

definition k_copyin :: "kenv \<Rightarrow> u64 \<Rightarrow> u64 \<Rightarrow> nat \<Rightarrow> (int \<times> byte list) kcmd" where
  "k_copyin e pt src n k =
     on_mem (copyin_list (kend e) (psz (myproc k)) (pagetable (myproc k)) pt src n) k"

text \<open>\<open>either_copyout\<close> and \<open>either_copyin\<close> with a user address, in the form \<open>readi\<close> and \<open>writei\<close> take.\<close>

definition user_out :: "kenv \<Rightarrow> kernel \<Rightarrow> kstate outcopy" where
  "user_out e k dst bs = copyout_list (kend e) (psz (myproc k)) (pagetable (myproc k)) (pagetable (myproc k)) dst bs"

definition user_in :: "kenv \<Rightarrow> kernel \<Rightarrow> kstate incopy" where
  "user_in e k src n = copyin_list (kend e) (psz (myproc k)) (pagetable (myproc k)) (pagetable (myproc k)) src n"

end
