(* ===== verification/Xv6_File.thy ===== *)
theory Xv6_File
  imports Xv6_Kernel
begin

text \<open>
  \<open>kernel/file.c\<close> and the part of \<open>kernel/pipe.c\<close> that allocates and closes: the table of open files. The
  device switch is an argument. The four padding bytes of \<open>struct stat\<close>, which the C code leaves
  uninitialised, are an argument too. \<open>fileread\<close> or \<open>filewrite\<close> on a pipe that has to wait is \<open>Blocks\<close>.
\<close>

record devsw =
  dev_read :: "nat \<Rightarrow> (u64 \<Rightarrow> int \<Rightarrow> int kcmd) option"
  dev_write :: "nat \<Rightarrow> (u64 \<Rightarrow> int \<Rightarrow> int kcmd) option"

section \<open>Allocation and reference counts\<close>

definition filealloc :: "nat option kcmd" where
  "filealloc =
     bnd (gets (\<lambda>k. find (\<lambda>i. fref (ftable k ! i) = 0) [0..<NFILE])) (\<lambda>r.
     case r of None \<Rightarrow> ret None
     | Some f \<Rightarrow> thn (upd_file f (\<lambda>x. x\<lparr>fref := 1\<rparr>)) (ret (Some f)))"

definition filedup :: "nat \<Rightarrow> nat kcmd" where
  "filedup f =
     bnd (gets (\<lambda>k. fref (ftable k ! f))) (\<lambda>r.
     if r < 1 then panic ''filedup''
     else thn (upd_file f (\<lambda>x. x\<lparr>fref := fref x + 1\<rparr>)) (ret f))"

definition pipeclose :: "kenv \<Rightarrow> u64 \<Rightarrow> bool \<Rightarrow> unit kcmd" where
  "pipeclose e pi wr =
     bnd (gets (\<lambda>k. pipe_close wr (pipes k pi))) (\<lambda>(p, free).
     thn (modify (\<lambda>k. k\<lparr>pipes := (pipes k)(pi := p)\<rparr>))
         (if free then k_kfree e pi else ret ()))"

definition fileclose :: "kenv \<Rightarrow> nat \<Rightarrow> unit kcmd" where
  "fileclose e f =
     bnd (gets (\<lambda>k. ftable k ! f)) (\<lambda>ff.
     if fref ff < 1 then panic ''fileclose''
     else if fref ff - 1 > 0 then upd_file f (\<lambda>x. x\<lparr>fref := fref x - 1\<rparr>)
     else thn (upd_file f (\<lambda>x. x\<lparr>fref := 0, ftype := FD_NONE\<rparr>))
       (case ftype ff of
          FD_PIPE \<Rightarrow> pipeclose e (fpipe ff) (writable ff)
        | FD_INODE \<Rightarrow> thn (on_fs f_begin_op) (thn (on_fs (iput (the (fip ff)))) (on_fs f_end_op))
        | FD_DEVICE \<Rightarrow> thn (on_fs f_begin_op) (thn (on_fs (iput (the (fip ff)))) (on_fs f_end_op))
        | FD_NONE \<Rightarrow> ret ()))"

definition pipealloc :: "kenv \<Rightarrow> (nat \<times> nat) option kcmd" where
  "pipealloc e =
     bnd filealloc (\<lambda>f0.
     case f0 of None \<Rightarrow> ret None
     | Some r \<Rightarrow>
       bnd filealloc (\<lambda>f1.
       case f1 of None \<Rightarrow> thn (fileclose e r) (ret None)
       | Some w \<Rightarrow>
         bnd k_kalloc (\<lambda>pi.
         if pi = 0 then thn (fileclose e r) (thn (fileclose e w) (ret None))
         else thn (modify (\<lambda>k. k\<lparr>pipes := (pipes k)(pi := pipe_init (pipes k pi))\<rparr>))
             (thn (upd_file r (\<lambda>x. x\<lparr>ftype := FD_PIPE, readable := True, writable := False, fpipe := pi\<rparr>))
             (thn (upd_file w (\<lambda>x. x\<lparr>ftype := FD_PIPE, readable := False, writable := True, fpipe := pi\<rparr>))
                  (ret (Some (r, w))))))))"

section \<open>Reading and writing\<close>

definition stat_bytes :: "byte list \<Rightarrow> stat \<Rightarrow> byte list" where
  "stat_bytes pad st =
     le_bytes 4 (st_dev st) @ le_bytes 4 (st_ino st) @ le_bytes 2 (st_type st) @ le_bytes 2 (st_nlink st) @
     pad @ le_bytes 8 (st_size st)"

definition filestat :: "kenv \<Rightarrow> byte list \<Rightarrow> nat \<Rightarrow> u64 \<Rightarrow> int kcmd" where
  "filestat e pad f addr =
     bnd (gets (\<lambda>k. ftable k ! f)) (\<lambda>ff.
     if ftype ff = FD_INODE \<or> ftype ff = FD_DEVICE
     then thn (on_fs (ilock (fip ff)))
         (bnd (gets (\<lambda>k. stati (the (fip ff)) (kfs k))) (\<lambda>st.
          thn (on_fs (iunlock (fip ff)))
         (bnd (gets (\<lambda>k. pagetable (myproc k))) (\<lambda>pt.
          bnd (k_copyout e pt addr (stat_bytes pad st)) (\<lambda>r.
          if r < 0 then ret (-1) else ret 0)))))
     else ret (-1))"

text \<open>\<open>readi(ip, 1, ...)\<close> and \<open>writei(ip, 1, ...)\<close>, with the result as a C \<open>int\<close>\<close>

definition readi_user :: "kenv \<Rightarrow> nat \<Rightarrow> u64 \<Rightarrow> u32 \<Rightarrow> u32 \<Rightarrow> int kcmd" where
  "readi_user e ip addr off n k =
     obind (readi (user_out e k) ip addr off n (kmem k) (kfs k)) (\<lambda>(r, m, s). Ok (sint r, k\<lparr>kmem := m, kfs := s\<rparr>))"

definition writei_user :: "kenv \<Rightarrow> nat \<Rightarrow> u64 \<Rightarrow> u32 \<Rightarrow> u32 \<Rightarrow> int kcmd" where
  "writei_user e ip addr off n k =
     obind (writei (user_in e k) ip addr off n (kmem k) (kfs k)) (\<lambda>(r, m, s). Ok (sint r, k\<lparr>kmem := m, kfs := s\<rparr>))"

definition piperead_user :: "kenv \<Rightarrow> u64 \<Rightarrow> u64 \<Rightarrow> int \<Rightarrow> int kcmd" where
  "piperead_user e pi addr n k =
     obind (piperead (\<lambda>a ch. user_out e k a [ch]) (pkilled (myproc k)) addr n (pipes k pi) (kmem k))
       (\<lambda>(r, p, m). Ok (r, k\<lparr>pipes := (pipes k)(pi := p), kmem := m\<rparr>))"

definition pipewrite_user :: "kenv \<Rightarrow> u64 \<Rightarrow> u64 \<Rightarrow> int \<Rightarrow> int kcmd" where
  "pipewrite_user e pi addr n k =
     obind (pipewrite
         (\<lambda>a m. obind (user_in e k a 1 m) (\<lambda>((r, bs), m1). Ok (if r = -1 then None else Some (hd bs), m1)))
         (pkilled (myproc k)) addr n (pipes k pi) (kmem k))
       (\<lambda>(r, p, m). Ok (r, k\<lparr>pipes := (pipes k)(pi := p), kmem := m\<rparr>))"

definition fileread :: "kenv \<Rightarrow> devsw \<Rightarrow> nat \<Rightarrow> u64 \<Rightarrow> int \<Rightarrow> int kcmd" where
  "fileread e d f addr n =
     bnd (gets (\<lambda>k. ftable k ! f)) (\<lambda>ff.
     if \<not> readable ff then ret (-1)
     else case ftype ff of
       FD_PIPE \<Rightarrow> piperead_user e (fpipe ff) addr n
     | FD_DEVICE \<Rightarrow>
         if sint (fmajor ff) < 0 \<or> sint (fmajor ff) \<ge> int NDEV then ret (-1)
         else (case dev_read d (unat (fmajor ff)) of None \<Rightarrow> ret (-1) | Some rd \<Rightarrow> rd addr n)
     | FD_INODE \<Rightarrow>
         thn (on_fs (ilock (fip ff)))
        (bnd (readi_user e (the (fip ff)) addr (foff ff) (of_int n)) (\<lambda>r.
         thn (if r > 0 then upd_file f (\<lambda>x. x\<lparr>foff := foff x + of_int r\<rparr>) else ret ())
        (thn (on_fs (iunlock (fip ff)))
             (ret r))))
     | FD_NONE \<Rightarrow> panic ''fileread'')"

abbreviation (input) max_write :: int where "max_write \<equiv> 3072"

function filewrite_loop :: "kenv \<Rightarrow> nat \<Rightarrow> nat \<Rightarrow> u64 \<Rightarrow> int \<Rightarrow> int \<Rightarrow> kernel \<Rightarrow> (int \<times> kernel) outcome" where
  "filewrite_loop e f ip addr n i k =
     (if i < n
      then let n1 = min (n - i) max_write
        in bnd (thn (on_fs f_begin_op)
               (thn (on_fs (ilock (Some ip)))
               (bnd (gets (\<lambda>k. foff (ftable k ! f))) (\<lambda>off.
                bnd (writei_user e ip (addr + of_int i) off (of_int n1)) (\<lambda>r.
                thn (if r > 0 then upd_file f (\<lambda>x. x\<lparr>foff := foff x + of_int r\<rparr>) else ret ())
               (thn (on_fs (iunlock (Some ip)))
               (thn (on_fs f_end_op)
                    (ret r)))))))) (\<lambda>r k1.
             if r \<noteq> n1 then Ok (i, k1) else filewrite_loop e f ip addr n (i + r) k1) k
      else Ok (i, k))"
  by pat_completeness auto
termination
  by (relation "measure (\<lambda>(e, f, ip, addr, n, i, k). nat (n - i))") auto

declare filewrite_loop.simps [simp del]

definition filewrite :: "kenv \<Rightarrow> devsw \<Rightarrow> nat \<Rightarrow> u64 \<Rightarrow> int \<Rightarrow> int kcmd" where
  "filewrite e d f addr n =
     bnd (gets (\<lambda>k. ftable k ! f)) (\<lambda>ff.
     if \<not> writable ff then ret (-1)
     else case ftype ff of
       FD_PIPE \<Rightarrow> pipewrite_user e (fpipe ff) addr n
     | FD_DEVICE \<Rightarrow>
         if sint (fmajor ff) < 0 \<or> sint (fmajor ff) \<ge> int NDEV then ret (-1)
         else (case dev_write d (unat (fmajor ff)) of None \<Rightarrow> ret (-1) | Some wr \<Rightarrow> wr addr n)
     | FD_INODE \<Rightarrow>
         bnd (filewrite_loop e f (the (fip ff)) addr n 0) (\<lambda>i. ret (if i = n then n else -1))
     | FD_NONE \<Rightarrow> panic ''filewrite'')"

end
