(* ===== verification/Xv6_Proc.thy ===== *)
theory Xv6_Proc
  imports Xv6_File
begin

unbundle bit_operations_syntax

text \<open>
  \<open>kernel/proc.c\<close>: the process table and the life cycle of processes, and the construction of the kernel page
  table in \<open>kernel/vm.c\<close> that uses it. \<open>kwait\<close> going to sleep is \<open>Blocks\<close>; the state after \<open>kexit\<close> is the one
  in which it calls \<open>sched\<close> for the last time. Context switches are in \<open>Xv6_Sched\<close>.
\<close>

definition k_mappages :: "u64 \<Rightarrow> u64 \<Rightarrow> u64 \<Rightarrow> u64 \<Rightarrow> u64 \<Rightarrow> int kcmd" where
  "k_mappages pt va sz pa perm = on_mem (mappages pt va sz pa perm)"

definition k_uvmunmap :: "kenv \<Rightarrow> u64 \<Rightarrow> u64 \<Rightarrow> u64 \<Rightarrow> bool \<Rightarrow> unit kcmd" where
  "k_uvmunmap e pt va n do_free = on_mem (\<lambda>s. obind (uvmunmap (kend e) pt va n do_free s) (\<lambda>s1. Ok ((), s1)))"

definition k_uvmfree :: "kenv \<Rightarrow> u64 \<Rightarrow> u64 \<Rightarrow> unit kcmd" where
  "k_uvmfree e pt sz = on_mem (\<lambda>s. obind (uvmfree (kend e) pt sz s) (\<lambda>s1. Ok ((), s1)))"

section \<open>The kernel page table\<close>

definition kvmmap :: "u64 \<Rightarrow> u64 \<Rightarrow> u64 \<Rightarrow> u64 \<Rightarrow> u64 \<Rightarrow> unit kcmd" where
  "kvmmap kpgtbl va pa sz perm =
     bnd (k_mappages kpgtbl va sz pa perm) (\<lambda>r. if r \<noteq> 0 then panic ''kvmmap'' else ret ())"

primrec proc_mapstacks_loop :: "u64 \<Rightarrow> nat list \<Rightarrow> unit kcmd" where
  "proc_mapstacks_loop kpgtbl [] = ret ()"
| "proc_mapstacks_loop kpgtbl (i # is) =
     bnd k_kalloc (\<lambda>pa.
     if pa = 0 then panic ''kalloc''
     else thn (kvmmap kpgtbl (KSTACK i) pa PGSIZE (PTE_R OR PTE_W)) (proc_mapstacks_loop kpgtbl is))"

definition proc_mapstacks :: "u64 \<Rightarrow> unit kcmd" where
  "proc_mapstacks kpgtbl = proc_mapstacks_loop kpgtbl [0..<NPROC]"

text \<open>\<open>etext\<close> is the linker's end of the kernel text. \<open>kalloc\<close> is not checked here.\<close>

definition kvmmake :: "kenv \<Rightarrow> u64 \<Rightarrow> u64 kcmd" where
  "kvmmake e etext =
     bnd k_kalloc (\<lambda>kpgtbl.
     thn (modify (\<lambda>k. k\<lparr>kmem := (kmem k)\<lparr>pmem := memset (pmem (kmem k)) kpgtbl 0 4096\<rparr>\<rparr>))
    (thn (kvmmap kpgtbl UART0 UART0 PGSIZE (PTE_R OR PTE_W))
    (thn (kvmmap kpgtbl SDHCI0 SDHCI0 PGSIZE (PTE_R OR PTE_W))
    (thn (kvmmap kpgtbl PLIC PLIC 0x4000000 (PTE_R OR PTE_W))
    (thn (kvmmap kpgtbl KERNBASE KERNBASE (etext - KERNBASE) (PTE_R OR PTE_X))
    (thn (kvmmap kpgtbl etext etext (PHYSTOP - etext) (PTE_R OR PTE_W))
    (thn (kvmmap kpgtbl TRAMPOLINE (trampoline_pa e) PGSIZE (PTE_R OR PTE_X))
    (thn (proc_mapstacks kpgtbl)
         (ret kpgtbl)))))))))"

section \<open>Allocation\<close>

definition procinit :: "unit kcmd" where
  "procinit = modify (\<lambda>k. k\<lparr>procs := map (\<lambda>i. (procs k ! i)\<lparr>pstate := UNUSED, kstack := KSTACK i\<rparr>) [0..<NPROC]\<rparr>)"

text \<open>\<open>n + 1\<close> of an \<open>int\<close>, which wraps around as the machine's addition does.\<close>

definition int_succ :: "int \<Rightarrow> int" where
  "int_succ n = sint (of_int (n + 1) :: 32 word)"

lemma int_succ_less: "- (2 ^ 31) \<le> n \<Longrightarrow> n < 2 ^ 31 - 1 \<Longrightarrow> int_succ n = n + 1"
  by (simp add: int_succ_def sint_sbintrunc' signed_take_bit_int_eq_self del: of_int_add)

definition allocpid :: "int kcmd" where
  "allocpid = bnd (gets nextpid) (\<lambda>p. thn (modify (\<lambda>k. k\<lparr>nextpid := int_succ (nextpid k)\<rparr>)) (ret p))"

definition proc_pagetable :: "kenv \<Rightarrow> nat \<Rightarrow> u64 kcmd" where
  "proc_pagetable e p =
     bnd (on_mem (\<lambda>s. Ok (uvmcreate s))) (\<lambda>pt.
     if pt = 0 then ret 0
     else bnd (k_mappages pt TRAMPOLINE PGSIZE (trampoline_pa e) (PTE_R OR PTE_X)) (\<lambda>r.
       if r < 0 then thn (k_uvmfree e pt 0) (ret 0)
       else bnd (gets (\<lambda>k. trapframe_pa (procs k ! p))) (\<lambda>tfp.
         bnd (k_mappages pt TRAPFRAME PGSIZE tfp (PTE_R OR PTE_W)) (\<lambda>r.
         if r < 0 then thn (k_uvmunmap e pt TRAMPOLINE 1 False) (thn (k_uvmfree e pt 0) (ret 0))
         else ret pt))))"

definition proc_freepagetable :: "kenv \<Rightarrow> u64 \<Rightarrow> u64 \<Rightarrow> unit kcmd" where
  "proc_freepagetable e pt sz =
     thn (k_uvmunmap e pt TRAMPOLINE 1 False)
    (thn (k_uvmunmap e pt TRAPFRAME 1 False)
         (k_uvmfree e pt sz))"

definition freeproc :: "kenv \<Rightarrow> nat \<Rightarrow> unit kcmd" where
  "freeproc e p =
     bnd (gets (\<lambda>k. procs k ! p)) (\<lambda>x.
     thn (if trapframe_pa x \<noteq> 0 then k_kfree e (trapframe_pa x) else ret ())
    (thn (upd_proc p (\<lambda>x. x\<lparr>trapframe_pa := 0\<rparr>))
    (thn (if pagetable x \<noteq> 0 then proc_freepagetable e (pagetable x) (psz x) else ret ())
         (upd_proc p (\<lambda>x. x\<lparr>pagetable := 0, psz := 0, pid := 0, parent := None, pname := (pname x)[0 := 0], chan := ChNone,
            pkilled := False, xstate := 0, pstate := UNUSED\<rparr>)))))"

definition allocproc :: "kenv \<Rightarrow> nat option kcmd" where
  "allocproc e =
     bnd (gets (\<lambda>k. find (\<lambda>i. pstate (procs k ! i) = UNUSED) [0..<NPROC])) (\<lambda>r.
     case r of None \<Rightarrow> ret None
     | Some p \<Rightarrow>
       bnd allocpid (\<lambda>id.
       thn (upd_proc p (\<lambda>x. x\<lparr>pid := id, pstate := USED\<rparr>))
      (bnd k_kalloc (\<lambda>tfp.
       thn (upd_proc p (\<lambda>x. x\<lparr>trapframe_pa := tfp\<rparr>))
      (if tfp = 0 then thn (freeproc e p) (ret None)
       else bnd (proc_pagetable e p) (\<lambda>pt.
         thn (upd_proc p (\<lambda>x. x\<lparr>pagetable := pt\<rparr>))
        (if pt = 0 then thn (freeproc e p) (ret None)
         else thn (upd_proc p (\<lambda>x. x\<lparr>pcontext := \<lparr>cra = forkret_va e, csp = kstack x + PGSIZE, csaved = replicate 12 0\<rparr>\<rparr>))
                  (ret (Some p)))))))))"

section \<open>Sleeping, waking and killing\<close>

text \<open>The channel of a process pointer; the null pointer is the address 0 that an awake process has in \<open>chan\<close>.\<close>

definition chan_of :: "nat option \<Rightarrow> kchan" where
  "chan_of p = (case p of None \<Rightarrow> ChNone | Some i \<Rightarrow> ChProc i)"

definition wakeup :: "kchan \<Rightarrow> unit kcmd" where
  "wakeup c = modify (\<lambda>k. k\<lparr>procs :=
     map (\<lambda>i. let x = procs k ! i in
       if i \<noteq> curproc k \<and> pstate x = SLEEPING \<and> chan x = c then x\<lparr>pstate := RUNNABLE\<rparr> else x) [0..<length (procs k)]\<rparr>)"

definition kkill :: "int \<Rightarrow> int kcmd" where
  "kkill target =
     bnd (gets (\<lambda>k. find (\<lambda>i. pid (procs k ! i) = target) [0..<NPROC])) (\<lambda>r.
     case r of None \<Rightarrow> ret (-1)
     | Some p \<Rightarrow>
       thn (upd_proc p (\<lambda>x. x\<lparr>pkilled := True, pstate := (if pstate x = SLEEPING then RUNNABLE else pstate x)\<rparr>))
           (ret 0))"

definition setkilled :: "nat \<Rightarrow> unit kcmd" where
  "setkilled p = upd_proc p (\<lambda>x. x\<lparr>pkilled := True\<rparr>)"

definition killed :: "nat \<Rightarrow> bool kcmd" where
  "killed p = gets (\<lambda>k. pkilled (procs k ! p))"

section \<open>The life cycle\<close>

definition userinit :: "kenv \<Rightarrow> unit kcmd" where
  "userinit e =
     bnd (allocproc e) (\<lambda>r.
     thn (modify (\<lambda>k. k\<lparr>initproc := r\<rparr>))
    (case r of None \<Rightarrow> panic ''kerneltrap''
     | Some p \<Rightarrow>
       bnd (on_fs (namei 0 [slash])) (\<lambda>ip.
       upd_proc p (\<lambda>x. x\<lparr>cwd := ip, pstate := RUNNABLE\<rparr>))))"

definition growproc :: "kenv \<Rightarrow> int \<Rightarrow> int kcmd" where
  "growproc e n =
     bnd (gets myproc) (\<lambda>p.
     let sz = psz p
     in if n > 0
        then if sz + of_int n > TRAPFRAME then ret (-1)
             else bnd (on_mem (uvmalloc (kend e) (pagetable p) sz (sz + of_int n) PTE_W)) (\<lambda>sz1.
               if sz1 = 0 then ret (-1) else thn (upd_me (\<lambda>x. x\<lparr>psz := sz1\<rparr>)) (ret 0))
        else if n < 0
        then bnd (on_mem (uvmdealloc (kend e) (pagetable p) sz (sz + of_int n))) (\<lambda>sz1.
               thn (upd_me (\<lambda>x. x\<lparr>psz := sz1\<rparr>)) (ret 0))
        else ret 0)"

primrec fork_files :: "nat \<Rightarrow> nat \<Rightarrow> nat list \<Rightarrow> unit kcmd" where
  "fork_files p np [] = ret ()"
| "fork_files p np (i # is) =
     bnd (gets (\<lambda>k. ofile (procs k ! p) ! i)) (\<lambda>fo.
     thn (case fo of None \<Rightarrow> ret ()
          | Some f \<Rightarrow> bnd (filedup f) (\<lambda>f1. upd_proc np (\<lambda>x. x\<lparr>ofile := (ofile x)[i := Some f1]\<rparr>)))
         (fork_files p np is))"

definition kfork :: "kenv \<Rightarrow> int kcmd" where
  "kfork e =
     bnd (gets curproc) (\<lambda>p.
     bnd (allocproc e) (\<lambda>r.
     case r of None \<Rightarrow> ret (-1)
     | Some np \<Rightarrow>
       bnd (gets (\<lambda>k. procs k ! p)) (\<lambda>x.
       bnd (gets (\<lambda>k. pagetable (procs k ! np))) (\<lambda>npt.
       bnd (on_mem (uvmcopy (kend e) (pagetable x) npt (psz x))) (\<lambda>c.
       if c < 0 then thn (freeproc e np) (ret (-1))
       else thn (upd_proc np (\<lambda>y. y\<lparr>psz := psz x, tf := (tf x)\<lparr>a0 := 0\<rparr>\<rparr>))
           (thn (fork_files p np [0..<NOFILE])
           (bnd (on_fs (idup (the (cwd x)))) (\<lambda>ip.
            thn (upd_proc np (\<lambda>y. y\<lparr>cwd := Some ip, pname := blit (pname y) 0 (safestrcpy (list_view (pname x)) 16)\<rparr>))
           (bnd (gets (\<lambda>k. pid (procs k ! np))) (\<lambda>id.
            thn (upd_proc np (\<lambda>y. y\<lparr>parent := Some p\<rparr>))
           (thn (upd_proc np (\<lambda>y. y\<lparr>pstate := RUNNABLE\<rparr>))
                (ret id))))))))))))"

primrec reparent_loop :: "nat \<Rightarrow> nat list \<Rightarrow> unit kcmd" where
  "reparent_loop p [] = ret ()"
| "reparent_loop p (i # is) =
     bnd (gets (\<lambda>k. (parent (procs k ! i), initproc k))) (\<lambda>(par, init).
     thn (if par = Some p
          then thn (upd_proc i (\<lambda>x. x\<lparr>parent := init\<rparr>)) (wakeup (chan_of init))
          else ret ())
         (reparent_loop p is))"

definition reparent :: "nat \<Rightarrow> unit kcmd" where
  "reparent p = reparent_loop p [0..<NPROC]"

primrec exit_files :: "kenv \<Rightarrow> nat list \<Rightarrow> unit kcmd" where
  "exit_files e [] = ret ()"
| "exit_files e (fd # fds) =
     bnd (gets (\<lambda>k. ofile (myproc k) ! fd)) (\<lambda>fo.
     thn (case fo of None \<Rightarrow> ret ()
          | Some f \<Rightarrow> thn (fileclose e f) (upd_me (\<lambda>x. x\<lparr>ofile := (ofile x)[fd := None]\<rparr>)))
         (exit_files e fds))"

definition kexit :: "kenv \<Rightarrow> int \<Rightarrow> unit kcmd" where
  "kexit e status =
     bnd (gets (\<lambda>k. (curproc k, initproc k))) (\<lambda>(p, init).
     if Some p = init then panic ''init exiting''
     else thn (exit_files e [0..<NOFILE])
         (bnd (gets myproc) (\<lambda>x.
          thn (on_fs f_begin_op)
         (thn (on_fs (iput (the (cwd x))))
         (thn (on_fs f_end_op)
         (thn (upd_me (\<lambda>x. x\<lparr>cwd := None\<rparr>))
         (thn (reparent p)
         (bnd (gets (\<lambda>k. parent (myproc k))) (\<lambda>par.
          thn (wakeup (chan_of par))
              (upd_me (\<lambda>x. x\<lparr>xstate := status, pstate := ZOMBIE\<rparr>)))))))))))"

primrec kwait_loop :: "kenv \<Rightarrow> u64 \<Rightarrow> nat list \<Rightarrow> bool \<Rightarrow> int kcmd" where
  "kwait_loop e addr [] havekids =
     bnd (gets (\<lambda>k. pkilled (myproc k))) (\<lambda>kl. if \<not> havekids \<or> kl then ret (-1) else (\<lambda>k. Blocks))"
| "kwait_loop e addr (i # is) havekids =
     bnd (gets (\<lambda>k. (procs k ! i, curproc k, pagetable (myproc k)))) (\<lambda>(pp, p, pt).
     if parent pp = Some p
     then if pstate pp = ZOMBIE
          then bnd (if addr \<noteq> 0 then k_copyout e pt addr (le_bytes 4 (of_int (xstate pp) :: u32)) else ret 0) (\<lambda>r.
               if addr \<noteq> 0 \<and> r < 0 then ret (-1)
               else thn (freeproc e i) (ret (pid pp)))
          else kwait_loop e addr is True
     else kwait_loop e addr is havekids)"

definition kwait :: "kenv \<Rightarrow> u64 \<Rightarrow> int kcmd" where
  "kwait e addr = kwait_loop e addr [0..<NPROC] False"

end
