(* ===== verification/Xv6_Sysfile.thy ===== *)
theory Xv6_Sysfile
  imports Xv6_Proc
begin

unbundle bit_operations_syntax

text \<open>
  The argument functions of \<open>kernel/syscall.c\<close> and the file system calls of \<open>kernel/sysfile.c\<close>, up to \<open>sys_exec\<close>,
  which is in \<open>Xv6_Exec\<close>. A system call returns its 64-bit result, \<open>-1\<close> on error. \<open>goto bad\<close> is a
  continuation that the failing branches share.
\<close>

section \<open>Arguments\<close>

definition argraw :: "nat \<Rightarrow> u64 kcmd" where
  "argraw n =
     bnd (gets (\<lambda>k. tf (myproc k))) (\<lambda>t.
     if n = 0 then ret (a0 t) else if n = 1 then ret (a1 t) else if n = 2 then ret (a2 t)
     else if n = 3 then ret (a3 t) else if n = 4 then ret (a4 t) else if n = 5 then ret (a5 t)
     else panic ''argraw'')"

definition argint :: "nat \<Rightarrow> int kcmd" where
  "argint n = bnd (argraw n) (\<lambda>v. ret (sint (ucast v :: u32)))"

definition argaddr :: "nat \<Rightarrow> u64 kcmd" where
  "argaddr n = argraw n"

definition fetchaddr :: "kenv \<Rightarrow> u64 \<Rightarrow> u64 option kcmd" where
  "fetchaddr e addr =
     bnd (gets myproc) (\<lambda>p.
     if addr \<ge> psz p \<or> addr + 8 > psz p then ret None
     else bnd (k_copyin e (pagetable p) addr 8) (\<lambda>(r, bs).
       if r \<noteq> 0 then ret None else ret (Some (le_word bs))))"

definition fetchstr :: "u64 \<Rightarrow> nat \<Rightarrow> byte list option kcmd" where
  "fetchstr addr mx k = obind (copyinstr_list (pagetable (myproc k)) addr mx (kmem k)) (\<lambda>r. Ok (r, k))"

definition argstr :: "nat \<Rightarrow> nat \<Rightarrow> byte list option kcmd" where
  "argstr n mx = bnd (argaddr n) (\<lambda>addr. fetchstr addr mx)"

section \<open>Descriptors\<close>

definition argfd :: "nat \<Rightarrow> (nat \<times> nat) option kcmd" where
  "argfd n =
     bnd (argint n) (\<lambda>fd.
     if fd < 0 \<or> fd \<ge> int NOFILE then ret None
     else bnd (gets (\<lambda>k. ofile (myproc k) ! nat fd)) (\<lambda>fo.
       case fo of None \<Rightarrow> ret None | Some f \<Rightarrow> ret (Some (nat fd, f))))"

definition fdalloc :: "nat \<Rightarrow> int kcmd" where
  "fdalloc f =
     bnd (gets (\<lambda>k. find (\<lambda>fd. ofile (myproc k) ! fd = None) [0..<NOFILE])) (\<lambda>r.
     case r of None \<Rightarrow> ret (-1)
     | Some fd \<Rightarrow> thn (upd_me (\<lambda>x. x\<lparr>ofile := (ofile x)[fd := Some f]\<rparr>)) (ret (int fd)))"

definition sys_dup :: "u64 kcmd" where
  "sys_dup =
     bnd (argfd 0) (\<lambda>r.
     case r of None \<Rightarrow> ret (-1)
     | Some (_, f) \<Rightarrow>
       bnd (fdalloc f) (\<lambda>fd.
       if fd < 0 then ret (-1) else thn (filedup f) (ret (of_int fd))))"

definition sys_read :: "kenv \<Rightarrow> devsw \<Rightarrow> u64 kcmd" where
  "sys_read e d =
     bnd (argaddr 1) (\<lambda>p. bnd (argint 2) (\<lambda>n. bnd (argfd 0) (\<lambda>r.
     case r of None \<Rightarrow> ret (-1)
     | Some (_, f) \<Rightarrow> bnd (fileread e d f p n) (\<lambda>v. ret (of_int v)))))"

definition sys_write :: "kenv \<Rightarrow> devsw \<Rightarrow> u64 kcmd" where
  "sys_write e d =
     bnd (argaddr 1) (\<lambda>p. bnd (argint 2) (\<lambda>n. bnd (argfd 0) (\<lambda>r.
     case r of None \<Rightarrow> ret (-1)
     | Some (_, f) \<Rightarrow> bnd (filewrite e d f p n) (\<lambda>v. ret (of_int v)))))"

definition sys_close :: "kenv \<Rightarrow> u64 kcmd" where
  "sys_close e =
     bnd (argfd 0) (\<lambda>r.
     case r of None \<Rightarrow> ret (-1)
     | Some (fd, f) \<Rightarrow>
       thn (upd_me (\<lambda>x. x\<lparr>ofile := (ofile x)[fd := None]\<rparr>)) (thn (fileclose e f) (ret 0)))"

definition sys_fstat :: "kenv \<Rightarrow> byte list \<Rightarrow> u64 kcmd" where
  "sys_fstat e pad =
     bnd (argaddr 1) (\<lambda>st. bnd (argfd 0) (\<lambda>r.
     case r of None \<Rightarrow> ret (-1)
     | Some (_, f) \<Rightarrow> bnd (filestat e pad f st) (\<lambda>v. ret (of_int v))))"

section \<open>Links\<close>

text \<open>\<open>namei\<close> and \<open>nameiparent\<close> start from the working directory of the running process.\<close>

definition k_namei :: "byte list \<Rightarrow> nat option kcmd" where
  "k_namei path = bnd (gets (\<lambda>k. the (cwd (myproc k)))) (\<lambda>c. on_fs (namei c path))"

definition k_nameiparent :: "byte list \<Rightarrow> (nat \<times> byte list) option kcmd" where
  "k_nameiparent path = bnd (gets (\<lambda>k. the (cwd (myproc k)))) (\<lambda>c. on_fs (nameiparent c path))"

definition k_ino :: "nat \<Rightarrow> inode kcmd" where
  "k_ino ip = gets (\<lambda>k. ino ip (kfs k))"

definition fail_op :: "u64 kcmd" where
  "fail_op = thn (on_fs f_end_op) (ret (-1))"

definition sys_link :: "u64 kcmd" where
  "sys_link =
     bnd (argstr 0 MAXPATH) (\<lambda>oldp.
     case oldp of None \<Rightarrow> ret (-1)
     | Some old \<Rightarrow>
     bnd (argstr 1 MAXPATH) (\<lambda>newp.
     case newp of None \<Rightarrow> ret (-1)
     | Some new \<Rightarrow>
     thn (on_fs f_begin_op)
    (bnd (k_namei old) (\<lambda>r.
     case r of None \<Rightarrow> fail_op
     | Some ip \<Rightarrow>
     thn (on_fs (ilock (Some ip)))
    (bnd (k_ino ip) (\<lambda>x.
     if itype x = T_DIR then thn (on_fs (iunlockput ip)) fail_op
     else
     thn (on_fs (upd_ino ip (\<lambda>x. x\<lparr>nlink := nlink x + 1\<rparr>)))
    (thn (on_fs (iupdate ip))
    (thn (on_fs (iunlock (Some ip)))
    (let bad =
       thn (on_fs (ilock (Some ip)))
      (thn (on_fs (upd_ino ip (\<lambda>x. x\<lparr>nlink := nlink x - 1\<rparr>)))
      (thn (on_fs (iupdate ip))
      (thn (on_fs (iunlockput ip)) fail_op)))
     in bnd (k_nameiparent new) (\<lambda>r.
        case r of None \<Rightarrow> bad
        | Some (dp, name) \<Rightarrow>
        thn (on_fs (ilock (Some dp)))
       (bnd (k_ino dp) (\<lambda>d. bnd (k_ino ip) (\<lambda>x.
        bnd (if idev d \<noteq> idev x then ret (-1) else on_fs (dirlink dp name (inum x))) (\<lambda>l.
        if l < 0 then thn (on_fs (iunlockput dp)) bad
        else thn (on_fs (iunlockput dp))
            (thn (on_fs (iput ip))
            (thn (on_fs f_end_op)
                 (ret 0)))))))))))))))))"

primrec isdirempty_loop :: "nat \<Rightarrow> u32 list \<Rightarrow> bool fcmd" where
  "isdirempty_loop dp [] = ret True"
| "isdirempty_loop dp (off # offs) =
     bnd (read_dirent ''isdirempty: readi'' dp off) (\<lambda>de.
     if de_inum de \<noteq> 0 then ret False else isdirempty_loop dp offs)"

definition isdirempty :: "nat \<Rightarrow> bool fcmd" where
  "isdirempty dp = bnd (gets (\<lambda>s. isize (ino dp s))) (\<lambda>sz. isdirempty_loop dp (drop 2 (dir_offsets sz)))"

definition sys_unlink :: "u64 kcmd" where
  "sys_unlink =
     bnd (argstr 0 MAXPATH) (\<lambda>p.
     case p of None \<Rightarrow> ret (-1)
     | Some path \<Rightarrow>
     thn (on_fs f_begin_op)
    (bnd (k_nameiparent path) (\<lambda>r.
     case r of None \<Rightarrow> fail_op
     | Some (dp, name) \<Rightarrow>
     thn (on_fs (ilock (Some dp)))
    (let bad = thn (on_fs (iunlockput dp)) fail_op
     in if namecmp name [46] = 0 \<or> namecmp name [46, 46] = 0 then bad
     else bnd (on_fs (dirlookup dp name)) (\<lambda>r.
     case r of None \<Rightarrow> bad
     | Some (ip, off) \<Rightarrow>
     thn (on_fs (ilock (Some ip)))
    (bnd (k_ino ip) (\<lambda>x.
     if sint (nlink x) < 1 then panic ''unlink: nlink < 1''
     else bnd (if itype x = T_DIR then on_fs (isdirempty ip) else ret True) (\<lambda>em.
     if itype x = T_DIR \<and> \<not> em then thn (on_fs (iunlockput ip)) bad
     else bnd (on_fs (\<lambda>s. obind (writei kin dp 0 off 16 (replicate 16 0) s) (\<lambda>(n, _, s1). Ok (n, s1)))) (\<lambda>n.
     if n \<noteq> 16 then panic ''unlink: writei''
     else
     thn (if itype x = T_DIR
          then thn (on_fs (upd_ino dp (\<lambda>x. x\<lparr>nlink := nlink x - 1\<rparr>))) (on_fs (iupdate dp)) else ret ())
    (thn (on_fs (iunlockput dp))
    (thn (on_fs (upd_ino ip (\<lambda>x. x\<lparr>nlink := nlink x - 1\<rparr>)))
    (thn (on_fs (iupdate ip))
    (thn (on_fs (iunlockput ip))
    (thn (on_fs f_end_op)
         (ret 0)))))))))))))))"

section \<open>Creation and opening\<close>

definition create :: "byte list \<Rightarrow> u16 \<Rightarrow> u16 \<Rightarrow> u16 \<Rightarrow> nat option kcmd" where
  "create path type major minor =
     bnd (k_nameiparent path) (\<lambda>r.
     case r of None \<Rightarrow> ret None
     | Some (dp, name) \<Rightarrow>
     thn (on_fs (ilock (Some dp)))
    (bnd (on_fs (dirlookup dp name)) (\<lambda>r.
     case r of
       Some (ip, _) \<Rightarrow>
         thn (on_fs (iunlockput dp))
        (thn (on_fs (ilock (Some ip)))
        (bnd (k_ino ip) (\<lambda>x.
         if type = T_FILE \<and> (itype x = T_FILE \<or> itype x = T_DEVICE) then ret (Some ip)
         else thn (on_fs (iunlockput ip)) (ret None))))
     | None \<Rightarrow>
     bnd (k_ino dp) (\<lambda>d.
     bnd (on_fs (ialloc (idev d) type)) (\<lambda>r.
     case r of None \<Rightarrow> thn (on_fs (iunlockput dp)) (ret None)
     | Some ip \<Rightarrow>
     thn (on_fs (ilock (Some ip)))
    (thn (on_fs (upd_ino ip (\<lambda>x. x\<lparr>imajor := major, iminor := minor, nlink := 1\<rparr>)))
    (thn (on_fs (iupdate ip))
    (bnd (k_ino ip) (\<lambda>x.
     let failed =
       thn (on_fs (upd_ino ip (\<lambda>x. x\<lparr>nlink := 0\<rparr>)))
      (thn (on_fs (iupdate ip))
      (thn (on_fs (iunlockput ip))
      (thn (on_fs (iunlockput dp))
           (ret None))))
     in bnd (if type = T_DIR
             then bnd (on_fs (dirlink ip [46] (inum x))) (\<lambda>l.
                  if l < 0 then ret l else on_fs (dirlink ip [46, 46] (inum d)))
             else ret 0) (\<lambda>l.
        if l < 0 then failed
        else bnd (on_fs (dirlink dp name (inum x))) (\<lambda>l.
        if l < 0 then failed
        else thn (if type = T_DIR
                  then thn (on_fs (upd_ino dp (\<lambda>x. x\<lparr>nlink := nlink x + 1\<rparr>))) (on_fs (iupdate dp)) else ret ())
            (thn (on_fs (iunlockput dp))
                 (ret (Some ip))))))))))))))"

abbreviation (input) O_RDONLY :: int where "O_RDONLY \<equiv> 0"

definition has_flag :: "int \<Rightarrow> u32 \<Rightarrow> bool" where
  "has_flag omode fl \<longleftrightarrow> (of_int omode :: u32) AND fl \<noteq> 0"

definition sys_open :: "kenv \<Rightarrow> u64 kcmd" where
  "sys_open e =
     bnd (argint 1) (\<lambda>omode.
     bnd (argstr 0 MAXPATH) (\<lambda>p.
     case p of None \<Rightarrow> ret (-1)
     | Some path \<Rightarrow>
     thn (on_fs f_begin_op)
    (bnd (if has_flag omode 0x200 then create path T_FILE 0 0
          else bnd (k_namei path) (\<lambda>r.
            case r of None \<Rightarrow> ret None
            | Some ip \<Rightarrow>
              thn (on_fs (ilock (Some ip)))
             (bnd (k_ino ip) (\<lambda>x.
              if itype x = T_DIR \<and> omode \<noteq> O_RDONLY then thn (on_fs (iunlockput ip)) (ret None)
              else ret (Some ip))))) (\<lambda>r.
     case r of None \<Rightarrow> fail_op
     | Some ip \<Rightarrow>
     bnd (k_ino ip) (\<lambda>x.
     if itype x = T_DEVICE \<and> (sint (imajor x) < 0 \<or> sint (imajor x) \<ge> int NDEV)
     then thn (on_fs (iunlockput ip)) fail_op
     else bnd filealloc (\<lambda>fo.
     case fo of None \<Rightarrow> thn (on_fs (iunlockput ip)) fail_op
     | Some f \<Rightarrow>
     bnd (fdalloc f) (\<lambda>fd.
     if fd < 0 then thn (fileclose e f) (thn (on_fs (iunlockput ip)) fail_op)
     else
     thn (if itype x = T_DEVICE
          then upd_file f (\<lambda>y. y\<lparr>ftype := FD_DEVICE, fmajor := imajor x\<rparr>)
          else upd_file f (\<lambda>y. y\<lparr>ftype := FD_INODE, foff := 0\<rparr>))
    (thn (upd_file f (\<lambda>y. y\<lparr>fip := Some ip, readable := \<not> has_flag omode 1,
            writable := has_flag omode 1 \<or> has_flag omode 2\<rparr>))
    (thn (if has_flag omode 0x400 \<and> itype x = T_FILE then on_fs (itrunc ip) else ret ())
    (thn (on_fs (iunlock (Some ip)))
    (thn (on_fs f_end_op)
         (ret (of_int fd)))))))))))))"

definition sys_mkdir :: "u64 kcmd" where
  "sys_mkdir =
     thn (on_fs f_begin_op)
    (bnd (argstr 0 MAXPATH) (\<lambda>p.
     bnd (case p of None \<Rightarrow> ret None | Some path \<Rightarrow> create path T_DIR 0 0) (\<lambda>r.
     case r of None \<Rightarrow> fail_op
     | Some ip \<Rightarrow> thn (on_fs (iunlockput ip)) (thn (on_fs f_end_op) (ret 0)))))"

definition sys_mknod :: "u64 kcmd" where
  "sys_mknod =
     thn (on_fs f_begin_op)
    (bnd (argint 1) (\<lambda>major. bnd (argint 2) (\<lambda>minor.
     bnd (argstr 0 MAXPATH) (\<lambda>p.
     bnd (case p of None \<Rightarrow> ret None | Some path \<Rightarrow> create path T_DEVICE (of_int major) (of_int minor)) (\<lambda>r.
     case r of None \<Rightarrow> fail_op
     | Some ip \<Rightarrow> thn (on_fs (iunlockput ip)) (thn (on_fs f_end_op) (ret 0)))))))"

definition sys_chdir :: "u64 kcmd" where
  "sys_chdir =
     thn (on_fs f_begin_op)
    (bnd (argstr 0 MAXPATH) (\<lambda>p.
     bnd (case p of None \<Rightarrow> ret None | Some path \<Rightarrow> k_namei path) (\<lambda>r.
     case r of None \<Rightarrow> fail_op
     | Some ip \<Rightarrow>
     thn (on_fs (ilock (Some ip)))
    (bnd (k_ino ip) (\<lambda>x.
     if itype x \<noteq> T_DIR then thn (on_fs (iunlockput ip)) fail_op
     else
     thn (on_fs (iunlock (Some ip)))
    (bnd (gets (\<lambda>k. the (cwd (myproc k)))) (\<lambda>old.
     thn (on_fs (iput old))
    (thn (on_fs f_end_op)
    (thn (upd_me (\<lambda>x. x\<lparr>cwd := Some ip\<rparr>))
         (ret 0))))))))))"

section \<open>Pipes\<close>

definition sys_pipe :: "kenv \<Rightarrow> u64 kcmd" where
  "sys_pipe e =
     bnd (argaddr 0) (\<lambda>fdarray.
     bnd (pipealloc e) (\<lambda>r.
     case r of None \<Rightarrow> ret (-1)
     | Some (rf, wfl) \<Rightarrow>
     let close_both = thn (fileclose e rf) (thn (fileclose e wfl) (ret (-1)))
     in bnd (fdalloc rf) (\<lambda>fd0.
     if fd0 < 0 then close_both
     else bnd (fdalloc wfl) (\<lambda>fd1.
     if fd1 < 0 then thn (upd_me (\<lambda>x. x\<lparr>ofile := (ofile x)[nat fd0 := None]\<rparr>)) close_both
     else bnd (gets (\<lambda>k. pagetable (myproc k))) (\<lambda>pt.
     bnd (k_copyout e pt fdarray (le_bytes 4 (of_int fd0 :: u32))) (\<lambda>c0.
     bnd (if c0 < 0 then ret c0 else k_copyout e pt (fdarray + 4) (le_bytes 4 (of_int fd1 :: u32))) (\<lambda>c1.
     if c1 < 0
     then thn (upd_me (\<lambda>x. x\<lparr>ofile := (ofile x)[nat fd0 := None, nat fd1 := None]\<rparr>)) close_both
     else ret 0)))))))"

end
