(* ===== verification/Xv6_Exec.thy ===== *)
theory Xv6_Exec
  imports Xv6_Sysfile
begin

unbundle bit_operations_syntax

text \<open>
  \<open>kernel/exec.c\<close> with the file format of \<open>kernel/elf.h\<close>, and \<open>sys_exec\<close>. The headers are read as bytes of the
  file and decoded at their C offsets. An argument string is the list of its bytes without the
  terminating zero.
\<close>

section \<open>The ELF headers\<close>

definition get64 :: "byte list \<Rightarrow> nat \<Rightarrow> u64" where
  "get64 bs off = le_word (slice bs off 8)"

record elfhdr =
  magic :: u32
  entry :: u64
  phoff :: u64
  phnum :: u16

definition get_elfhdr :: "byte list \<Rightarrow> elfhdr" where
  "get_elfhdr bs = \<lparr>magic = get32 bs 0, entry = get64 bs 24, phoff = get64 bs 32, phnum = get16 bs 56\<rparr>"

record proghdr =
  ptype :: u32
  pflags :: u32
  poff :: u64
  vaddr :: u64
  filesz :: u64
  memsz :: u64

definition get_proghdr :: "byte list \<Rightarrow> proghdr" where
  "get_proghdr bs = \<lparr>ptype = get32 bs 0, pflags = get32 bs 4, poff = get64 bs 8, vaddr = get64 bs 16,
     filesz = get64 bs 32, memsz = get64 bs 40\<rparr>"

definition ELF_MAGIC :: u32 where "ELF_MAGIC = 0x464C457F"

definition flags2perm :: "u32 \<Rightarrow> u64" where
  "flags2perm flags = (if flags AND 1 \<noteq> 0 then PTE_X else 0) OR (if flags AND 2 \<noteq> 0 then PTE_W else 0)"

text \<open>\<open>readi\<close> into a kernel variable of \<open>n\<close> bytes: its bytes, if all of them were read.\<close>

definition read_struct :: "nat \<Rightarrow> u32 \<Rightarrow> nat \<Rightarrow> byte list option kcmd" where
  "read_struct ip off n = on_fs (\<lambda>s.
     obind (readi kout ip 0 off (of_nat n) (replicate n 0) s) (\<lambda>(r, bs, s1).
     Ok (if r \<noteq> of_nat n then None else Some bs, s1)))"

section \<open>Loading\<close>

text \<open>\<open>readi\<close> with a physical address as its destination.\<close>

definition phys_out :: "kstate outcopy" where
  "phys_out dst bs s = Ok (0, s\<lparr>pmem := st_bytes (pmem s) dst bs\<rparr>)"

definition readi_phys :: "nat \<Rightarrow> u64 \<Rightarrow> u32 \<Rightarrow> u32 \<Rightarrow> u32 kcmd" where
  "readi_phys ip pa off n k =
     obind (readi phys_out ip pa off n (kmem k) (kfs k)) (\<lambda>(r, m, s). Ok (r, k\<lparr>kmem := m, kfs := s\<rparr>))"

text \<open>\<open>i += PGSIZE\<close> can wrap around for \<open>sz\<close> close to \<open>2^32\<close>; the last page then is followed by \<open>i = 0\<close>.
  \<open>fuel\<close> bounds the rounds.\<close>

primrec loadseg_loop :: "nat \<Rightarrow> u64 \<Rightarrow> u64 \<Rightarrow> nat \<Rightarrow> u32 \<Rightarrow> u32 \<Rightarrow> u32 \<Rightarrow> int kcmd" where
  "loadseg_loop 0 pt va ip offset sz i = (\<lambda>k. Diverge)"
| "loadseg_loop (Suc fuel) pt va ip offset sz i =
     (if i < sz
      then bnd (on_mem (\<lambda>s. obind (walkaddr pt (va + ucast i) s) (\<lambda>pa. Ok (pa, s)))) (\<lambda>pa.
           if pa = 0 then panic ''loadseg: address should exist''
           else let n = (if sz - i < 4096 then sz - i else 4096)
                in bnd (readi_phys ip pa (offset + i) n) (\<lambda>r.
                   if r \<noteq> n then ret (-1) else loadseg_loop fuel pt va ip offset sz (i + 4096)))
      else ret 0)"

definition loadseg :: "u64 \<Rightarrow> u64 \<Rightarrow> nat \<Rightarrow> u32 \<Rightarrow> u32 \<Rightarrow> int kcmd" where
  "loadseg pt va ip offset sz = loadseg_loop (2 ^ 20 + 1) pt va ip offset sz 0"

text \<open>The loop over the program headers: whether all were loaded, and the size reached.\<close>

primrec load_segments :: "kenv \<Rightarrow> u64 \<Rightarrow> nat \<Rightarrow> nat \<Rightarrow> u32 \<Rightarrow> u64 \<Rightarrow> (bool \<times> u64) kcmd" where
  "load_segments e pt ip 0 off sz = ret (True, sz)"
| "load_segments e pt ip (Suc n) off sz =
     bnd (read_struct ip off 56) (\<lambda>r.
     case r of None \<Rightarrow> ret (False, sz)
     | Some bs \<Rightarrow>
       let ph = get_proghdr bs
       in if ptype ph \<noteq> 1 then load_segments e pt ip n (off + 56) sz
          else if memsz ph < filesz ph then ret (False, sz)
          else if vaddr ph + memsz ph < vaddr ph then ret (False, sz)
          else if vaddr ph mod PGSIZE \<noteq> 0 then ret (False, sz)
          else bnd (on_mem (uvmalloc (kend e) pt sz (vaddr ph + memsz ph) (flags2perm (pflags ph)))) (\<lambda>sz1.
            if sz1 = 0 then ret (False, sz)
            else bnd (loadseg pt (vaddr ph) ip (ucast (poff ph)) (ucast (filesz ph))) (\<lambda>l.
              if l < 0 then ret (False, sz1) else load_segments e pt ip n (off + 56) sz1)))"

section \<open>The new stack\<close>

definition align16 :: "u64 \<Rightarrow> u64" where
  "align16 sp = sp - sp mod 16"

text \<open>Pushing the argument strings: the stack pointer and the entries of \<open>ustack\<close>, or \<open>goto bad\<close>.\<close>

primrec push_args :: "kenv \<Rightarrow> u64 \<Rightarrow> u64 \<Rightarrow> byte list list \<Rightarrow> u64 \<Rightarrow> u64 list \<Rightarrow> (u64 \<times> u64 list) option kcmd" where
  "push_args e pt stackbase [] sp ustack = ret (Some (sp, ustack))"
| "push_args e pt stackbase (arg # args) sp ustack =
     (if length ustack \<ge> MAXARG then ret None
      else let sp1 = align16 (sp - of_nat (length arg + 1))
           in if sp1 < stackbase then ret None
              else bnd (k_copyout e pt sp1 (arg @ [0])) (\<lambda>r.
                if r < 0 then ret None else push_args e pt stackbase args sp1 (ustack @ [sp1])))"

text \<open>The part of the path after its last slash.\<close>

fun last_elem :: "byte list \<Rightarrow> byte list \<Rightarrow> byte list" where
  "last_elem lst [] = lst"
| "last_elem lst (c # s) = last_elem (if c = slash then s else lst) s"

abbreviation (input) USERSTACK :: u64 where "USERSTACK \<equiv> 1"

definition kexec_bad :: "kenv \<Rightarrow> u64 \<Rightarrow> u64 \<Rightarrow> nat option \<Rightarrow> int kcmd" where
  "kexec_bad e pt sz ipo =
     thn (if pt \<noteq> 0 then proc_freepagetable e pt sz else ret ())
    (thn (case ipo of None \<Rightarrow> ret () | Some ip \<Rightarrow> thn (on_fs (iunlockput ip)) (on_fs f_end_op))
         (ret (-1)))"

definition kexec :: "kenv \<Rightarrow> byte list \<Rightarrow> byte list list \<Rightarrow> int kcmd" where
  "kexec e path argv =
     thn (on_fs f_begin_op)
    (bnd (k_namei path) (\<lambda>r.
     case r of None \<Rightarrow> thn (on_fs f_end_op) (ret (-1))
     | Some ip \<Rightarrow>
     thn (on_fs (ilock (Some ip)))
    (bnd (read_struct ip 0 64) (\<lambda>r.
     case r of None \<Rightarrow> kexec_bad e 0 0 (Some ip)
     | Some bs \<Rightarrow>
     let elf = get_elfhdr bs
     in if magic elf \<noteq> ELF_MAGIC then kexec_bad e 0 0 (Some ip)
     else
     bnd (gets curproc) (\<lambda>p.
     bnd (proc_pagetable e p) (\<lambda>pt.
     if pt = 0 then kexec_bad e 0 0 (Some ip)
     else
     bnd (load_segments e pt ip (unat (phnum elf)) (ucast (phoff elf)) 0) (\<lambda>(ok, sz).
     if \<not> ok then kexec_bad e pt sz (Some ip)
     else
     thn (on_fs (iunlockput ip))
    (thn (on_fs f_end_op)
    (bnd (gets (\<lambda>k. psz (myproc k))) (\<lambda>oldsz.
     let sz = PGROUNDUP sz
     in bnd (on_mem (uvmalloc (kend e) pt sz (sz + (USERSTACK + 1) * PGSIZE) PTE_W)) (\<lambda>sz1.
     if sz1 = 0 then kexec_bad e pt sz None
     else let sz = sz1; sp = sz; stackbase = sp - USERSTACK * PGSIZE
     in thn (on_mem (\<lambda>s. obind (uvmclear pt (sz - (USERSTACK + 1) * PGSIZE) s) (\<lambda>s1. Ok ((), s1))))
    (bnd (push_args e pt stackbase argv sp []) (\<lambda>r.
     case r of None \<Rightarrow> kexec_bad e pt sz None
     | Some (sp, ustack) \<Rightarrow>
     let sp = align16 (sp - of_nat (length ustack + 1) * 8)
     in if sp < stackbase then kexec_bad e pt sz None
     else
     bnd (k_copyout e pt sp (concat (map (le_bytes 8) (ustack @ [0])))) (\<lambda>r.
     if r < 0 then kexec_bad e pt sz None
     else
     thn (upd_me (\<lambda>x. x\<lparr>tf := (tf x)\<lparr>a1 := sp\<rparr>\<rparr>))
    (thn (upd_me (\<lambda>x. x\<lparr>pname := blit (pname x) 0 (safestrcpy (list_view (last_elem path path)) 16)\<rparr>))
    (bnd (gets (\<lambda>k. pagetable (myproc k))) (\<lambda>oldpt.
     thn (upd_me (\<lambda>x. x\<lparr>pagetable := pt, psz := sz, tf := (tf x)\<lparr>epc := entry elf, tf_sp := sp\<rparr>\<rparr>))
    (thn (proc_freepagetable e oldpt oldsz)
         (ret (int (length ustack)))))))))))))))))))))"

section \<open>The system call\<close>

primrec free_args :: "kenv \<Rightarrow> u64 list \<Rightarrow> unit kcmd" where
  "free_args e [] = ret ()"
| "free_args e (pg # pgs) = thn (k_kfree e pg) (free_args e pgs)"

text \<open>The loop that fetches the argument strings, each into a page of its own: whether it ended at a null
  pointer, the pages and the strings.\<close>

primrec exec_args :: "kenv \<Rightarrow> u64 \<Rightarrow> nat list \<Rightarrow> u64 list \<Rightarrow> byte list list \<Rightarrow> (bool \<times> u64 list \<times> byte list list) kcmd" where
  "exec_args e uargv [] pgs args = ret (False, pgs, args)"
| "exec_args e uargv (i # is) pgs args =
     bnd (fetchaddr e (uargv + 8 * of_nat i)) (\<lambda>r.
     case r of None \<Rightarrow> ret (False, pgs, args)
     | Some uarg \<Rightarrow>
       if uarg = 0 then ret (True, pgs, args)
       else bnd k_kalloc (\<lambda>pg.
         if pg = 0 then ret (False, pgs, args)
         else bnd (fetchstr uarg 4096) (\<lambda>s.
           case s of None \<Rightarrow> ret (False, pgs @ [pg], args)
           | Some arg \<Rightarrow>
             thn (modify (\<lambda>k. k\<lparr>kmem := (kmem k)\<lparr>pmem := st_bytes (pmem (kmem k)) pg (arg @ [0])\<rparr>\<rparr>))
                 (exec_args e uargv is (pgs @ [pg]) (args @ [arg])))))"

definition sys_exec :: "kenv \<Rightarrow> u64 kcmd" where
  "sys_exec e =
     bnd (argaddr 1) (\<lambda>uargv.
     bnd (argstr 0 MAXPATH) (\<lambda>p.
     case p of None \<Rightarrow> ret (-1)
     | Some path \<Rightarrow>
     bnd (exec_args e uargv [0..<MAXARG] [] []) (\<lambda>(ok, pgs, args).
     if \<not> ok then thn (free_args e pgs) (ret (-1))
     else bnd (kexec e path args) (\<lambda>r.
       thn (free_args e pgs) (ret (of_int r))))))"

end
