(* ===== verification/Xv6_Grep.thy ===== *)
theory Xv6_Grep
  imports Xv6_Prelude
begin

text \<open>
  \<open>user/grep.c\<close>: the matcher for \<open>^ . * $\<close> and the loop over the input. A C string is the list of its bytes
  before the terminating zero, so \<open>*text == 0\<close> is the empty list. The specification is the language of the
  pattern, read as a sequence of single characters and stars with an optional anchor at either end.
\<close>

section \<open>The matcher\<close>

function matchhere :: "byte list \<Rightarrow> byte list \<Rightarrow> bool"
  and matchstar :: "byte \<Rightarrow> byte list \<Rightarrow> byte list \<Rightarrow> bool" where
  "matchhere re str =
     (case re of [] \<Rightarrow> True
      | c # re1 \<Rightarrow>
        if re1 \<noteq> [] \<and> hd re1 = 42 then matchstar c (tl re1) str
        else if c = 36 \<and> re1 = [] then str = []
        else (case str of [] \<Rightarrow> False | t # str1 \<Rightarrow> (c = 46 \<or> c = t) \<and> matchhere re1 str1))"
| "matchstar c re str =
     (matchhere re str \<or>
      (case str of [] \<Rightarrow> False | t # str1 \<Rightarrow> (t = c \<or> c = 46) \<and> matchstar c re str1))"
  by pat_completeness auto
termination
  by (relation "measure (\<lambda>x. case x of Inl (re, str) \<Rightarrow> 2 * length re + length str
        | Inr (c, re, str) \<Rightarrow> 2 * length re + length str + 1)")
     (auto simp: neq_Nil_conv)

declare matchhere.simps [simp del] matchstar.simps [simp del]

primrec match_any :: "byte list \<Rightarrow> byte list \<Rightarrow> bool" where
  "match_any re [] \<longleftrightarrow> matchhere re []"
| "match_any re (t # str) \<longleftrightarrow> matchhere re (t # str) \<or> match_any re str"

definition match :: "byte list \<Rightarrow> byte list \<Rightarrow> bool" where
  "match re str = (if re \<noteq> [] \<and> hd re = 94 then matchhere (tl re) str else match_any re str)"

section \<open>The language of a pattern\<close>

datatype elem = One byte | Star byte

definition accepts :: "byte \<Rightarrow> byte \<Rightarrow> bool" where
  "accepts c t \<longleftrightarrow> c = 46 \<or> c = t"

fun elem_lang :: "elem \<Rightarrow> byte list set" where
  "elem_lang (One c) = {[t] | t. accepts c t}"
| "elem_lang (Star c) = {ts. \<forall>t\<in>set ts. accepts c t}"

primrec re_lang :: "elem list \<Rightarrow> byte list set" where
  "re_lang [] = {[]}"
| "re_lang (e # es) = {u @ v | u v. u \<in> elem_lang e \<and> v \<in> re_lang es}"

text \<open>The elements of a pattern and whether it ends in the anchor \<open>$\<close>.\<close>

fun parse_re :: "byte list \<Rightarrow> elem list \<times> bool" where
  "parse_re [] = ([], False)"
| "parse_re [c] = (if c = 36 then ([], True) else ([One c], False))"
| "parse_re (c # d # re) =
     (if d = 42 then apfst ((#) (Star c)) (parse_re re) else apfst ((#) (One c)) (parse_re (d # re)))"

definition prefix_match :: "elem list \<times> bool \<Rightarrow> byte list \<Rightarrow> bool" where
  "prefix_match p str \<longleftrightarrow> (\<exists>mid suf. str = mid @ suf \<and> mid \<in> re_lang (fst p) \<and> (snd p \<longrightarrow> suf = []))"

lemma prefix_match_Nil [simp]: "prefix_match ([], a) str \<longleftrightarrow> a \<longrightarrow> str = []"
  by (auto simp: prefix_match_def)

lemma prefix_match_Cons:
  "prefix_match (e # es, a) str \<longleftrightarrow>
     (\<exists>u rest. str = u @ rest \<and> u \<in> elem_lang e \<and> prefix_match (es, a) rest)"
  by (simp add: prefix_match_def) (metis append.assoc)

lemma prefix_match_One:
  "prefix_match (One c # es, a) str \<longleftrightarrow>
     (case str of [] \<Rightarrow> False | t # ts \<Rightarrow> accepts c t \<and> prefix_match (es, a) ts)"
proof -
  have "prefix_match (One c # es, a) str \<longleftrightarrow> (\<exists>t ts. str = t # ts \<and> accepts c t \<and> prefix_match (es, a) ts)"
    unfolding prefix_match_Cons by (simp add: append_eq_Cons_conv) (metis append_Cons append_Nil)
  then show ?thesis by (simp split: list.splits)
qed

lemma prefix_match_Star:
  "prefix_match (Star c # es, a) str \<longleftrightarrow>
     prefix_match (es, a) str \<or>
     (case str of [] \<Rightarrow> False | t # ts \<Rightarrow> accepts c t \<and> prefix_match (Star c # es, a) ts)"
    (is "?L = ?R")
proof
  assume ?L
  then obtain u rest where *: "str = u @ rest" "\<forall>t\<in>set u. accepts c t" "prefix_match (es, a) rest"
    by (auto simp: prefix_match_Cons)
  then show ?R
    by (cases u) (auto simp: prefix_match_Cons)
next
  assume ?R
  then show ?L
  proof
    assume "prefix_match (es, a) str"
    then show ?L by (force simp: prefix_match_Cons intro: exI [of _ "[]"])
  next
    assume "case str of [] \<Rightarrow> False | t # ts \<Rightarrow> accepts c t \<and> prefix_match (Star c # es, a) ts"
    then obtain t u rest where "str = (t # u) @ rest" "\<forall>x\<in>set (t # u). accepts c x" "prefix_match (es, a) rest"
      by (auto simp: prefix_match_Cons split: list.splits)
    then show ?L
      unfolding prefix_match_Cons elem_lang.simps by blast
  qed
qed

lemma matchhere_eqs:
  "matchhere [] str"
  "matchhere [c] str \<longleftrightarrow> (if c = 36 then str = [] else case str of [] \<Rightarrow> False | t # ts \<Rightarrow> accepts c t)"
  "matchhere (c # 42 # re) str \<longleftrightarrow> matchstar c re str"
  "d \<noteq> 42 \<Longrightarrow> matchhere (c # d # re) str \<longleftrightarrow>
     (case str of [] \<Rightarrow> False | t # ts \<Rightarrow> accepts c t \<and> matchhere (d # re) ts)"
     apply (simp add: matchhere.simps [of "[]"])
    apply (simp add: matchhere.simps [of "[c]"] matchhere.simps [of "[]"] accepts_def split: list.splits)
   apply (simp add: matchhere.simps [of "c # 42 # re"])
  apply (simp add: matchhere.simps [of "c # d # re"] accepts_def split: list.splits)
  done

lemma match_prefix:
  "matchhere re str \<longleftrightarrow> prefix_match (parse_re re) str"
  "matchstar c re str \<longleftrightarrow> prefix_match (apfst ((#) (Star c)) (parse_re re)) str"
proof (induction re str and c re str rule: matchhere_matchstar.induct)
  case (1 re str)
  consider (nil) "re = []" | (one) c where "re = [c]" | (star) c re2 where "re = c # 42 # re2"
    | (two) c d re2 where "re = c # d # re2" "d \<noteq> 42"
    by (metis list.exhaust)
  then show ?case
  proof cases
    case nil
    then show ?thesis by (simp add: matchhere_eqs)
  next
    case one
    then show ?thesis by (simp add: matchhere_eqs prefix_match_One split: list.splits)
  next
    case star
    then show ?thesis using 1(1) by (simp add: matchhere_eqs)
  next
    case (two c d re2)
    obtain es a where p: "parse_re (d # re2) = (es, a)" by force
    show ?thesis
      using 1(2) two by (auto simp: matchhere_eqs prefix_match_One p split: list.splits)
  qed
next
  case (2 c re str)
  obtain es a where p: "parse_re re = (es, a)" by force
  show ?case using 2
    by (subst matchstar.simps) (auto simp: p prefix_match_Star [of c es a str] accepts_def split: list.splits)
qed

lemma match_any_iff: "match_any re str \<longleftrightarrow> (\<exists>pre rest. str = pre @ rest \<and> matchhere re rest)"
proof (induction str)
  case (Cons t str)
  then show ?case
    by (metis append_Cons append_Nil list.inject match_any.simps(2) neq_Nil_conv)
qed simp

text \<open>
  C30: the matcher accepts exactly the texts in which the pattern's language occurs: at the start if the
  pattern begins with \<open>^\<close>, up to the end if it ends with \<open>$\<close>, anywhere otherwise.
\<close>

theorem match_correct:
  "match re str \<longleftrightarrow>
     (let front = (re \<noteq> [] \<and> hd re = 94); (es, back) = parse_re (if front then tl re else re)
      in \<exists>pre mid suf. str = pre @ mid @ suf \<and> mid \<in> re_lang es \<and> (front \<longrightarrow> pre = []) \<and> (back \<longrightarrow> suf = []))"
  by (cases "re \<noteq> [] \<and> hd re = 94")
     (auto simp: match_def match_prefix match_any_iff prefix_match_def Let_def split: prod.splits)

theorem match_correct_witness:
  "match [94, 97, 46, 42, 36] [97, 98, 99] \<longleftrightarrow>
     (\<exists>mid. [97, 98, 99] = mid \<and> mid \<in> re_lang [One 97, Star 46])"
  using match_correct [of "[94, 97, 46, 42, 36]" "[97, 98, 99]"] by (auto simp: Let_def)

section \<open>The loop over the input\<close>

text \<open>
  \<open>strchr(p, '\n')\<close>: the line before the newline and what follows it. \<open>strchr\<close> stops at a zero byte.
\<close>

definition next_line :: "byte list \<Rightarrow> (byte list \<times> byte list) option" where
  "next_line p =
     (let line = takeWhile (\<lambda>b. b \<noteq> 0 \<and> b \<noteq> 10) p; rest = dropWhile (\<lambda>b. b \<noteq> 0 \<and> b \<noteq> 10) p
      in if rest \<noteq> [] \<and> hd rest = 10 then Some (line, tl rest) else None)"

lemma next_line_shorter: "next_line p = Some (line, rest) \<Longrightarrow> length rest < length p"
  using length_dropWhile_le [of "\<lambda>b. b \<noteq> 0 \<and> b \<noteq> 10" p]
  by (auto simp: next_line_def Let_def neq_Nil_conv split: if_splits)

text \<open>The inner loop: what it writes and what remains in the buffer.\<close>

function grep_lines :: "byte list \<Rightarrow> byte list \<Rightarrow> byte list \<times> byte list" where
  "grep_lines re p =
     (case next_line p of None \<Rightarrow> ([], p)
      | Some (line, rest) \<Rightarrow> apfst ((@) (if match re line then line @ [10] else [])) (grep_lines re rest))"
  by pat_completeness auto
termination
  by (relation "measure (\<lambda>(re, p). length p)") (auto dest: next_line_shorter)

declare grep_lines.simps [simp del]

text \<open>
  The outer loop. The buffer holds 1024 bytes, one of them for the terminating zero; \<open>rd k\<close> is what the
  \<open>k\<close>-th call of \<open>read\<close> would deliver if it had the room and the input, \<open>m\<close> the unfinished line.
\<close>

function grep_loop :: "byte list \<Rightarrow> (nat \<Rightarrow> nat) \<Rightarrow> nat \<Rightarrow> byte list \<Rightarrow> byte list \<Rightarrow> byte list" where
  "grep_loop re rd k inp m =
     (let n = min (rd k) (min (1023 - length m) (length inp))
      in if n = 0 then []
         else case grep_lines re (m @ take n inp) of (out, m1) \<Rightarrow>
           out @ grep_loop re rd (Suc k) (drop n inp) m1)"
  by pat_completeness auto
termination
  by (relation "measure (\<lambda>(re, rd, k, inp, m). length inp)") auto

declare grep_loop.simps [simp del]

definition grep :: "byte list \<Rightarrow> (nat \<Rightarrow> nat) \<Rightarrow> byte list \<Rightarrow> byte list" where
  "grep re rd inp = grep_loop re rd 0 inp []"

text \<open>The complete lines of a text, after the beginning \<open>cur\<close> of the first one.\<close>

primrec lines_from :: "byte list \<Rightarrow> byte list \<Rightarrow> byte list list" where
  "lines_from cur [] = []"
| "lines_from cur (c # cs) = (if c = 10 then cur # lines_from [] cs else lines_from (cur @ [c]) cs)"

definition matching :: "byte list \<Rightarrow> byte list list \<Rightarrow> byte list" where
  "matching re ls = concat (map (\<lambda>l. l @ [10]) (filter (match re) ls))"

lemma matching_simps [simp]:
  "matching re [] = []"
  "matching re (l # ls) = (if match re l then l @ [10] else []) @ matching re ls"
  "matching re (ls @ ks) = matching re ls @ matching re ks"
  by (simp_all add: matching_def)

lemma lines_from_noline: "10 \<notin> set l \<Longrightarrow> lines_from cur (l @ q) = lines_from (cur @ l) q"
  by (induction l arbitrary: cur) auto

lemma next_line_Some:
  "next_line p = Some (line, rest) \<Longrightarrow> p = line @ 10 # rest \<and> 10 \<notin> set line"
  by (auto simp: next_line_def Let_def neq_Nil_conv split: if_splits dest: set_takeWhileD)
     (metis takeWhile_dropWhile_id)

lemma next_line_None: "next_line p = None \<Longrightarrow> 0 \<notin> set p \<Longrightarrow> 10 \<notin> set p"
  by (induction p) (auto simp: next_line_def Let_def split: if_splits)

lemma grep_lines_spec:
  assumes "0 \<notin> set p"
  shows "\<exists>rest. grep_lines re p = (matching re (lines_from [] p), rest) \<and> 10 \<notin> set rest \<and> 0 \<notin> set rest \<and>
           (\<forall>q. lines_from [] (p @ q) = lines_from [] p @ lines_from rest q)"
  using assms
proof (induction re p rule: grep_lines.induct)
  case (1 re p)
  show ?case
  proof (cases "next_line p")
    case None
    then have "10 \<notin> set p" using 1(2) next_line_None by blast
    then show ?thesis
      using None 1(2) lines_from_noline [of p "[]" "[]"]
      by (subst grep_lines.simps) (auto simp: lines_from_noline)
  next
    case (Some lr)
    then obtain line rest where lr: "next_line p = Some (line, rest)" by (cases lr) auto
    then have p: "p = line @ 10 # rest" "10 \<notin> set line" by (auto dest: next_line_Some)
    obtain r where "grep_lines re rest = (matching re (lines_from [] rest), r)" "10 \<notin> set r" "0 \<notin> set r"
        "\<forall>q. lines_from [] (rest @ q) = lines_from [] rest @ lines_from r q"
      using 1(1) [OF lr refl] 1(2) p by auto
    then show ?thesis
      using lr p by (subst grep_lines.simps) (auto simp: lines_from_noline)
  qed
qed

lemma long_line: "N \<le> length m \<Longrightarrow> \<forall>l\<in>set (lines_from m q). length l < N \<Longrightarrow> lines_from m q = []"
proof (induction q arbitrary: m)
  case (Cons c q)
  then show ?case using Cons.IH [of "m @ [c]"] by (auto split: if_splits)
qed simp

lemma grep_loop_spec:
  assumes "\<And>k. 0 < rd k" "10 \<notin> set m" "0 \<notin> set m" "0 \<notin> set inp"
    and "\<forall>l\<in>set (lines_from m inp). length l \<le> 1022"
  shows "grep_loop re rd k inp m = matching re (lines_from m inp)"
  using assms
proof (induction re rd k inp m rule: grep_loop.induct)
  case (1 re rd k inp m)
  define n where "n = min (rd k) (min (1023 - length m) (length inp))"
  show ?case
  proof (cases "n = 0")
    case True
    then have "1023 \<le> length m \<or> inp = []"
      using 1(2) [of k] by (auto simp: n_def min_def split: if_splits)
    then have "lines_from m inp = []"
      using long_line [of 1023 m inp] 1(6) by fastforce
    then show ?thesis
      using True by (subst grep_loop.simps) (simp add: n_def [symmetric])
  next
    case False
    have nz: "0 \<notin> set (m @ take n inp)" using 1(4,5) by (auto dest: in_set_takeD)
    obtain m1 where g: "grep_lines re (m @ take n inp) = (matching re (lines_from [] (m @ take n inp)), m1)"
        "10 \<notin> set m1" "0 \<notin> set m1"
      and q: "\<And>q. lines_from [] ((m @ take n inp) @ q) = lines_from [] (m @ take n inp) @ lines_from m1 q"
      using grep_lines_spec [OF nz] by blast
    have split: "lines_from m inp = lines_from m (take n inp) @ lines_from m1 (drop n inp)"
      using q [of "drop n inp"] 1(3) by (simp add: lines_from_noline)
    have "grep_loop re rd (Suc k) (drop n inp) m1 = matching re (lines_from m1 (drop n inp))"
      using 1(1) [OF n_def False g(1) [symmetric] 1(2) g(2,3)] 1(5,6) split
      by (auto dest: in_set_dropD)
    then show ?thesis
      using False g(1) split 1(3)
      by (subst grep_loop.simps) (simp add: n_def [symmetric] lines_from_noline)
  qed
qed

text \<open>
  C31: whatever portions \<open>read\<close> delivers, \<open>grep\<close> writes exactly the newline-terminated lines of its input that
  match, in order, if the input has no zero byte and its lines fit the buffer.
\<close>

theorem grep_correct:
  assumes "\<And>k. 0 < rd k" and "0 \<notin> set inp" and "\<forall>l\<in>set (lines_from [] inp). length l \<le> 1022"
  shows "grep re rd inp = concat (map (\<lambda>l. l @ [10]) (filter (match re) (lines_from [] inp)))"
  using grep_loop_spec [of rd "[]" inp re 0] assms by (simp add: grep_def matching_def)

theorem grep_correct_witness:
  "grep [98] (\<lambda>k. 2) [97, 98, 10, 99, 10, 98, 10] =
     concat (map (\<lambda>l. l @ [10]) (filter (match [98]) [[97, 98], [99], [98]]))"
  using grep_correct [of "\<lambda>k. 2" "[97, 98, 10, 99, 10, 98, 10]" "[98]"] by simp

end
