(* ===== verification/Xv6_Printf.thy ===== *)
theory Xv6_Printf
  imports Xv6_String
begin

unbundle bit_operations_syntax

text \<open>
  Formatted output: \<open>kernel/printf.c\<close> and \<open>user/printf.c\<close> with the string functions of \<open>user/ulib.c\<close>. Both
  printers give the bytes that they send, in order, to the UART or to the descriptor. The variable
  arguments are a list; \<open>None\<close> is a call whose arguments do not fit its format.
\<close>

section \<open>Numbers\<close>

definition digits :: "byte list" where
  "digits = [48, 49, 50, 51, 52, 53, 54, 55, 56, 57, 97, 98, 99, 100, 101, 102]"

definition user_digits :: "byte list" where
  "user_digits = [48, 49, 50, 51, 52, 53, 54, 55, 56, 57, 65, 66, 67, 68, 69, 70]"

text \<open>The loop that fills \<open>buf\<close>, least significant digit first. It is only called with base 10 and 16.\<close>

function digit_loop :: "byte list \<Rightarrow> nat \<Rightarrow> u64 \<Rightarrow> byte list" where
  "digit_loop ds base x =
     ds ! (unat x mod base) #
     (if base < 2 \<or> unat x div base = 0 then [] else digit_loop ds base (x div of_nat base))"
  by pat_completeness auto
termination
proof (relation "measure (\<lambda>(ds, base, x). unat x)", goal_cases)
  case (2 ds base x)
  then have *: "2 \<le> base" "base \<le> unat x" by (auto simp: not_less div_eq_0_iff)
  then have "unat (of_nat base :: u64) = base"
    using unsigned_less [of x, where 'a = nat] by (intro unat_of_nat_small) simp
  then show ?case using * by (simp add: unat_div)
qed simp

declare digit_loop.simps [simp del]

text \<open>\<open>buf\<close> as the two loops fill and empty it. The array has 20 bytes.\<close>

definition int_buf :: "byte list \<Rightarrow> u64 \<Rightarrow> nat \<Rightarrow> bool \<Rightarrow> byte list" where
  "int_buf ds xx base sign =
     (let neg = (sign \<and> sint xx < 0); x = (if neg then - xx else xx)
      in digit_loop ds base x @ (if neg then [45] else []))"

definition printint :: "u64 \<Rightarrow> nat \<Rightarrow> bool \<Rightarrow> byte list" where
  "printint xx base sign = rev (int_buf digits xx base sign)"

definition user_printint :: "u64 \<Rightarrow> nat \<Rightarrow> bool \<Rightarrow> byte list" where
  "user_printint xx base sign = rev (int_buf user_digits xx base sign)"

primrec ptr_loop :: "byte list \<Rightarrow> nat \<Rightarrow> u64 \<Rightarrow> byte list" where
  "ptr_loop ds 0 x = []"
| "ptr_loop ds (Suc n) x = ds ! unat (drop_bit 60 x) # ptr_loop ds n (push_bit 4 x)"

definition printptr :: "u64 \<Rightarrow> byte list" where
  "printptr x = [48, 120] @ ptr_loop digits 16 x"

definition user_printptr :: "u64 \<Rightarrow> byte list" where
  "user_printptr x = [48, 120] @ ptr_loop user_digits 16 x"

section \<open>Formats\<close>

text \<open>An argument: a number in its 64-bit slot, or a string pointer that may be null.\<close>

datatype parg = PNum u64 | PStr "byte list option"

text \<open>The conversions the two printers recognise: a signed or unsigned number of 32 or 64 bits in a base, and
  the others.\<close>

datatype conv = CNum bool nat bool | CPtr | CChar | CStr | CPercent | CUnknown

text \<open>The conversion that \<open>c0 c1 c2\<close> start with and the number of further characters it has.\<close>

definition conv_of :: "byte \<Rightarrow> byte \<Rightarrow> byte \<Rightarrow> conv \<times> nat" where
  "conv_of c0 c1 c2 =
     (if c0 = 100 then (CNum False 10 True, 0)
      else if c0 = 108 \<and> c1 = 100 then (CNum True 10 True, 1)
      else if c0 = 108 \<and> c1 = 108 \<and> c2 = 100 then (CNum True 10 True, 2)
      else if c0 = 117 then (CNum False 10 False, 0)
      else if c0 = 108 \<and> c1 = 117 then (CNum True 10 False, 1)
      else if c0 = 108 \<and> c1 = 108 \<and> c2 = 117 then (CNum True 10 False, 2)
      else if c0 = 120 then (CNum False 16 False, 0)
      else if c0 = 108 \<and> c1 = 120 then (CNum True 16 False, 1)
      else if c0 = 108 \<and> c1 = 108 \<and> c2 = 120 then (CNum True 16 False, 2)
      else if c0 = 112 then (CPtr, 0)
      else if c0 = 99 then (CChar, 0)
      else if c0 = 115 then (CStr, 0)
      else if c0 = 37 then (CPercent, 0)
      else (CUnknown, 0))"

text \<open>\<open>va_arg(ap, int)\<close>, \<open>va_arg(ap, uint32)\<close> and \<open>va_arg(ap, uint64)\<close>, as \<open>printint\<close> receives them.\<close>

definition num_slot :: "bool \<Rightarrow> bool \<Rightarrow> u64 \<Rightarrow> u64" where
  "num_slot wide sign v =
     (if wide then v else if sign then scast (ucast v :: u32) else ucast (ucast v :: u32))"

definition null_str :: "byte list" where
  "null_str = [40, 110, 117, 108, 108, 41]"

definition consputc_bytes :: "u32 \<Rightarrow> byte list" where
  "consputc_bytes c = (if c = 0x100 then [8, 32, 8] else [ucast c])"

fun kernel_conv :: "conv \<Rightarrow> byte \<Rightarrow> parg list \<Rightarrow> (byte list \<times> parg list) option" where
  "kernel_conv (CNum wide base sign) c0 (PNum v # args) = Some (printint (num_slot wide sign v) base sign, args)"
| "kernel_conv CPtr c0 (PNum v # args) = Some (printptr v, args)"
| "kernel_conv CChar c0 (PNum v # args) = Some (consputc_bytes (ucast v), args)"
| "kernel_conv CStr c0 (PStr s # args) = Some (case s of None \<Rightarrow> null_str | Some bs \<Rightarrow> bs, args)"
| "kernel_conv CPercent c0 args = Some ([37], args)"
| "kernel_conv CUnknown c0 args = Some ([37, c0], args)"
| "kernel_conv _ _ _ = None"

definition nth0 :: "byte list \<Rightarrow> nat \<Rightarrow> byte" where
  "nth0 bs i = (if i < length bs then bs ! i else 0)"

function printf :: "byte list \<Rightarrow> parg list \<Rightarrow> byte list option" where
  "printf fmt args =
     (case fmt of [] \<Rightarrow> Some []
      | cx # rest \<Rightarrow>
        if cx \<noteq> 37 then map_option ((#) cx) (printf rest args)
        else case rest of [] \<Rightarrow> Some []
        | c0 # more \<Rightarrow>
          (case conv_of c0 (nth0 more 0) (nth0 more 1) of (cv, k) \<Rightarrow>
           case kernel_conv cv c0 args of None \<Rightarrow> None
           | Some (out, args1) \<Rightarrow> map_option ((@) out) (printf (drop k more) args1)))"
  by pat_completeness auto
termination
  by (relation "measure (\<lambda>(fmt, args). length fmt)") auto

declare printf.simps [simp del]

fun user_conv :: "conv \<Rightarrow> byte \<Rightarrow> parg list \<Rightarrow> (byte list \<times> parg list) option" where
  "user_conv (CNum wide base sign) c0 (PNum v # args) = Some (user_printint (num_slot wide sign v) base sign, args)"
| "user_conv CPtr c0 (PNum v # args) = Some (user_printptr v, args)"
| "user_conv CChar c0 (PNum v # args) = Some ([ucast v], args)"
| "user_conv CStr c0 (PStr s # args) = Some (case s of None \<Rightarrow> null_str | Some bs \<Rightarrow> bs, args)"
| "user_conv CPercent c0 args = Some ([37], args)"
| "user_conv CUnknown c0 args = Some ([37, c0], args)"
| "user_conv _ _ _ = None"

text \<open>\<open>vprintf\<close> with its state variable: whether the last character was an unanswered \<open>%\<close>.\<close>

function vprintf :: "bool \<Rightarrow> byte list \<Rightarrow> parg list \<Rightarrow> byte list option" where
  "vprintf state fmt args =
     (case fmt of [] \<Rightarrow> Some []
      | c0 # more \<Rightarrow>
        if \<not> state
        then if c0 = 37 then vprintf True more args else map_option ((#) c0) (vprintf False more args)
        else
          (case conv_of c0 (nth0 more 0) (nth0 more 1) of (cv, k) \<Rightarrow>
           case user_conv cv c0 args of None \<Rightarrow> None
           | Some (out, args1) \<Rightarrow> map_option ((@) out) (vprintf False (drop k more) args1)))"
  by pat_completeness auto
termination
  by (relation "measure (\<lambda>(state, fmt, args). length fmt)") auto

declare vprintf.simps [simp del]

section \<open>The string functions of the user library\<close>

primrec strcmp :: "byte list \<Rightarrow> byte list \<Rightarrow> int" where
  "strcmp [] q = - int (unat (nth0 q 0))"
| "strcmp (c # p) q =
     (if q \<noteq> [] \<and> c = hd q then strcmp p (tl q) else int (unat c) - int (unat (nth0 q 0)))"

primrec strchr :: "byte list \<Rightarrow> byte \<Rightarrow> byte list option" where
  "strchr [] c = None"
| "strchr (b # s) c = (if b = c then Some (b # s) else strchr s c)"

primrec atoi_loop :: "u32 \<Rightarrow> byte list \<Rightarrow> u32" where
  "atoi_loop n [] = n"
| "atoi_loop n (c # s) = (if 48 \<le> c \<and> c \<le> 57 then atoi_loop (n * 10 + ucast c - 48) s else n)"

definition atoi :: "byte list \<Rightarrow> int" where
  "atoi s = sint (atoi_loop 0 s)"

definition user_memmove :: "mem \<Rightarrow> addr \<Rightarrow> addr \<Rightarrow> int \<Rightarrow> mem" where
  "user_memmove m vdst vsrc n =
     (if vsrc > vdst then memmove_fwd (nat n) m vdst vsrc
      else memmove_bwd (nat n) m (vdst + of_int n) (vsrc + of_int n))"

text \<open>\<open>gets\<close> on the bytes that successive reads of one byte would give: the line and what is left. Room for the
  terminating zero is kept.\<close>

fun gets_loop :: "nat \<Rightarrow> byte list \<Rightarrow> byte list \<times> byte list" where
  "gets_loop 0 inp = ([], inp)"
| "gets_loop (Suc room) [] = ([], [])"
| "gets_loop (Suc room) (c # inp) = (if c = 10 \<or> c = 13 then ([c], inp) else apfst ((#) c) (gets_loop room inp))"

definition user_gets :: "int \<Rightarrow> byte list \<Rightarrow> byte list \<times> byte list" where
  "user_gets mx inp = gets_loop (nat (mx - 1)) inp"

section \<open>Properties\<close>

lemma digit_loop_len: "2 \<le> base \<Longrightarrow> unat x < base ^ k \<Longrightarrow> 0 < k \<Longrightarrow> length (digit_loop ds base x) \<le> k"
proof (induction ds base x arbitrary: k rule: digit_loop.induct)
  case (1 ds base x)
  show ?case
  proof (cases "unat x div base = 0")
    case True
    then show ?thesis using 1(4) by (subst digit_loop.simps) simp
  next
    case False
    then have "base \<le> unat x" using 1(2) by (auto simp: div_eq_0_iff)
    then have b: "unat (x div of_nat base) = unat x div base"
      using unsigned_less [of x, where 'a = nat] by (simp add: unat_div unat_of_nat_small)
    obtain j where k: "k = Suc j" using 1(4) by (cases k) auto
    have "unat x div base < base ^ j"
      using 1(3) k 1(2) by (simp add: div_less_iff_less_mult mult.commute)
    moreover have "0 < j" using \<open>base \<le> unat x\<close> 1(3) k by (cases j) auto
    ultimately have "length (digit_loop ds base (x div of_nat base)) \<le> j"
      using 1(1) [of j] False 1(2) b by simp
    then show ?thesis using k by (subst digit_loop.simps) simp
  qed
qed

text \<open>The value of a sequence of decimal digits, least significant first.\<close>

primrec dec_value :: "byte list \<Rightarrow> nat" where
  "dec_value [] = 0"
| "dec_value (c # cs) = (unat c - 48) + 10 * dec_value cs"

lemma digits_dec:
  assumes "n < 10"
  shows "digits ! n = of_nat (n + 48) \<and> user_digits ! n = digits ! n"
proof -
  have "n \<in> {0, 1, 2, 3, 4, 5, 6, 7, 8, 9}" using assms by auto
  then show ?thesis by (auto simp: digits_def user_digits_def)
qed

lemma digit_dec_value: "n < 10 \<Longrightarrow> unat (digits ! n) = n + 48"
  using digits_dec [of n] unat_of_nat_small [of "n + 48", where 'a = 8] by (simp del: of_nat_add)

lemma digit_loop_dec:
  "dec_value (digit_loop digits 10 x) = unat x \<and> (\<forall>c\<in>set (digit_loop digits 10 x). 48 \<le> c \<and> c \<le> 57) \<and>
   digit_loop user_digits 10 x = digit_loop digits 10 x"
proof (induction "unat x" arbitrary: x rule: less_induct)
  case less
  have d: "unat (x div 10) = unat x div 10" by (simp add: unat_div)
  have c: "unat (digits ! (unat x mod 10)) = unat x mod 10 + 48" by (rule digit_dec_value) simp
  have r: "48 \<le> digits ! (unat x mod 10) \<and> digits ! (unat x mod 10) \<le> 57"
    using c by (simp add: word_le_nat_alt)
  show ?case
  proof (cases "unat x div 10 = 0")
    case True
    then show ?thesis
      using c r digits_dec [of "unat x mod 10"] by (simp add: digit_loop.simps [of _ 10 x])
  next
    case False
    then have "unat (x div 10) < unat x" using d by simp
    from less [OF this] show ?thesis
      using c r False d digits_dec [of "unat x mod 10"] by (simp add: digit_loop.simps [of _ 10 x])
  qed
qed

lemma atoi_loop_digits:
  "\<forall>c\<in>set cs. 48 \<le> c \<and> c \<le> 57 \<Longrightarrow>
   atoi_loop n (rev cs) = n * 10 ^ length cs + of_nat (dec_value cs)"
proof (induction cs arbitrary: n rule: rev_induct)
  case (snoc c cs)
  have v: "dec_value (cs @ [c]) = dec_value cs + 10 ^ length cs * (unat c - 48)" for cs c
    by (induction cs) (auto simp: algebra_simps)
  define d where "d = unat c - 48"
  have "(ucast c :: u32) - 48 = of_nat d"
    using snoc.prems by (simp add: word_le_nat_alt of_nat_diff d_def)
  then have "n * 10 + ucast c - 48 = n * 10 + of_nat d" by (metis add_diff_eq)
  then show ?case
    using snoc by (simp add: v d_def [symmetric] algebra_simps)
qed simp


lemma sint_u64: "sint (x :: u64) = (if uint x < 2 ^ 63 then uint x else uint x - 2 ^ 64)"
proof -
  have s: "sint x = (uint x + 2 ^ 63) mod 2 ^ 64 - 2 ^ 63"
    by (simp add: sint_uint signed_take_bit_eq_take_bit_shift take_bit_eq_mod)
  have u: "0 \<le> uint x" "uint x < 2 ^ 64" using uint_lt2p [of x] by simp_all
  show ?thesis
  proof (cases "uint x < 2 ^ 63")
    case True
    then have "(uint x + 2 ^ 63) mod 2 ^ 64 = uint x + 2 ^ 63" using u by (intro mod_pos_pos_trivial) auto
    then show ?thesis using s True by simp
  next
    case False
    have "(uint x + 2 ^ 63) mod 2 ^ 64 = (uint x + 2 ^ 63 - 2 ^ 64) mod 2 ^ 64" by (rule minus_mod_self2 [symmetric])
    also have "\<dots> = uint x + 2 ^ 63 - 2 ^ 64" using u False by (intro mod_pos_pos_trivial) auto
    finally show ?thesis using s False by simp
  qed
qed

lemma neg_unat:
  assumes "sint (x :: u64) < 0"
  shows "int (unat (- x)) = - sint x" "unat (- x) \<le> 2 ^ 63"
proof -
  have u: "uint x < 2 ^ 64" "2 ^ 63 \<le> uint x" "sint x = uint x - 2 ^ 64"
    using assms uint_lt2p [of x] by (auto simp: sint_u64 split: if_splits)
  have "x \<noteq> 0" using u(2) by auto
  then have "uint (- x) = 2 ^ 64 - uint x" using u by (simp add: uint_word_ariths(4) zmod_zminus1_eq_if mod_pos_pos_trivial)
  then show *: "int (unat (- x)) = - sint x" using u by simp
  then have "int (unat (- x)) \<le> int (2 ^ 63)" using u by simp
  then show "unat (- x) \<le> 2 ^ 63" by (simp only: of_nat_le_iff)
qed

text \<open>
  C32: \<open>printint\<close> never writes past its buffer of 20 bytes, in either base, for any number.
\<close>

theorem printint_fits:
  "length (int_buf digits x 10 sign) \<le> 20 \<and> length (int_buf digits x 16 sign) \<le> 20 \<and>
   length (int_buf user_digits x 10 sign) \<le> 20 \<and> length (int_buf user_digits x 16 sign) \<le> 20"
proof -
  have u: "unat x < 2 ^ 64" using unsigned_less [of x, where 'a = nat] by simp
  have "length (int_buf ds x b sign) \<le> 20" if "b = 10 \<or> b = 16" for ds and b :: nat
  proof (cases "sint x < 0")
    case True
    then have "unat (- x) < b ^ 19" using neg_unat(2) [OF True] that by auto
    moreover have "unat x < b ^ 20" using u that by auto
    ultimately show ?thesis
      using digit_loop_len [of b "- x" 19 ds] digit_loop_len [of b x 20 ds] that by (auto simp: int_buf_def Let_def)
  next
    case False
    have "unat x < b ^ 20" using u that by auto
    then show ?thesis
      using digit_loop_len [of b x 20 ds] that False by (auto simp: int_buf_def Let_def)
  qed
  then show ?thesis by simp
qed

text \<open>The number a decimal numeral with an optional sign denotes.\<close>

definition dec_int :: "byte list \<Rightarrow> int" where
  "dec_int s = (if s \<noteq> [] \<and> hd s = 45 then - int (dec_value (rev (tl s))) else int (dec_value (rev s)))"

text \<open>
  C33: \<open>printint\<close> in base 10 prints the decimal numeral of its argument, the most negative number included,
  and the kernel and the user version print the same.
\<close>

theorem printint_decimal:
  "dec_int (printint x 10 True) = sint x \<and> dec_int (printint x 10 False) = uint x \<and>
   user_printint x 10 sign = printint x 10 sign"
proof -
  have no_minus: "digit_loop digits 10 y \<noteq> [] \<and> last (digit_loop digits 10 y) \<noteq> 45" for y
  proof -
    have "digit_loop digits 10 y \<noteq> []" by (subst digit_loop.simps) simp
    moreover from this have "48 \<le> last (digit_loop digits 10 y)" using digit_loop_dec [of y] by simp
    ultimately show ?thesis by auto
  qed
  have "sint x = int (unat x)" if "\<not> sint x < 0"
    using that uint_lt2p [of x] by (auto simp: sint_u64 split: if_splits)
  then show ?thesis
    using no_minus [of x] neg_unat(1) [of x] digit_loop_dec [of x] digit_loop_dec [of "- x"]
    by (auto simp: dec_int_def printint_def user_printint_def int_buf_def Let_def hd_rev)
qed

text \<open>
  C34: \<open>atoi\<close> reads back what \<open>printf\<close> printed: every non-negative \<open>int\<close> survives the round trip.
\<close>

theorem atoi_printint:
  assumes "0 \<le> n" and "n < 2 ^ 31"
  shows "atoi (user_printint (of_int n) 10 True) = n"
proof -
  have u: "unat (of_int n :: u64) = nat n" "sint (of_int n :: u64) = n"
    using assms by (simp_all add: sint_uint signed_take_bit_int_eq_self_iff unat_eq_nat_uint uint_word_of_int)
  then have p: "user_printint (of_int n) 10 True = rev (digit_loop digits 10 (of_int n))"
    using assms digit_loop_dec [of "of_int n"] by (simp add: user_printint_def int_buf_def Let_def)
  have "atoi_loop 0 (rev (digit_loop digits 10 (of_int n))) = of_nat (nat n)"
    using atoi_loop_digits [of "digit_loop digits 10 (of_int n)" 0] digit_loop_dec [of "of_int n"] u by simp
  moreover have "sint (of_int n :: u32) = n"
    using assms by (simp add: sint_uint signed_take_bit_int_eq_self_iff uint_word_of_int)
  ultimately show ?thesis
    using p assms by (simp add: atoi_def)
qed

theorem atoi_printint_witness: "atoi (user_printint (of_int 2147483647) 10 True) = 2147483647"
  using atoi_printint [of 2147483647] by simp

end
