(* ===== verification/Xv6_Userland.thy ===== *)
theory Xv6_Userland
  imports Xv6_Printf
begin

text \<open>
  Smaller user programs: the random number generator of \<open>user/grind.c\<close>, the counters of \<open>user/wc.c\<close> and the
  name formatting of \<open>user/ls.c\<close>.
\<close>

section \<open>Random numbers\<close>

text \<open>A value of a signed type of \<open>w\<close> bits; an operation whose result does not fit is undefined in C.\<close>

definition fits :: "nat \<Rightarrow> int \<Rightarrow> int outcome" where
  "fits w x = (if - (2 ^ (w - 1)) \<le> x \<and> x < 2 ^ (w - 1) then Ok x else Undefined)"

text \<open>\<open>do_rand\<close> with its three variables of \<open>w\<close> bits, every operation checked. \<open>x\<close> is positive when it is divided.\<close>

definition do_rand_at :: "nat \<Rightarrow> u64 \<Rightarrow> (int \<times> u64) outcome" where
  "do_rand_at w ctx =
     obind (fits w (uint (ctx mod 0x7ffffffe + 1))) (\<lambda>x.
     let hi = x div 127773; lo = x mod 127773
     in obind (fits w (16807 * lo)) (\<lambda>a.
        obind (fits w (2836 * hi)) (\<lambda>b.
        obind (fits w (a - b)) (\<lambda>x.
        obind (if x < 0 then fits w (x + 0x7fffffff) else Ok x) (\<lambda>x.
        obind (fits w (x - 1)) (\<lambda>x.
        Ok (sint (of_int x :: 32 word), of_int x)))))))"

definition do_rand :: "u64 \<Rightarrow> (int \<times> u64) outcome" where
  "do_rand ctx = do_rand_at 64 ctx"

lemma fits_ok: "\<bar>x\<bar> < 2 ^ 31 \<Longrightarrow> w \<in> {32, 64} \<Longrightarrow> fits w x = Ok x"
  by (auto simp: fits_def)

text \<open>
  C35: \<open>do_rand\<close> computes the Park--Miller generator \<open>7\<^sup>5 x mod (2\<^sup>31 - 1)\<close> that its comment promises, and its
  result is in the range \<open>[0, 0x7ffffffd]\<close>. No operation on its \<open>long\<close> variables overflows, and as the comment says none
  would if they had 32 bits.
\<close>

theorem do_rand_park_miller:
  fixes ctx :: u64
  defines "v \<equiv> 7 ^ 5 * (uint ctx mod 0x7ffffffe + 1) mod (2 ^ 31 - 1) - 1"
  shows "do_rand ctx = Ok (v, of_int v) \<and> do_rand_at 32 ctx = Ok (v, of_int v) \<and> 0 \<le> v \<and> v \<le> 0x7ffffffd"
proof -
  define x0 where "x0 = uint ctx mod 0x7ffffffe + 1"
  define hi lo x1 where d: "hi = x0 div 127773" "lo = x0 mod 127773" "x1 = 16807 * lo - 2836 * hi"
  have x0: "1 \<le> x0" "x0 \<le> 0x7ffffffe" by (simp_all add: x0_def zless_imp_add1_zle)
  have r: "0 \<le> lo" "lo < 127773" "0 \<le> hi" "hi \<le> 16807" using x0 by (auto simp: d)
  have e: "16807 * x0 = x1 + 0x7fffffff * hi" unfolding d by presburger
  have b: "x1 < 0x7fffffff" "- 0x7fffffff < x1" using r by (simp_all add: d(3))
  have "x1 \<noteq> 0"
  proof
    assume "x1 = 0"
    then have "x0 = 0x7fffffff * (1407677000 * hi - 11017 * x0)" using e by simp
    then have "(0x7fffffff :: int) dvd x0" by (metis dvd_triv_left)
    then show False using x0 by (auto dest!: zdvd_imp_le)
  qed
  define x2 where "x2 = (if x1 < 0 then x1 + 0x7fffffff else x1)"
  have x2: "0 < x2" "x2 < 0x7fffffff" using b \<open>x1 \<noteq> 0\<close> by (auto simp: x2_def)
  have "16807 * x0 mod 0x7fffffff = x1 mod 0x7fffffff" using e by simp
  also have "\<dots> = x2 mod 0x7fffffff" by (simp add: x2_def)
  also have "\<dots> = x2" using x2 by (intro mod_pos_pos_trivial) auto
  finally have v: "v = x2 - 1" by (simp add: v_def x0_def)
  have u: "uint (ctx mod 0x7ffffffe + 1) = x0" using x0 by (simp add: x0_def uint_word_ariths uint_mod_distrib)
  have sint: "sint (of_int y :: 32 word) = y" if "0 \<le> y" "y < 2 ^ 31" for y
    using that by (simp add: signed_of_int signed_take_bit_int_eq_self)
  have s: "sint (of_int (x2 - 1) :: 32 word) = x2 - 1" by (rule sint) (use x2 in simp_all)
  have "do_rand_at w ctx = Ok (v, of_int v)" if "w \<in> {32, 64}" for w
  proof -
    have f: "fits w x0 = Ok x0" "fits w (16807 * lo) = Ok (16807 * lo)" "fits w (2836 * hi) = Ok (2836 * hi)" "fits w x1 = Ok x1"
      "x1 < 0 \<Longrightarrow> fits w (x1 + 0x7fffffff) = Ok (x1 + 0x7fffffff)" "fits w (x2 - 1) = Ok (x2 - 1)"
      using x0 r b x2 that by (intro fits_ok; auto)+
    show ?thesis unfolding do_rand_at_def u using f s by (auto simp: Let_def d [symmetric] x2_def v simp del: of_int_diff)
  qed
  then show ?thesis using v x2 by (simp add: do_rand_def)
qed

section \<open>Counting\<close>

record counts =
  wl :: u32
  ww :: u32
  wchars :: u32
  inword :: bool

definition is_blank :: "byte \<Rightarrow> bool" where
  "is_blank b \<longleftrightarrow> strchr [32, 13, 9, 10, 11] b \<noteq> None"

definition wc_char :: "byte \<Rightarrow> counts \<Rightarrow> counts" where
  "wc_char b s =
     (let s = s\<lparr>wchars := wchars s + 1\<rparr>;
          s = (if b = 10 then s\<lparr>wl := wl s + 1\<rparr> else s)
      in if is_blank b then s\<lparr>inword := False\<rparr>
         else if \<not> inword s then s\<lparr>ww := ww s + 1, inword := True\<rparr> else s)"

text \<open>The loop over the portions that \<open>read\<close> delivers.\<close>

definition wc :: "byte list list \<Rightarrow> counts" where
  "wc bufs = fold (\<lambda>buf s. fold wc_char buf s) bufs \<lparr>wl = 0, ww = 0, wchars = 0, inword = False\<rparr>"

text \<open>The words of a text: its maximal runs of characters that are not blank.\<close>

function words_of :: "byte list \<Rightarrow> byte list list" where
  "words_of bs =
     (case dropWhile is_blank bs of [] \<Rightarrow> []
      | b # r \<Rightarrow> takeWhile (\<lambda>c. \<not> is_blank c) (b # r) # words_of (dropWhile (\<lambda>c. \<not> is_blank c) r))"
  by pat_completeness auto
termination
proof (relation "measure length", goal_cases)
  case (2 bs b r)
  then have "Suc (length r) \<le> length bs" using length_dropWhile_le [of is_blank bs] by simp
  then show ?case using length_dropWhile_le [of "\<lambda>c. \<not> is_blank c" r] by simp
qed simp

declare words_of.simps [simp del]

lemma words_of_blank: "is_blank b \<Longrightarrow> words_of (b # bs) = words_of bs"
  by (subst (1 2) words_of.simps) simp

lemma words_of_word: "\<not> is_blank b \<Longrightarrow> words_of (b # bs) = (b # takeWhile (\<lambda>c. \<not> is_blank c) bs) # words_of (dropWhile (\<lambda>c. \<not> is_blank c) bs)"
  by (subst words_of.simps) simp

lemma words_of_Nil [simp]: "words_of [] = []"
  by (simp add: words_of.simps)

lemma fold_wc:
  "let t = fold wc_char bs s in
     wchars t = wchars s + of_nat (length bs) \<and>
     wl t = wl s + of_nat (length (filter ((=) 10) bs)) \<and>
     ww t = ww s + of_nat (length (words_of (if inword s then dropWhile (\<lambda>c. \<not> is_blank c) bs else bs)))"
proof (induction bs arbitrary: s)
  case (Cons b bs)
  show ?case
    using Cons [of "wc_char b s"]
    by (auto simp: Let_def wc_char_def words_of_blank words_of_word)
qed (simp add: Let_def)

text \<open>
  \<open>wc\<close> counts the newlines, the maximal runs of non-blank characters and the bytes of its input, in
  whatever portions the input is read, modulo the size of its \<open>int\<close> counters.
\<close>

theorem wc_correct:
  "wl (wc bufs) = of_nat (length (filter ((=) 10) (concat bufs))) \<and>
   ww (wc bufs) = of_nat (length (words_of (concat bufs))) \<and>
   wchars (wc bufs) = of_nat (length (concat bufs))"
proof -
  have "fold (\<lambda>buf s. fold wc_char buf s) bufs s = fold wc_char (concat bufs) s" for s
    by (induction bufs arbitrary: s) simp_all
  then show ?thesis
    using fold_wc [of "concat bufs" "\<lparr>wl = 0, ww = 0, wchars = 0, inword = False\<rparr>"] by (simp add: wc_def Let_def)
qed

section \<open>Names\<close>

text \<open>\<open>fmtname\<close>: the part of the path after its last slash, padded with blanks to \<open>DIRSIZ\<close> characters.\<close>

definition fmtname :: "byte list \<Rightarrow> byte list" where
  "fmtname path =
     (let p = rev (takeWhile (\<lambda>c. c \<noteq> 47) (rev path))
      in if length p \<ge> 14 then p else p @ replicate (14 - length p) 32)"

end
