(* ===== verification/Xv6_Sh.thy ===== *)
theory Xv6_Sh
  imports Xv6_Printf
begin

text \<open>
  The parser of the shell, \<open>user/sh.c\<close>. A pointer into the command line is the list of the bytes from it up to
  the terminating zero at \<open>es\<close>, so \<open>s < es\<close> says that the list is not empty and the position of the pointer is
  the length of the line minus its length. A parse function takes the value of \<open>*ps\<close> and returns the new one.
  The shell's \<open>panic\<close> prints a message and exits; it is \<open>Panic\<close> here.

  The four parse functions call each other. They have fuel for the depth of the calls;
  \<open>parsecmd\<close> starts with more than any line of its length needs, which \<open>Xv6_Sh_Spec\<close> proves.
\<close>

type_synonym cptr = "byte list"

section \<open>Commands\<close>

text \<open>A word of the line: the pointers \<open>q\<close> to its first and \<open>eq\<close> behind its last character. A command of the
  parser has such words; the words of a command can also be the strings themselves.\<close>

type_synonym tok = "cptr \<times> cptr"

datatype 'w cmd =
    Exec "'w list"
  | Redir "'w cmd" 'w u32 int
  | Pipe "'w cmd" "'w cmd"
  | Lst "'w cmd" "'w cmd"
  | Back "'w cmd"

abbreviation (input) MAXARGS :: nat where "MAXARGS \<equiv> 10"

section \<open>Tokens\<close>

definition whitespace :: "byte list" where
  "whitespace = [32, 9, 13, 10, 11]"

definition symbols :: "byte list" where
  "symbols = [60, 124, 62, 38, 59, 40, 41]"

definition is_ws :: "byte \<Rightarrow> bool" where
  "is_ws c \<longleftrightarrow> strchr whitespace c \<noteq> None"

definition is_sym :: "byte \<Rightarrow> bool" where
  "is_sym c \<longleftrightarrow> strchr symbols c \<noteq> None"

definition skip_ws :: "cptr \<Rightarrow> cptr" where
  "skip_ws s = dropWhile is_ws s"

text \<open>The kind of the token (the byte itself, \<open>+\<close> for \<open>>>\<close>, \<open>a\<close> for a word, 0 at the end), the pointers \<open>q\<close>
  and \<open>eq\<close>, and the new position.\<close>

definition gettoken :: "cptr \<Rightarrow> byte \<times> tok \<times> cptr" where
  "gettoken ps =
     (let q = skip_ws ps
      in case q of [] \<Rightarrow> (0, (q, q), skip_ws q)
         | c # s \<Rightarrow>
           if c = 124 \<or> c = 40 \<or> c = 41 \<or> c = 59 \<or> c = 38 \<or> c = 60 then (c, (q, s), skip_ws s)
           else if c = 62
           then if s \<noteq> [] \<and> hd s = 62 then (43, (q, tl s), skip_ws (tl s)) else (62, (q, s), skip_ws s)
           else let eq = dropWhile (\<lambda>b. \<not> is_ws b \<and> \<not> is_sym b) q in (97, (q, eq), skip_ws eq))"

definition peek :: "byte list \<Rightarrow> cptr \<Rightarrow> bool \<times> cptr" where
  "peek toks ps = (let s = skip_ws ps in (s \<noteq> [] \<and> strchr toks (hd s) \<noteq> None, s))"

lemma length_skip_ws: "length (skip_ws s) \<le> length s"
  by (simp add: skip_ws_def length_dropWhile_le)

lemma peek_length: "peek toks ps = (b, s) \<Longrightarrow> length s \<le> length ps"
  by (auto simp: peek_def Let_def length_skip_ws)

lemma length_tl_skip: "length (skip_ws (tl s)) \<le> length s"
  by (rule order_trans [OF length_skip_ws]) simp

lemma gettoken_length:
  assumes "gettoken ps = (t, w, s)"
  shows "length s \<le> length ps" and "t \<noteq> 0 \<or> s \<noteq> [] \<or> skip_ws ps \<noteq> [] \<Longrightarrow> length s < length ps"
proof -
  have k: "length (skip_ws ps) \<le> length ps" by (rule length_skip_ws)
  have "skip_ws ps \<noteq> [] \<longrightarrow> length s < length (skip_ws ps)"
  proof (cases "skip_ws ps")
    case (Cons c r)
    have w: "length (dropWhile (\<lambda>b. \<not> is_ws b \<and> \<not> is_sym b) r) \<le> length r" by (rule length_dropWhile_le)
    have nws: "\<not> is_ws c" using Cons hd_dropWhile [of is_ws ps] by (auto simp: skip_ws_def)
    have "\<not> is_sym c \<or> c \<in> {60, 124, 62, 38, 59, 40, 41}"
      by (auto simp: is_sym_def symbols_def split: if_splits)
    then show ?thesis
      using assms Cons nws w length_skip_ws [of r] length_tl_skip [of r]
        length_skip_ws [of "dropWhile (\<lambda>b. \<not> is_ws b \<and> \<not> is_sym b) r"]
      by (auto simp: gettoken_def Let_def le_imp_less_Suc split: if_splits)
  qed simp
  moreover have "skip_ws ps = [] \<longrightarrow> s = [] \<and> t = 0"
    using assms by (auto simp: gettoken_def Let_def) (simp_all add: skip_ws_def)
  ultimately show "length s \<le> length ps" and "t \<noteq> 0 \<or> s \<noteq> [] \<or> skip_ws ps \<noteq> [] \<Longrightarrow> length s < length ps"
    using k by fastforce+
qed

lemma gettoken_adv:
  "(t, w, s) = gettoken ps \<Longrightarrow> length s \<le> length ps \<and> (t \<noteq> 0 \<or> skip_ws ps \<noteq> [] \<longrightarrow> length s < length ps)"
  using gettoken_length [of ps t w s] by auto

lemma peek_adv: "(b, s) = peek toks ps \<Longrightarrow> length s \<le> length ps \<and> (b \<longrightarrow> skip_ws s \<noteq> [])"
  using peek_length [of toks ps b s] by (auto simp: peek_def Let_def skip_ws_def)

section \<open>Redirections and arguments\<close>

text \<open>A redirection: its file, the mode of \<open>open\<close> and the descriptor.\<close>

type_synonym redir = "tok \<times> u32 \<times> int"

function parseredirs :: "redir list \<Rightarrow> cptr \<Rightarrow> (redir list \<times> cptr) outcome" where
  "parseredirs rs ps =
     (case peek [60, 62] ps of (b, s) \<Rightarrow>
      if \<not> b then Ok (rs, s)
      else case gettoken s of (tk, _, s1) \<Rightarrow>
           case gettoken s1 of (tk1, w, s2) \<Rightarrow>
           if tk1 \<noteq> 97 then Panic ''missing file for redirection''
           else parseredirs
             (rs @ (if tk = 60 then [(w, 0, 0)]
                    else if tk = 62 then [(w, 0x601, 1)]
                    else if tk = 43 then [(w, 0x201, 1)] else [])) s2)"
  by pat_completeness auto
termination
  by (relation "measure (\<lambda>(rs, ps). length ps)") (auto dest!: gettoken_adv peek_adv)

declare parseredirs.simps [simp del]

lemma parseredirs_length: "parseredirs rs ps = Ok (rs1, s) \<Longrightarrow> length s \<le> length ps"
proof (induction rs ps rule: parseredirs.induct)
  case (1 rs ps)
  obtain b s0 where p: "peek [60, 62] ps = (b, s0)" by force
  obtain tk w0 s1 where g0: "gettoken s0 = (tk, w0, s1)" by (cases "gettoken s0") auto
  obtain tk1 w1 s2 where g1: "gettoken s1 = (tk1, w1, s2)" by (cases "gettoken s1") auto
  show ?case
  proof (cases "\<not> b")
    case True
    then show ?thesis using 1(2) p peek_length [OF p] by (subst (asm) parseredirs.simps) simp
  next
    case False
    have "tk1 = 97" using 1(2) False p g0 g1
      by (subst (asm) parseredirs.simps) (auto split: if_splits)
    then have "length s \<le> length s2"
      using 1(2) False p g0 g1 by (subst (asm) parseredirs.simps) (auto intro: 1(1) split: if_splits)
    then show ?thesis
      using peek_length [OF p] gettoken_length(1) [OF g0] gettoken_length(1) [OF g1] by simp
  qed
qed

text \<open>\<open>redircmd\<close> wraps the command it is given, so the last redirection is the outermost.\<close>

definition wrap_redirs :: "redir list \<Rightarrow> tok cmd \<Rightarrow> tok cmd" where
  "wrap_redirs rs c = fold (\<lambda>(w, mode, fd) c. Redir c w mode fd) rs c"

text \<open>The loop of \<open>parseexec\<close>. The C code enters the words into the innermost command while redirections are
  wrapped around it; the model puts both together at the end.\<close>

function exec_loop :: "tok list \<Rightarrow> redir list \<Rightarrow> cptr \<Rightarrow> (tok cmd \<times> cptr) outcome" where
  "exec_loop argv rs ps =
     (case peek [124, 41, 38, 59] ps of (b, s) \<Rightarrow>
      if b then Ok (wrap_redirs rs (Exec argv), s)
      else case gettoken s of (tk, w, s1) \<Rightarrow>
        if tk = 0 then Ok (wrap_redirs rs (Exec argv), s1)
        else if tk \<noteq> 97 then Panic ''syntax''
        else if length argv + 1 \<ge> MAXARGS then Panic ''too many args''
        else obind (parseredirs rs s1) (\<lambda>(rs1, s2). exec_loop (argv @ [w]) rs1 s2))"
  by pat_completeness auto
termination
  by (relation "measure (\<lambda>(argv, rs, ps). length ps)") (auto dest!: gettoken_adv peek_adv parseredirs_length)

declare exec_loop.simps [simp del]

section \<open>The grammar\<close>

text \<open>\<open>while(peek(ps, es, "&")) \<dots>\<close>\<close>

function back_loop :: "tok cmd \<Rightarrow> cptr \<Rightarrow> tok cmd \<times> cptr" where
  "back_loop c ps =
     (case peek [38] ps of (b, s) \<Rightarrow>
      if b then case gettoken s of (_, _, s1) \<Rightarrow> back_loop (Back c) s1 else (c, s))"
  by pat_completeness auto
termination
  by (relation "measure (\<lambda>(c, ps). length ps)") (auto dest!: gettoken_adv peek_adv)

declare back_loop.simps [simp del]

fun parseline :: "nat \<Rightarrow> cptr \<Rightarrow> (tok cmd \<times> cptr) outcome"
  and parsepipe :: "nat \<Rightarrow> cptr \<Rightarrow> (tok cmd \<times> cptr) outcome"
  and parseexec :: "nat \<Rightarrow> cptr \<Rightarrow> (tok cmd \<times> cptr) outcome"
  and parseblock :: "nat \<Rightarrow> cptr \<Rightarrow> (tok cmd \<times> cptr) outcome" where
  "parseline 0 ps = Diverge"
| "parseline (Suc n) ps =
     obind (parsepipe n ps) (\<lambda>(c, s).
     case back_loop c s of (c1, s1) \<Rightarrow>
     case peek [59] s1 of (b, s2) \<Rightarrow>
     if b
     then case gettoken s2 of (_, _, s3) \<Rightarrow> obind (parseline n s3) (\<lambda>(c2, s4). Ok (Lst c1 c2, s4))
     else Ok (c1, s2))"
| "parsepipe 0 ps = Diverge"
| "parsepipe (Suc n) ps =
     obind (parseexec n ps) (\<lambda>(c, s).
     case peek [124] s of (b, s1) \<Rightarrow>
     if b
     then case gettoken s1 of (_, _, s2) \<Rightarrow> obind (parsepipe n s2) (\<lambda>(c2, s3). Ok (Pipe c c2, s3))
     else Ok (c, s1))"
| "parseexec 0 ps = Diverge"
| "parseexec (Suc n) ps =
     (case peek [40] ps of (b, s) \<Rightarrow>
      if b then parseblock n s
      else obind (parseredirs [] s) (\<lambda>(rs, s1). exec_loop [] rs s1))"
| "parseblock 0 ps = Diverge"
| "parseblock (Suc n) ps =
     (case peek [40] ps of (b, s) \<Rightarrow>
      if \<not> b then Panic ''parseblock''
      else case gettoken s of (_, _, s1) \<Rightarrow>
      obind (parseline n s1) (\<lambda>(c, s2).
      case peek [41] s2 of (b, s3) \<Rightarrow>
      if \<not> b then Panic ''syntax - missing )''
      else case gettoken s3 of (_, _, s4) \<Rightarrow>
      obind (parseredirs [] s4) (\<lambda>(rs, s5). Ok (wrap_redirs rs c, s5))))"

text \<open>\<open>nulterminate\<close> stores a zero at the end of every word. The line is an array with its terminating zero.\<close>

definition store_end :: "nat \<Rightarrow> tok \<Rightarrow> byte list \<Rightarrow> byte list" where
  "store_end n w buf = (case w of (q, eq) \<Rightarrow> buf[n - length eq := 0])"

primrec nulterminate :: "nat \<Rightarrow> tok cmd \<Rightarrow> byte list \<Rightarrow> byte list" where
  "nulterminate n (Exec argv) buf = fold (store_end n) argv buf"
| "nulterminate n (Redir c w mode fd) buf = store_end n w (nulterminate n c buf)"
| "nulterminate n (Pipe l r) buf = nulterminate n r (nulterminate n l buf)"
| "nulterminate n (Lst l r) buf = nulterminate n r (nulterminate n l buf)"
| "nulterminate n (Back c) buf = nulterminate n c buf"

definition parsecmd :: "byte list \<Rightarrow> (tok cmd \<times> byte list) outcome" where
  "parsecmd line =
     obind (parseline (4 * length line + 4) line) (\<lambda>(c, s).
     case peek [] s of (_, s1) \<Rightarrow>
     if s1 \<noteq> [] then Panic ''syntax'' else Ok (c, nulterminate (length line) c (line @ [0])))"

end
