(* ===== verification/Xv6_Sh_Spec.thy ===== *)
theory Xv6_Sh_Spec
  imports Xv6_Sh "HOL-Library.Sublist"
begin

text \<open>
  The parser of the shell returns on every line, the words it finds are intact C strings after
  \<open>nulterminate\<close>, and parsing undoes printing.
\<close>

section \<open>Termination\<close>

lemma obind_eq_Diverge: "obind m f = Diverge \<longleftrightarrow> m = Diverge \<or> (\<exists>a. m = Ok a \<and> f a = Diverge)"
  by (cases m) auto

lemma parseredirs_returns: "parseredirs rs ps \<noteq> Diverge"
proof (induction rs ps rule: parseredirs.induct)
  case (1 rs ps)
  obtain b s where p: "peek [60, 62] ps = (b, s)" by force
  obtain tk w0 s1 where g: "gettoken s = (tk, w0, s1)" by (cases "gettoken s") auto
  obtain tk1 w s2 where g1: "gettoken s1 = (tk1, w, s2)" by (cases "gettoken s1") auto
  show ?case
    using 1 [OF p [symmetric] _ g [symmetric] refl g1 [symmetric] refl] p g g1
    by (subst parseredirs.simps) simp
qed

lemma exec_loop_returns: "exec_loop argv rs ps \<noteq> Diverge"
proof (induction argv rs ps rule: exec_loop.induct)
  case (1 argv rs ps)
  then show ?case
    by (subst exec_loop.simps) (auto simp: obind_eq_Diverge parseredirs_returns split: prod.splits)
qed

lemma exec_loop_length: "exec_loop argv rs ps = Ok (c, s) \<Longrightarrow> length s \<le> length ps"
proof (induction argv rs ps rule: exec_loop.induct)
  case (1 argv rs ps)
  obtain b s0 where p: "peek [124, 41, 38, 59] ps = (b, s0)" by force
  obtain tk w s1 where g: "gettoken s0 = (tk, w, s1)" by (cases "gettoken s0") auto
  note l = peek_length [OF p] gettoken_length(1) [OF g]
  show ?case
  proof (cases "b \<or> tk = 0")
    case True
    then show ?thesis using 1(2) p g l by (subst (asm) exec_loop.simps) (auto split: if_splits)
  next
    case False
    then obtain rs1 s2 where r: "parseredirs rs s1 = Ok (rs1, s2)" "exec_loop (argv @ [w]) rs1 s2 = Ok (c, s)"
        "tk = 97" "\<not> length argv + 1 \<ge> 10"
      using 1(2) p g by (subst (asm) exec_loop.simps) (auto simp: obind_eq_Ok split: if_splits)
    have "length s \<le> length s2"
      using 1(1) [OF p [symmetric] _ g [symmetric] refl _ _ _ r(1) refl r(2)] False r by auto
    then show ?thesis using l parseredirs_length [OF r(1)] by simp
  qed
qed

lemma back_loop_length: "back_loop c ps = (c1, s) \<Longrightarrow> length s \<le> length ps"
proof (induction c ps rule: back_loop.induct)
  case (1 c ps)
  obtain b s0 where p: "peek [38] ps = (b, s0)" by force
  obtain tk w s1 where g: "gettoken s0 = (tk, w, s1)" by (cases "gettoken s0") auto
  show ?case
    using 1 p g peek_length [OF p] gettoken_length(1) [OF g] by (subst (asm) (2) back_loop.simps) (fastforce split: if_splits)
qed

text \<open>The cases of the four parse functions, for a result and for exhausted fuel.\<close>

lemma parseline_OkE:
  assumes "parseline (Suc n) ps = Ok (c, s)"
  obtains c0 s0 c1 s1 b s2 where "parsepipe n ps = Ok (c0, s0)" "back_loop c0 s0 = (c1, s1)" "peek [59] s1 = (b, s2)"
    "\<not> b \<Longrightarrow> c = c1 \<and> s = s2"
    "b \<Longrightarrow> \<exists>t w s3 c2. gettoken s2 = (t, w, s3) \<and> parseline n s3 = Ok (c2, s) \<and> c = Lst c1 c2"
proof -
  obtain c0 s0 where p: "parsepipe n ps = Ok (c0, s0)" using assms by (auto simp: obind_eq_Ok)
  obtain c1 s1 where b: "back_loop c0 s0 = (c1, s1)" by force
  obtain b s2 where k: "peek [59] s1 = (b, s2)" by force
  show ?thesis
    by (rule that [OF p b k]) (use assms p b k in \<open>auto simp: obind_eq_Ok split: prod.splits\<close>)
qed

lemma parsepipe_OkE:
  assumes "parsepipe (Suc n) ps = Ok (c, s)"
  obtains c0 s0 b s1 where "parseexec n ps = Ok (c0, s0)" "peek [124] s0 = (b, s1)"
    "\<not> b \<Longrightarrow> c = c0 \<and> s = s1"
    "b \<Longrightarrow> \<exists>t w s2 c2. gettoken s1 = (t, w, s2) \<and> parsepipe n s2 = Ok (c2, s) \<and> c = Pipe c0 c2"
proof -
  obtain c0 s0 where p: "parseexec n ps = Ok (c0, s0)" using assms by (auto simp: obind_eq_Ok)
  obtain b s1 where k: "peek [124] s0 = (b, s1)" by force
  show ?thesis
    by (rule that [OF p k]) (use assms p k in \<open>auto simp: obind_eq_Ok split: prod.splits\<close>)
qed

lemma parseexec_OkE:
  assumes "parseexec (Suc n) ps = Ok (c, s)"
  obtains b s0 where "peek [40] ps = (b, s0)" "b \<Longrightarrow> parseblock n s0 = Ok (c, s)"
    "\<not> b \<Longrightarrow> \<exists>rs s1. parseredirs [] s0 = Ok (rs, s1) \<and> exec_loop [] rs s1 = Ok (c, s)"
proof -
  obtain b s0 where k: "peek [40] ps = (b, s0)" by force
  show ?thesis
    by (rule that [OF k]) (use assms k in \<open>auto simp: obind_eq_Ok split: prod.splits\<close>)
qed

lemma parseblock_OkE:
  assumes "parseblock (Suc n) ps = Ok (c, s)"
  obtains s0 t w s1 c0 s2 s3 t1 w1 s4 rs where "peek [40] ps = (True, s0)" "gettoken s0 = (t, w, s1)"
    "parseline n s1 = Ok (c0, s2)" "peek [41] s2 = (True, s3)" "gettoken s3 = (t1, w1, s4)"
    "parseredirs [] s4 = Ok (rs, s)" "c = wrap_redirs rs c0"
proof -
  obtain b s0 where k: "peek [40] ps = (b, s0)" by force
  obtain t w s1 where g: "gettoken s0 = (t, w, s1)" by (cases "gettoken s0") auto
  have b using assms k by (auto split: if_splits)
  then obtain c0 s2 where l: "parseline n s1 = Ok (c0, s2)" using assms k g by (auto simp: obind_eq_Ok)
  obtain b1 s3 where k1: "peek [41] s2 = (b1, s3)" by force
  obtain t1 w1 s4 where g1: "gettoken s3 = (t1, w1, s4)" by (cases "gettoken s3") auto
  have b1 using assms k g l k1 \<open>b\<close> by (auto split: if_splits)
  then show ?thesis
    using that [of s0 t w s1 c0 s2 s3 t1 w1 s4] assms k g l k1 g1 \<open>b\<close> by (auto simp: obind_eq_Ok)
qed

lemma parse_length:
  "(\<forall>ps c s. parseline n ps = Ok (c, s) \<longrightarrow> length s \<le> length ps) \<and>
   (\<forall>ps c s. parsepipe n ps = Ok (c, s) \<longrightarrow> length s \<le> length ps) \<and>
   (\<forall>ps c s. parseexec n ps = Ok (c, s) \<longrightarrow> length s \<le> length ps) \<and>
   (\<forall>ps c s. parseblock n ps = Ok (c, s) \<longrightarrow> length s \<le> length ps)"
proof (induction n)
  case (Suc n)
  note len = peek_length gettoken_length(1) back_loop_length parseredirs_length exec_loop_length
  have "length s \<le> length ps" if "parseline (Suc n) ps = Ok (c, s)" for ps c s
    using that by (rule parseline_OkE) (use Suc.IH in \<open>fastforce dest: len\<close>)
  moreover have "length s \<le> length ps" if "parsepipe (Suc n) ps = Ok (c, s)" for ps c s
    using that by (rule parsepipe_OkE) (use Suc.IH in \<open>fastforce dest: len\<close>)
  moreover have "length s \<le> length ps" if "parseexec (Suc n) ps = Ok (c, s)" for ps c s
    using that by (rule parseexec_OkE) (use Suc.IH in \<open>fastforce dest: len\<close>)
  moreover have "length s \<le> length ps" if "parseblock (Suc n) ps = Ok (c, s)" for ps c s
    using that by (rule parseblock_OkE) (use Suc.IH in \<open>fastforce dest: len\<close>)
  ultimately show ?case by blast
qed simp

lemma peek_gettoken: "peek toks ps = (True, s) \<Longrightarrow> gettoken s = (t, w, s1) \<Longrightarrow> length s1 < length ps"
  using peek_adv [of True s toks ps] gettoken_adv [of t w s1 s] by auto

lemma parse_returns:
  "(\<forall>ps. 4 * length ps + 4 \<le> n \<longrightarrow> parseline n ps \<noteq> Diverge) \<and>
   (\<forall>ps. 4 * length ps + 3 \<le> n \<longrightarrow> parsepipe n ps \<noteq> Diverge) \<and>
   (\<forall>ps. 4 * length ps + 2 \<le> n \<longrightarrow> parseexec n ps \<noteq> Diverge) \<and>
   (\<forall>ps. 4 * length ps + 1 \<le> n \<longrightarrow> parseblock n ps \<noteq> Diverge)"
proof (induction n)
  case (Suc n)
  have line: "parseline (Suc n) ps \<noteq> Diverge" if l: "4 * length ps + 4 \<le> Suc n" for ps
  proof (cases "parsepipe n ps")
    case (Ok r)
    obtain c s where r: "r = (c, s)" by force
    obtain c1 s1 where b: "back_loop c s = (c1, s1)" by force
    obtain b s2 where k: "peek [59] s1 = (b, s2)" by force
    obtain t w s3 where g: "gettoken s2 = (t, w, s3)" by (cases "gettoken s2") auto
    have "length s \<le> length ps" using parse_length [of n] Ok r by blast
    then have "b \<Longrightarrow> length s3 < length ps"
      using peek_gettoken [of "[59]" s1 s2 t w s3] k g back_loop_length [OF b] by simp
    then have "b \<Longrightarrow> parseline n s3 \<noteq> Diverge" using Suc.IH l by simp
    then show ?thesis using Ok r b k g by (auto simp: obind_eq_Diverge)
  qed (use Suc.IH l in auto)
  have pipe: "parsepipe (Suc n) ps \<noteq> Diverge" if l: "4 * length ps + 3 \<le> Suc n" for ps
  proof (cases "parseexec n ps")
    case (Ok r)
    obtain c s where r: "r = (c, s)" by force
    obtain b s1 where k: "peek [124] s = (b, s1)" by force
    obtain t w s2 where g: "gettoken s1 = (t, w, s2)" by (cases "gettoken s1") auto
    have "length s \<le> length ps" using parse_length [of n] Ok r by blast
    then have "b \<Longrightarrow> length s2 < length ps" using peek_gettoken [of "[124]" s s1 t w s2] k g by simp
    then have "b \<Longrightarrow> parsepipe n s2 \<noteq> Diverge" using Suc.IH l by simp
    then show ?thesis using Ok r k g by (auto simp: obind_eq_Diverge)
  qed (use Suc.IH l in auto)
  have exec: "parseexec (Suc n) ps \<noteq> Diverge" if "4 * length ps + 2 \<le> Suc n" for ps
    using Suc.IH that
    by (auto simp: obind_eq_Diverge parseredirs_returns exec_loop_returns split: prod.splits dest!: peek_length)
  have block: "parseblock (Suc n) ps \<noteq> Diverge" if l: "4 * length ps + 1 \<le> Suc n" for ps
  proof -
    obtain b s where k: "peek [40] ps = (b, s)" by force
    obtain t w s1 where g: "gettoken s = (t, w, s1)" by (cases "gettoken s") auto
    have "b \<Longrightarrow> parseline n s1 \<noteq> Diverge"
      using Suc.IH l peek_gettoken [of "[40]" ps s t w s1] k g by fastforce
    then show ?thesis
      using k g by (auto simp: obind_eq_Diverge parseredirs_returns split: prod.splits if_splits)
  qed
  show ?case using line pipe exec block by blast
qed simp

text \<open>
  C36: the parser of the shell returns on every line: the recursion through parentheses, pipes and lists is
  never deeper than the fuel \<open>parsecmd\<close> starts with, which grows with the length of the line.
\<close>

theorem parsecmd_terminates: "parsecmd line \<noteq> Diverge"
  using parse_returns [of "4 * length line + 4"]
  by (auto simp: parsecmd_def obind_eq_Diverge split: prod.splits)

section \<open>Words\<close>

text \<open>A word stands for the bytes between its pointers.\<close>

definition word_str :: "tok \<Rightarrow> byte list" where
  "word_str w = (case w of (q, eq) \<Rightarrow> take (length q - length eq) q)"

definition plain :: "byte \<Rightarrow> bool" where
  "plain c \<longleftrightarrow> \<not> is_ws c \<and> \<not> is_sym c"

text \<open>The words that \<open>gettoken\<close> makes: a longest run of characters that are neither blank nor symbols.\<close>

definition wf_word :: "cptr \<Rightarrow> tok \<Rightarrow> bool" where
  "wf_word ps w \<longleftrightarrow> (\<exists>str. suffix (fst w) ps \<and> fst w = str @ snd w \<and> str \<noteq> [] \<and> (\<forall>c\<in>set str. plain c) \<and>
     (snd w = [] \<or> \<not> plain (hd (snd w))))"

lemma wf_word_suffix: "wf_word ps w \<Longrightarrow> suffix ps line \<Longrightarrow> wf_word line w"
  unfolding wf_word_def by (meson suffix_order.trans)

lemma skip_ws_Nil [simp]: "skip_ws [] = []"
  by (simp add: skip_ws_def)

lemma suffix_skip_ws: "suffix (skip_ws s) s"
  by (simp add: skip_ws_def suffix_dropWhile)

lemma peek_suffix: "peek toks ps = (b, s) \<Longrightarrow> suffix s ps"
  by (auto simp: peek_def Let_def suffix_skip_ws)

lemma skip_ws_Cons: "skip_ws s = c # r \<Longrightarrow> \<not> is_ws c"
  using hd_dropWhile [of is_ws s] by (auto simp: skip_ws_def)

lemma gettoken_wf:
  assumes "gettoken ps = (t, w, s)"
  shows "suffix s ps" and "t = 97 \<Longrightarrow> wf_word ps w"
proof -
  define q where "q = skip_ws ps"
  have q: "suffix q ps" by (simp add: q_def suffix_skip_ws)
  let ?P = "\<lambda>b. \<not> is_ws b \<and> \<not> is_sym b"
  have *: "suffix s ps \<and> (t = 97 \<longrightarrow> wf_word ps w)"
  proof (cases q)
    case Nil
    then show ?thesis using assms q by (auto simp: gettoken_def q_def [symmetric] Let_def)
  next
    case (Cons c r)
    have r: "suffix r ps" using q Cons by (meson suffix_ConsD)
    then have tl: "suffix (tl r) ps" by (meson suffix_order.trans suffix_tl)
    consider (one) "c = 124 \<or> c = 40 \<or> c = 41 \<or> c = 59 \<or> c = 38 \<or> c = 60" | (gt) "c = 62"
      | (word) "\<not> (c = 124 \<or> c = 40 \<or> c = 41 \<or> c = 59 \<or> c = 38 \<or> c = 60)" "c \<noteq> 62" by blast
    then show ?thesis
    proof cases
      case one
      then show ?thesis
        using assms Cons r suffix_order.trans [OF suffix_skip_ws r]
        by (auto simp: gettoken_def q_def [symmetric] Let_def)
    next
      case gt
      then show ?thesis
        using assms Cons suffix_order.trans [OF suffix_skip_ws r] suffix_order.trans [OF suffix_skip_ws tl]
        by (auto simp: gettoken_def q_def [symmetric] Let_def split: if_splits)
    next
      case word
      then have eq: "t = 97" "w = (q, dropWhile ?P q)" "s = skip_ws (dropWhile ?P q)"
        using assms Cons by (auto simp: gettoken_def q_def [symmetric] Let_def split: if_splits)
      have "\<not> is_ws c" using Cons by (simp add: q_def skip_ws_Cons)
      moreover have "\<not> is_sym c" using word by (auto simp: is_sym_def symbols_def)
      ultimately have "takeWhile ?P q \<noteq> []" using Cons by simp
      moreover have "dropWhile ?P q = [] \<or> \<not> ?P (hd (dropWhile ?P q))" using hd_dropWhile [of ?P q] by blast
      ultimately have "wf_word ps w"
        using q eq by (auto simp: wf_word_def plain_def intro!: exI [of _ "takeWhile ?P q"] dest: set_takeWhileD)
      moreover have "suffix s ps"
        using eq q by (meson suffix_order.trans suffix_skip_ws suffix_dropWhile)
      ultimately show ?thesis by simp
    qed
  qed
  then show "suffix s ps" and "t = 97 \<Longrightarrow> wf_word ps w" by auto
qed

lemma parseredirs_wf:
  "parseredirs rs ps = Ok (rs1, s) \<Longrightarrow> \<forall>r\<in>set rs. wf_word line (fst r) \<Longrightarrow> suffix ps line \<Longrightarrow>
   suffix s line \<and> (\<forall>r\<in>set rs1. wf_word line (fst r))"
proof (induction rs ps rule: parseredirs.induct)
  case (1 rs ps)
  obtain b s0 where p: "peek [60, 62] ps = (b, s0)" by force
  obtain tk w0 s1 where g: "gettoken s0 = (tk, w0, s1)" by (cases "gettoken s0") auto
  obtain tk1 w s2 where g1: "gettoken s1 = (tk1, w, s2)" by (cases "gettoken s1") auto
  have s0: "suffix s0 line" using peek_suffix [OF p] 1(4) by (rule suffix_order.trans)
  have s1: "suffix s1 line" using gettoken_wf(1) [OF g] s0 by (rule suffix_order.trans)
  have s2: "suffix s2 line" using gettoken_wf(1) [OF g1] s1 by (rule suffix_order.trans)
  show ?case
  proof (cases b)
    case False
    then show ?thesis using 1(2,3) p s0 by (subst (asm) parseredirs.simps) auto
  next
    case True
    define rs' where "rs' = rs @ (if tk = 60 then [(w, 0, 0)] else if tk = 62 then [(w, 0x601, 1)]
      else if tk = 43 then [(w, 0x201, 1)] else [])"
    have t: "tk1 = 97" "parseredirs rs' s2 = Ok (rs1, s)"
      using 1(2) p g g1 True by (subst (asm) parseredirs.simps, auto simp: rs'_def split: if_splits)+
    have "wf_word line w" using gettoken_wf(2) [OF g1 t(1)] s1 by (rule wf_word_suffix)
    then have "\<forall>r\<in>set rs'. wf_word line (fst r)" using 1(3) by (auto simp: rs'_def)
    then show ?thesis
      using 1(1) [OF p [symmetric] _ g [symmetric] refl g1 [symmetric] refl] t True s2 by (simp add: rs'_def)
  qed
qed

lemma set_wrap_redirs: "set_cmd (wrap_redirs rs c) = set_cmd c \<union> fst ` set rs"
  unfolding wrap_redirs_def by (induction rs arbitrary: c) (auto simp: case_prod_unfold)

lemma exec_loop_wf:
  "exec_loop argv rs ps = Ok (c, s) \<Longrightarrow> \<forall>w\<in>set argv \<union> fst ` set rs. wf_word line w \<Longrightarrow> suffix ps line \<Longrightarrow>
   suffix s line \<and> (\<forall>w\<in>set_cmd c. wf_word line w)"
proof (induction argv rs ps rule: exec_loop.induct)
  case (1 argv rs ps)
  obtain b s0 where p: "peek [124, 41, 38, 59] ps = (b, s0)" by force
  obtain tk w s1 where g: "gettoken s0 = (tk, w, s1)" by (cases "gettoken s0") auto
  have s0: "suffix s0 line" using peek_suffix [OF p] 1(4) by (rule suffix_order.trans)
  have s1: "suffix s1 line" using gettoken_wf(1) [OF g] s0 by (rule suffix_order.trans)
  show ?case
  proof (cases "b \<or> tk = 0")
    case True
    then show ?thesis
      using 1(2,3) p g s0 s1 by (subst (asm) exec_loop.simps) (auto simp: set_wrap_redirs split: if_splits)
  next
    case False
    then obtain rs1 s2 where r: "parseredirs rs s1 = Ok (rs1, s2)" "exec_loop (argv @ [w]) rs1 s2 = Ok (c, s)"
        "tk = 97" "\<not> length argv + 1 \<ge> 10"
      using 1(2) p g by (subst (asm) exec_loop.simps) (auto simp: obind_eq_Ok split: if_splits)
    have "wf_word line w" using gettoken_wf(2) [OF g r(3)] s0 by (rule wf_word_suffix)
    moreover have "suffix s2 line \<and> (\<forall>r\<in>set rs1. wf_word line (fst r))"
      using parseredirs_wf [OF r(1) _ s1] 1(3) by auto
    ultimately show ?thesis
      using 1(1) [OF p [symmetric] _ g [symmetric] refl _ _ _ r(1) refl r(2)] False r(3,4) 1(3) by auto
  qed
qed

lemma back_loop_wf:
  "back_loop c ps = (c1, s) \<Longrightarrow> suffix ps line \<Longrightarrow> suffix s line \<and> set_cmd c1 = set_cmd c"
proof (induction c ps rule: back_loop.induct)
  case (1 c ps)
  obtain b s0 where p: "peek [38] ps = (b, s0)" by force
  obtain tk w s1 where g: "gettoken s0 = (tk, w, s1)" by (cases "gettoken s0") auto
  have s0: "suffix s0 line" using peek_suffix [OF p] 1(3) by (rule suffix_order.trans)
  have s1: "suffix s1 line" using gettoken_wf(1) [OF g] s0 by (rule suffix_order.trans)
  show ?case
  proof (cases b)
    case True
    then have "back_loop (Back c) s1 = (c1, s)" using 1(2) p g by (subst (asm) back_loop.simps) simp
    then show ?thesis using 1(1) [OF p [symmetric] True g [symmetric] refl _ s1] by simp
  next
    case False
    then show ?thesis using 1(2) p s0 by (subst (asm) back_loop.simps) simp
  qed
qed


lemma parse_wf:
  "(\<forall>ps c s. parseline n ps = Ok (c, s) \<longrightarrow> suffix ps line \<longrightarrow> suffix s line \<and> (\<forall>w\<in>set_cmd c. wf_word line w)) \<and>
   (\<forall>ps c s. parsepipe n ps = Ok (c, s) \<longrightarrow> suffix ps line \<longrightarrow> suffix s line \<and> (\<forall>w\<in>set_cmd c. wf_word line w)) \<and>
   (\<forall>ps c s. parseexec n ps = Ok (c, s) \<longrightarrow> suffix ps line \<longrightarrow> suffix s line \<and> (\<forall>w\<in>set_cmd c. wf_word line w)) \<and>
   (\<forall>ps c s. parseblock n ps = Ok (c, s) \<longrightarrow> suffix ps line \<longrightarrow> suffix s line \<and> (\<forall>w\<in>set_cmd c. wf_word line w))"
proof (induction n)
  case (Suc n)
  note step = suffix_order.trans [OF peek_suffix] suffix_order.trans [OF gettoken_wf(1)]
  have line: "suffix s line \<and> (\<forall>w\<in>set_cmd c. wf_word line w)"
    if *: "parseline (Suc n) ps = Ok (c, s)" "suffix ps line" for ps c s
    using *(1)
  proof (rule parseline_OkE)
    fix c0 s0 c1 s1 b s2
    assume a: "parsepipe n ps = Ok (c0, s0)" "back_loop c0 s0 = (c1, s1)" "peek [59] s1 = (b, s2)"
      "\<not> b \<Longrightarrow> c = c1 \<and> s = s2"
      "b \<Longrightarrow> \<exists>t w s3 c2. gettoken s2 = (t, w, s3) \<and> parseline n s3 = Ok (c2, s) \<and> c = Lst c1 c2"
    have s0: "suffix s0 line \<and> (\<forall>w\<in>set_cmd c0. wf_word line w)" using Suc.IH a(1) *(2) by blast
    then have s1: "suffix s1 line \<and> (\<forall>w\<in>set_cmd c1. wf_word line w)" using back_loop_wf [OF a(2)] by auto
    then have s2: "suffix s2 line" using step(1) [OF a(3)] by blast
    show ?thesis
    proof (cases b)
      case True
      then obtain t w s3 c2 where g: "gettoken s2 = (t, w, s3)" "parseline n s3 = Ok (c2, s)" "c = Lst c1 c2"
        using a(5) by blast
      then have "suffix s3 line" using step(2) [OF g(1) s2] by blast
      then show ?thesis using Suc.IH g s1 by auto
    qed (use a(4) s1 s2 in auto)
  qed
  have pipe: "suffix s line \<and> (\<forall>w\<in>set_cmd c. wf_word line w)"
    if *: "parsepipe (Suc n) ps = Ok (c, s)" "suffix ps line" for ps c s
    using *(1)
  proof (rule parsepipe_OkE)
    fix c0 s0 b s1
    assume a: "parseexec n ps = Ok (c0, s0)" "peek [124] s0 = (b, s1)" "\<not> b \<Longrightarrow> c = c0 \<and> s = s1"
      "b \<Longrightarrow> \<exists>t w s2 c2. gettoken s1 = (t, w, s2) \<and> parsepipe n s2 = Ok (c2, s) \<and> c = Pipe c0 c2"
    have s0: "suffix s0 line \<and> (\<forall>w\<in>set_cmd c0. wf_word line w)" using Suc.IH a(1) *(2) by blast
    then have s1: "suffix s1 line" using step(1) [OF a(2)] by blast
    show ?thesis
    proof (cases b)
      case True
      then obtain t w s2 c2 where g: "gettoken s1 = (t, w, s2)" "parsepipe n s2 = Ok (c2, s)" "c = Pipe c0 c2"
        using a(4) by blast
      then have "suffix s2 line" using step(2) [OF g(1) s1] by blast
      then show ?thesis using Suc.IH g s0 by auto
    qed (use a(3) s0 s1 in auto)
  qed
  have exec: "suffix s line \<and> (\<forall>w\<in>set_cmd c. wf_word line w)"
    if *: "parseexec (Suc n) ps = Ok (c, s)" "suffix ps line" for ps c s
    using *(1)
  proof (rule parseexec_OkE)
    fix b s0
    assume a: "peek [40] ps = (b, s0)" "b \<Longrightarrow> parseblock n s0 = Ok (c, s)"
      "\<not> b \<Longrightarrow> \<exists>rs s1. parseredirs [] s0 = Ok (rs, s1) \<and> exec_loop [] rs s1 = Ok (c, s)"
    have s0: "suffix s0 line" using step(1) [OF a(1) *(2)] .
    show ?thesis
    proof (cases b)
      case False
      then obtain rs s1 where r: "parseredirs [] s0 = Ok (rs, s1)" "exec_loop [] rs s1 = Ok (c, s)" using a(3) by blast
      then have "suffix s1 line \<and> (\<forall>r\<in>set rs. wf_word line (fst r))" using parseredirs_wf [OF r(1) _ s0] by simp
      then show ?thesis using exec_loop_wf [OF r(2)] by auto
    qed (use a(2) Suc.IH s0 in blast)
  qed
  have block: "suffix s line \<and> (\<forall>w\<in>set_cmd c. wf_word line w)"
    if *: "parseblock (Suc n) ps = Ok (c, s)" "suffix ps line" for ps c s
    using *(1)
  proof (rule parseblock_OkE)
    fix s0 t w s1 c0 s2 s3 t1 w1 s4 rs
    assume a: "peek [40] ps = (True, s0)" "gettoken s0 = (t, w, s1)" "parseline n s1 = Ok (c0, s2)"
      "peek [41] s2 = (True, s3)" "gettoken s3 = (t1, w1, s4)" "parseredirs [] s4 = Ok (rs, s)" "c = wrap_redirs rs c0"
    have "suffix s1 line" using step(2) [OF a(2) step(1) [OF a(1) *(2)]] .
    then have c0: "suffix s2 line \<and> (\<forall>w\<in>set_cmd c0. wf_word line w)" using Suc.IH a(3) by blast
    then have "suffix s4 line" using step(2) [OF a(5) step(1) [OF a(4)]] by blast
    then show ?thesis using parseredirs_wf [OF a(6), of line] a(7) c0 by (simp add: set_wrap_redirs ball_Un)
  qed
  show ?case using line pipe exec block by blast
qed simp

text \<open>What \<open>nulterminate\<close> writes: a zero behind each word and nothing else.\<close>

lemma nth_update: "j < length xs \<Longrightarrow> xs[i := x] ! j = (if i = j then x else xs ! j)"
  by (cases "i = j") simp_all

lemma fold_store_end:
  "length (fold (store_end n) ws buf) = length buf \<and>
   (\<forall>i<length buf. fold (store_end n) ws buf ! i = (if \<exists>w\<in>set ws. i = n - length (snd w) then 0 else buf ! i))"
  by (induction ws arbitrary: buf) (auto simp: store_end_def case_prod_unfold nth_list_update)

lemma nulterminate_nth:
  "length (nulterminate n c buf) = length buf \<and>
   (\<forall>i<length buf. nulterminate n c buf ! i = (if \<exists>w\<in>set_cmd c. i = n - length (snd w) then 0 else buf ! i))"
proof (induction c arbitrary: buf)
  case (Redir c w mode fd)
  show ?case using Redir [of buf] by (auto simp: store_end_def case_prod_unfold nth_update)
qed (auto simp: fold_store_end)

text \<open>The string that a pointer to the beginning of a word denotes afterwards.\<close>

definition cstring_at :: "nat \<Rightarrow> byte list \<Rightarrow> tok \<Rightarrow> byte list" where
  "cstring_at n buf w = takeWhile (\<lambda>b. b \<noteq> 0) (drop (n - length (fst w)) buf)"

lemma nulterminate_word:
  assumes ws: "\<forall>w\<in>set_cmd c. wf_word line w" and nz: "0 \<notin> set line" and w: "w \<in> set_cmd c"
  shows "cstring_at (length line) (nulterminate (length line) c (line @ [0])) w = word_str w"
proof -
  define buf where "buf = nulterminate (length line) c (line @ [0])"
  obtain str where str: "suffix (fst w) line" "fst w = str @ snd w" "\<forall>c\<in>set str. plain c"
    using ws w by (auto simp: wf_word_def)
  then obtain pre where line: "line = pre @ str @ snd w" by (auto simp: suffix_def)
  have len: "length buf = Suc (length line)" using nulterminate_nth [of "length line" c "line @ [0]"] by (simp add: buf_def)
  have zero: "buf ! (length pre + length str) = 0"
    using nulterminate_nth [of "length line" c "line @ [0]"] w line by (auto simp: buf_def)
  have keep: "buf ! (length pre + i) = str ! i" if i: "i < length str" for i
  proof -
    have "length pre + i \<noteq> length line - length (snd v)" if v: "v \<in> set_cmd c" for v
    proof
      assume e: "length pre + i = length line - length (snd v)"
      obtain u where u: "suffix (fst v) line" "fst v = u @ snd v" "snd v = [] \<or> \<not> plain (hd (snd v))"
        using ws v by (auto simp: wf_word_def)
      then have "suffix (snd v) line" by (metis suffix_appendD suffix_order.trans suffix_def)
      then have "snd v = drop (length pre + i) line" using e by (metis suffix_def append_eq_conv_conj length_append diff_add_inverse2 add.commute)
      then have "snd v = drop i str @ snd w" using line i by simp
      then have "snd v \<noteq> []" "hd (snd v) = str ! i" using i by (auto simp: hd_drop_conv_nth hd_append)
      then show False using u(3) str(3) i by simp
    qed
    then show ?thesis
      using nulterminate_nth [of "length line" c "line @ [0]"] line i by (auto simp: buf_def nth_append)
  qed
  have "drop (length pre) buf = str @ 0 # drop (Suc (length pre + length str)) buf"
  proof (rule nth_equalityI, goal_cases)
    case 1
    then show ?case using len line by simp
  next
    case (2 i)
    then show ?case
      using keep [of i] zero len line by (auto simp: nth_append nth_Cons' )
  qed
  moreover have "\<forall>b\<in>set str. b \<noteq> 0" using nz line by auto
  ultimately have "takeWhile (\<lambda>b. b \<noteq> 0) (drop (length pre) buf) = str" by (simp add: takeWhile_tail)
  moreover have "length line - length (fst w) = length pre" using line str(2) by simp
  ultimately show ?thesis
    using str(2) by (simp add: cstring_at_def buf_def word_str_def case_prod_unfold)
qed

text \<open>
  C37: after \<open>parsecmd\<close> every word of the command, read as a C string from its pointer, is exactly the run of
  characters that \<open>gettoken\<close> found: not empty, without blanks and symbols, and not cut short by the
  zeros that \<open>nulterminate\<close> stores for the other words.
\<close>

theorem parsecmd_words:
  assumes "parsecmd line = Ok (c, buf)" and "0 \<notin> set line" and "w \<in> set_cmd c"
  shows "cstring_at (length line) buf w = word_str w \<and> word_str w \<noteq> [] \<and>
    (\<forall>b\<in>set (word_str w). \<not> is_ws b \<and> \<not> is_sym b)"
proof -
  obtain s where p: "parseline (4 * length line + 4) line = Ok (c, s)" "buf = nulterminate (length line) c (line @ [0])"
    using assms(1) by (auto simp: parsecmd_def obind_eq_Ok) (auto split: prod.splits if_splits)
  have "\<forall>w\<in>set_cmd c. wf_word line w"
    using parse_wf [of "4 * length line + 4" line] p(1) by blast
  then show ?thesis
    using nulterminate_word [of c line w] assms(2,3) p(2)
    by (auto simp: wf_word_def word_str_def plain_def case_prod_unfold)
qed


lemma parsecmd_ls_wc: "parsecmd [108, 115, 124, 119] =
    Ok (Pipe (Exec [([108, 115, 124, 119], [124, 119])]) (Exec [([119], [])]), [108, 115, 0, 119, 0])"
  by code_simp

theorem parsecmd_words_witness:
  "cstring_at (length [108, 115, 124, 119 :: byte]) [108, 115, 0, 119, 0] ([108, 115, 124, 119], [124, 119]) = [108, 115]"
  using parsecmd_words [OF parsecmd_ls_wc, of "([108, 115, 124, 119], [124, 119])"]
  by (simp add: word_str_def)

end
