(* ===== verification/Xv6_Sh_Print.thy ===== *)
theory Xv6_Sh_Print
  imports Xv6_Sh_Spec
begin

text \<open>
  Parsing undoes printing: a printer for shell commands, with every subcommand in parentheses, and the proof
  that \<open>parsecmd\<close> gives back the command, its words now in the buffer of the line.
\<close>

section \<open>Printing\<close>

fun show_cmd :: "byte list cmd \<Rightarrow> byte list" where
  "show_cmd (Exec ws) = concat (map (\<lambda>w. w @ [32]) ws)"
| "show_cmd (Redir c w mode fd) =
     40 # show_cmd c @ 41 # (if mode = 0 then [60] else if mode = 0x601 then [62] else [62, 62]) @ w @ [32]"
| "show_cmd (Pipe l r) = 40 # show_cmd l @ 41 # 124 # 40 # show_cmd r @ [41]"
| "show_cmd (Lst l r) = 40 # show_cmd l @ 41 # 59 # 40 # show_cmd r @ [41]"
| "show_cmd (Back c) = 40 # show_cmd c @ [41, 38]"

definition plain_word :: "byte list \<Rightarrow> bool" where
  "plain_word w \<longleftrightarrow> w \<noteq> [] \<and> (\<forall>c\<in>set w. c \<noteq> 0 \<and> \<not> is_ws c \<and> \<not> is_sym c)"

text \<open>The commands that can be written: at most nine words, none of them empty or with a special character, and
  the three kinds of redirection.\<close>

fun printable :: "byte list cmd \<Rightarrow> bool" where
  "printable (Exec ws) \<longleftrightarrow> length ws < MAXARGS \<and> (\<forall>w\<in>set ws. plain_word w)"
| "printable (Redir c w mode fd) \<longleftrightarrow>
     printable c \<and> plain_word w \<and> (mode = 0 \<and> fd = 0 \<or> mode = 0x601 \<and> fd = 1 \<or> mode = 0x201 \<and> fd = 1)"
| "printable (Pipe l r) \<longleftrightarrow> printable l \<and> printable r"
| "printable (Lst l r) \<longleftrightarrow> printable l \<and> printable r"
| "printable (Back c) \<longleftrightarrow> printable c"

section \<open>Tokens of printed text\<close>

lemma sym_simps [simp]:
  "is_sym 40" "is_sym 41" "is_sym 124" "is_sym 59" "is_sym 38" "is_sym 60" "is_sym 62"
  "\<not> is_ws 40" "\<not> is_ws 41" "\<not> is_ws 124" "\<not> is_ws 59" "\<not> is_ws 38" "\<not> is_ws 60" "\<not> is_ws 62" "is_ws 32"
  by (simp_all add: is_sym_def is_ws_def symbols_def whitespace_def)

lemma not_sym: "\<not> is_sym c \<Longrightarrow> c \<noteq> 40 \<and> c \<noteq> 41 \<and> c \<noteq> 124 \<and> c \<noteq> 59 \<and> c \<noteq> 38 \<and> c \<noteq> 60 \<and> c \<noteq> 62"
  by (auto simp: is_sym_def symbols_def split: if_splits)

lemma skip_ws_stop [simp]: "\<not> is_ws c \<Longrightarrow> skip_ws (c # s) = c # s"
  by (simp add: skip_ws_def)

lemma peek_Nil [simp]: "peek toks [] = (False, [])"
  by (simp add: peek_def)

lemma peek_Cons [simp]: "\<not> is_ws c \<Longrightarrow> peek toks (c # s) = (strchr toks c \<noteq> None, c # s)"
  by (simp add: peek_def Let_def)

lemma gettoken_sym [simp]:
  "c \<in> {124, 40, 41, 59, 38, 60} \<Longrightarrow> gettoken (c # s) = (c, (c # s, s), skip_ws s)"
  by (auto simp: gettoken_def Let_def)

lemma gettoken_Nil [simp]: "gettoken [] = (0, ([], []), [])"
  by (simp add: gettoken_def)

lemma plain_wordE:
  assumes "plain_word w"
  obtains c v where "w = c # v" "\<not> is_ws c" "\<not> is_sym c"
  using assms by (cases w) (auto simp: plain_word_def)

lemma gettoken_word:
  assumes "plain_word w"
  shows "gettoken (w @ 32 # s) = (97, (w @ 32 # s, 32 # s), skip_ws s)"
proof -
  obtain c v where w: "w = c # v" "\<not> is_ws c" "\<not> is_sym c" using assms by (rule plain_wordE)
  have "dropWhile (\<lambda>b. \<not> is_ws b \<and> \<not> is_sym b) (w @ 32 # s) = 32 # s"
    using assms by (subst dropWhile_append2) (auto simp: plain_word_def)
  moreover have "skip_ws (32 # s) = skip_ws s" by (simp add: skip_ws_def)
  ultimately show ?thesis using w not_sym [OF w(3)] by (simp add: gettoken_def Let_def)
qed

lemma word_str_word [simp]: "word_str (w @ 32 # s, 32 # s) = w"
  by (simp add: word_str_def)

text \<open>Text that a following token may start with.\<close>

definition at_token :: "cptr \<Rightarrow> bool" where
  "at_token s \<longleftrightarrow> s = [] \<or> \<not> is_ws (hd s)"

lemma skip_ws_at_token: "at_token s \<Longrightarrow> skip_ws s = s"
  by (cases s) (auto simp: at_token_def)

lemma at_token_show: "printable c \<Longrightarrow> at_token rest \<Longrightarrow> at_token (show_cmd c @ rest)"
proof (cases c)
  case (Exec ws)
  assume a: "printable c" "at_token rest"
  show ?thesis
  proof (cases ws)
    case (Cons w ws')
    then have "plain_word w" using a Exec by simp
    then show ?thesis using Cons Exec by (auto simp: at_token_def elim: plain_wordE)
  qed (use a Exec in simp)
qed (auto simp: at_token_def)

text \<open>The end of a subcommand: the end of the line or a closing parenthesis.\<close>

definition closed :: "cptr \<Rightarrow> bool" where
  "closed s \<longleftrightarrow> s = [] \<or> hd s = 41"

lemma closed_at_token [simp]: "closed s \<Longrightarrow> at_token s"
  by (cases s) (auto simp: closed_def at_token_def)

lemma closed_peek: "closed s \<Longrightarrow> strchr toks 41 = None \<Longrightarrow> peek toks s = (False, s)"
  by (cases s) (auto simp: closed_def)

lemma back_loop_closed [simp]: "closed s \<Longrightarrow> back_loop c s = (c, s)"
  by (subst back_loop.simps) (simp add: closed_peek)

lemma parseredirs_none: "at_token s \<Longrightarrow> s = [] \<or> hd s \<noteq> 60 \<and> hd s \<noteq> 62 \<Longrightarrow> parseredirs rs s = Ok (rs, s)"
  by (subst parseredirs.simps, cases s) (auto simp: at_token_def)

lemma parseredirs_one:
  assumes "plain_word w" "closed rest" "mode = 0 \<and> fd = 0 \<or> mode = 0x601 \<and> fd = 1 \<or> mode = 0x201 \<and> fd = 1"
  shows "parseredirs [] ((if mode = 0 then [60] else if mode = 0x601 then [62] else [62, 62]) @ w @ 32 # rest) =
    Ok ([((w @ 32 # rest, 32 # rest), mode, fd)], rest)"
proof -
  obtain c v where w: "w = c # v" "\<not> is_ws c" "\<not> is_sym c" using assms(1) by (rule plain_wordE)
  note ns = not_sym [OF w(3)]
  have fin: "parseredirs rs rest = Ok (rs, rest)" for rs
    using assms(2) by (intro parseredirs_none) (auto simp: closed_def)
  have skip: "skip_ws (w @ 32 # rest) = w @ 32 # rest" using w by simp
  have gt: "gettoken (62 # w @ 32 # rest) = (62, (62 # w @ 32 # rest, w @ 32 # rest), w @ 32 # rest)"
    "gettoken (62 # 62 # w @ 32 # rest) = (43, (62 # 62 # w @ 32 # rest, w @ 32 # rest), w @ 32 # rest)"
    "gettoken (60 # w @ 32 # rest) = (60, (60 # w @ 32 # rest, w @ 32 # rest), w @ 32 # rest)"
    using w ns skip by (simp_all add: gettoken_def Let_def)
  note word = gettoken_word [OF assms(1), of rest]
  show ?thesis
    using assms(3) by (subst parseredirs.simps) (auto simp: gt word skip_ws_at_token assms(2) fin)
qed

lemma exec_loop_words:
  "length argv + length ws < 10 \<Longrightarrow> \<forall>w\<in>set ws. plain_word w \<Longrightarrow> closed rest \<Longrightarrow>
   \<exists>ts. exec_loop argv [] (show_cmd (Exec ws) @ rest) = Ok (Exec (argv @ ts), rest) \<and> map word_str ts = ws"
proof (induction ws arbitrary: argv)
  case Nil
  then show ?case
    by (subst exec_loop.simps, cases rest) (auto simp: closed_def wrap_redirs_def)
next
  case (Cons w ws)
  obtain c v where w: "w = c # v" "\<not> is_ws c" "\<not> is_sym c"
    using Cons.prems(2) by (meson list.set_intros(1) plain_wordE)
  define tail where "tail = show_cmd (Exec ws) @ rest"
  have t: "at_token tail" using Cons.prems at_token_show [of "Exec ws" rest] by (simp add: tail_def)
  have "tail = [] \<or> hd tail \<noteq> 60 \<and> hd tail \<noteq> 62"
  proof (cases ws)
    case Nil
    then show ?thesis using Cons.prems(3) by (auto simp: tail_def closed_def)
  next
    case (Cons x xs)
    then have "plain_word x" using Cons.prems(2) by simp
    then show ?thesis using Cons not_sym by (auto simp: tail_def elim!: plain_wordE)
  qed
  then have r: "parseredirs [] tail = Ok ([], tail)" using t by (rule parseredirs_none [rotated])
  obtain ts where ts: "exec_loop (argv @ [(w @ 32 # tail, 32 # tail)]) [] tail =
      Ok (Exec ((argv @ [(w @ 32 # tail, 32 # tail)]) @ ts), rest)" "map word_str ts = ws"
    using Cons.IH [of "argv @ [(w @ 32 # tail, 32 # tail)]"] Cons.prems by (auto simp: tail_def)
  have g: "gettoken (c # v @ 32 # tail) = (97, (w @ 32 # tail, 32 # tail), tail)"
    using gettoken_word [of w tail] Cons.prems(2) w t by (simp add: skip_ws_at_token)
  have "exec_loop argv [] (w @ 32 # tail) = Ok (Exec (argv @ (w @ 32 # tail, 32 # tail) # ts), rest)"
    using Cons.prems(1) w(2) not_sym [OF w(3)] r ts(1) g
    by (subst exec_loop.simps) (simp add: w(1))
  then show ?case
    using ts(2) by (intro exI [of _ "(w @ 32 # tail, 32 # tail) # ts"]) (simp add: tail_def)
qed

section \<open>The round trip\<close>

text \<open>The line parser gives back the command from its printed form, whatever closing text follows.\<close>

definition parses :: "byte list cmd \<Rightarrow> bool" where
  "parses c \<longleftrightarrow> (\<forall>n rest. closed rest \<longrightarrow> 4 * length (show_cmd c @ rest) + 4 \<le> n \<longrightarrow>
     (\<exists>c1. parseline n (show_cmd c @ rest) = Ok (c1, rest) \<and> map_cmd word_str c1 = c))"

lemma parse_block:
  assumes "parses c" "printable c" "at_token tail" "4 * length (40 # show_cmd c @ 41 # tail) + 1 \<le> n"
  obtains c1 where "map_cmd word_str c1 = c"
    "parseblock n (40 # show_cmd c @ 41 # tail) =
       obind (parseredirs [] tail) (\<lambda>(rs, s). Ok (wrap_redirs rs c1, s))"
proof -
  obtain m where n: "n = Suc m" using assms(4) by (cases n) auto
  have "closed (41 # tail)" by (simp add: closed_def)
  moreover have "4 * length (show_cmd c @ 41 # tail) + 4 \<le> m" using assms(4) n by simp
  ultimately obtain c1 where "parseline m (show_cmd c @ 41 # tail) = Ok (c1, 41 # tail)" "map_cmd word_str c1 = c"
    using assms(1) unfolding parses_def by blast
  moreover have "skip_ws (show_cmd c @ 41 # tail) = show_cmd c @ 41 # tail"
    using at_token_show [OF assms(2), of "41 # tail"] by (simp add: skip_ws_at_token at_token_def)
  ultimately show ?thesis
    using that [of c1] n assms(3) by (simp add: skip_ws_at_token)
qed

lemma parse_exec_block:
  assumes "parses c" "printable c" "at_token tail" "4 * length (40 # show_cmd c @ 41 # tail) + 2 \<le> n"
  obtains c1 where "map_cmd word_str c1 = c"
    "parseexec n (40 # show_cmd c @ 41 # tail) =
       obind (parseredirs [] tail) (\<lambda>(rs, s). Ok (wrap_redirs rs c1, s))"
proof -
  obtain m where n: "n = Suc m" using assms(4) by (cases n) auto
  have "4 * length (40 # show_cmd c @ 41 # tail) + 1 \<le> m" using assms(4) n by simp
  from parse_block [OF assms(1-3) this] show ?thesis using that n by auto
qed

lemma parse_pipe_block:
  assumes "parses c" "printable c" "tail = [] \<or> hd tail \<in> {41, 59, 38}"
    and "4 * length (40 # show_cmd c @ 41 # tail) + 3 \<le> n"
  obtains c1 where "map_cmd word_str c1 = c" "parsepipe n (40 # show_cmd c @ 41 # tail) = Ok (c1, tail)"
proof -
  obtain m where n: "n = Suc m" using assms(4) by (cases n) auto
  have t: "at_token tail" using assms(3) by (auto simp: at_token_def)
  have "4 * length (40 # show_cmd c @ 41 # tail) + 2 \<le> m" using assms(4) n by simp
  from parse_exec_block [OF assms(1,2) t this] obtain c1 where
    c1: "map_cmd word_str c1 = c" "parseexec m (40 # show_cmd c @ 41 # tail) =
       obind (parseredirs [] tail) (\<lambda>(rs, s). Ok (wrap_redirs rs c1, s))" by blast
  have "parseredirs [] tail = Ok ([], tail)" using t assms(3) by (intro parseredirs_none) auto
  moreover have "peek [124] tail = (False, tail)" using assms(3) by (cases tail) auto
  ultimately show ?thesis using that [of c1] c1 n by (simp add: wrap_redirs_def)
qed

lemma parses_Exec: "printable (Exec ws) \<Longrightarrow> parses (Exec ws)"
  unfolding parses_def
proof (intro allI impI)
  fix n rest
  assume p: "printable (Exec ws)" and c: "closed rest" and "4 * length (show_cmd (Exec ws) @ rest) + 4 \<le> n"
  then have "n = Suc (Suc (Suc (n - 3)))" by simp
  then obtain m where n: "n = Suc (Suc (Suc m))" by blast
  define s where "s = show_cmd (Exec ws) @ rest"
  have s: "at_token s" unfolding s_def by (rule at_token_show [OF p closed_at_token [OF c]])
  have h: "s = [] \<or> hd s \<noteq> 40 \<and> hd s \<noteq> 60 \<and> hd s \<noteq> 62"
  proof (cases ws)
    case Nil
    then show ?thesis using c by (auto simp: s_def closed_def)
  next
    case (Cons x xs)
    then have "plain_word x" using p by simp
    then show ?thesis using Cons not_sym by (auto simp: s_def elim!: plain_wordE)
  qed
  obtain ts where ts: "exec_loop [] [] s = Ok (Exec ts, rest)" "map word_str ts = ws"
    using exec_loop_words [of "[]" ws rest] p c by (auto simp: s_def)
  have "peek [40] s = (False, s)" using s h by (cases s) (auto simp: at_token_def)
  moreover have "parseredirs [] s = Ok ([], s)" using s h by (intro parseredirs_none) auto
  ultimately have "parseline n s = Ok (Exec ts, rest)"
    using n ts c by (simp add: closed_peek)
  then show "\<exists>c1. parseline n (show_cmd (Exec ws) @ rest) = Ok (c1, rest) \<and> map_cmd word_str c1 = Exec ws"
    using ts(2) by (auto simp: s_def)
qed


lemma parses_Pipe:
  assumes "parses l" "printable l" "parses r" "printable r"
  shows "parses (Pipe l r)"
  unfolding parses_def
proof (intro allI impI)
  fix n rest
  assume c: "closed rest" and len: "4 * length (show_cmd (Pipe l r) @ rest) + 4 \<le> n"
  then have "n = Suc (Suc (n - 2))" by simp
  then obtain m where n: "n = Suc (Suc m)" by blast
  define tail where "tail = 40 # show_cmd r @ 41 # rest"
  have "at_token (124 # tail)" by (simp add: at_token_def)
  moreover have "4 * length (40 # show_cmd l @ 41 # 124 # tail) + 2 \<le> m" using len n by (simp add: tail_def)
  ultimately obtain l1 where l1: "map_cmd word_str l1 = l"
      "parseexec m (40 # show_cmd l @ 41 # 124 # tail) =
         obind (parseredirs [] (124 # tail)) (\<lambda>(rs, s). Ok (wrap_redirs rs l1, s))"
    using parse_exec_block [OF assms(1,2), of "124 # tail" m] by blast
  have "parseredirs [] (124 # tail) = Ok ([], 124 # tail)" by (rule parseredirs_none) (auto simp: at_token_def)
  then have l2: "parseexec m (40 # show_cmd l @ 41 # 124 # tail) = Ok (l1, 124 # tail)"
    using l1(2) by (simp add: wrap_redirs_def)
  have "rest = [] \<or> hd rest \<in> {41, 59, 38}" using c by (auto simp: closed_def)
  moreover have "4 * length (40 # show_cmd r @ 41 # rest) + 3 \<le> m" using len n by simp
  ultimately obtain r1 where r1: "map_cmd word_str r1 = r" "parsepipe m tail = Ok (r1, rest)"
    using parse_pipe_block [OF assms(3,4), of rest m] by (auto simp: tail_def)
  have "skip_ws tail = tail" by (simp add: tail_def)
  then have "parseline n (40 # show_cmd l @ 41 # 124 # tail) = Ok (Pipe l1 r1, rest)"
    using n l2 r1(2) c by (simp add: closed_peek)
  then show "\<exists>c1. parseline n (show_cmd (Pipe l r) @ rest) = Ok (c1, rest) \<and> map_cmd word_str c1 = Pipe l r"
    using l1(1) r1(1) by (auto simp: tail_def)
qed

lemma parses_Lst:
  assumes "parses l" "printable l" "parses r" "printable r"
  shows "parses (Lst l r)"
  unfolding parses_def
proof (intro allI impI)
  fix n rest
  assume c: "closed rest" and len: "4 * length (show_cmd (Lst l r) @ rest) + 4 \<le> n"
  then have "n = Suc (Suc (n - 2))" by simp
  then obtain m where n: "n = Suc (Suc m)" by blast
  define tail where "tail = 40 # show_cmd r @ 41 # rest"
  have "4 * length (40 # show_cmd l @ 41 # 59 # tail) + 3 \<le> Suc m" using len n by (simp add: tail_def)
  then obtain l1 where l1: "map_cmd word_str l1 = l" "parsepipe (Suc m) (40 # show_cmd l @ 41 # 59 # tail) = Ok (l1, 59 # tail)"
    using parse_pipe_block [OF assms(1,2), of "59 # tail" "Suc m"] by auto
  have "rest = [] \<or> hd rest \<in> {41, 59, 38}" using c by (auto simp: closed_def)
  moreover have "4 * length (40 # show_cmd r @ 41 # rest) + 3 \<le> m" using len n by simp
  ultimately obtain r1 where r1: "map_cmd word_str r1 = r" "parsepipe m tail = Ok (r1, rest)"
    using parse_pipe_block [OF assms(3,4), of rest m] by (auto simp: tail_def)
  have "back_loop l1 (59 # tail) = (l1, 59 # tail)" by (subst back_loop.simps) simp
  moreover have "skip_ws tail = tail" by (simp add: tail_def)
  moreover have "parseline (Suc m) tail = Ok (r1, rest)" using r1(2) c by (simp add: closed_peek)
  ultimately have "parseline n (40 # show_cmd l @ 41 # 59 # tail) = Ok (Lst l1 r1, rest)"
    using n l1(2) by simp
  then show "\<exists>c1. parseline n (show_cmd (Lst l r) @ rest) = Ok (c1, rest) \<and> map_cmd word_str c1 = Lst l r"
    using l1(1) r1(1) by (auto simp: tail_def)
qed

lemma parses_Back:
  assumes "parses c" "printable c"
  shows "parses (Back c)"
  unfolding parses_def
proof (intro allI impI)
  fix n rest
  assume c: "closed rest" and len: "4 * length (show_cmd (Back c) @ rest) + 4 \<le> n"
  then have "n = Suc (n - 1)" by simp
  then obtain m where n: "n = Suc m" by blast
  have "4 * length (40 # show_cmd c @ 41 # 38 # rest) + 3 \<le> m" using len n by simp
  then obtain c1 where c1: "map_cmd word_str c1 = c" "parsepipe m (40 # show_cmd c @ 41 # 38 # rest) = Ok (c1, 38 # rest)"
    using parse_pipe_block [OF assms, of "38 # rest" m] by auto
  have "back_loop c1 (38 # rest) = (Back c1, rest)"
    using c by (subst back_loop.simps) (simp add: skip_ws_at_token)
  then have "parseline n (40 # show_cmd c @ 41 # 38 # rest) = Ok (Back c1, rest)"
    using n c1(2) c by (simp add: closed_peek)
  then show "\<exists>c1. parseline n (show_cmd (Back c) @ rest) = Ok (c1, rest) \<and> map_cmd word_str c1 = Back c"
    using c1(1) by auto
qed

lemma parses_Redir:
  assumes "parses c" "printable (Redir c w mode fd)"
  shows "parses (Redir c w mode fd)"
  unfolding parses_def
proof (intro allI impI)
  fix n rest
  assume c: "closed rest" and len: "4 * length (show_cmd (Redir c w mode fd) @ rest) + 4 \<le> n"
  then have "n = Suc (Suc (n - 2))" by simp
  then obtain m where n: "n = Suc (Suc m)" by blast
  define tail where "tail = (if mode = 0 then [60] else if mode = 0x601 then [62] else [62, 62]) @ w @ 32 # rest"
  have "at_token tail" by (simp add: tail_def at_token_def)
  moreover have "4 * length (40 # show_cmd c @ 41 # tail) + 2 \<le> m" using len n by (auto simp: tail_def)
  ultimately obtain c1 where c1: "map_cmd word_str c1 = c" "parseexec m (40 # show_cmd c @ 41 # tail) =
      obind (parseredirs [] tail) (\<lambda>(rs, s). Ok (wrap_redirs rs c1, s))"
    using parse_exec_block [OF assms(1), of tail m] assms(2) by auto
  have "parseredirs [] tail = Ok ([((w @ 32 # rest, 32 # rest), mode, fd)], rest)"
    using parseredirs_one [of w rest mode fd] assms(2) c by (simp add: tail_def)
  then have "parseexec m (40 # show_cmd c @ 41 # tail) = Ok (Redir c1 (w @ 32 # rest, 32 # rest) mode fd, rest)"
    using c1(2) by (simp add: wrap_redirs_def)
  then have "parseline n (40 # show_cmd c @ 41 # tail) = Ok (Redir c1 (w @ 32 # rest, 32 # rest) mode fd, rest)"
    using n c by (simp add: closed_peek)
  moreover have "show_cmd (Redir c w mode fd) @ rest = 40 # show_cmd c @ 41 # tail" by (simp add: tail_def)
  ultimately show "\<exists>c2. parseline n (show_cmd (Redir c w mode fd) @ rest) = Ok (c2, rest) \<and>
      map_cmd word_str c2 = Redir c w mode fd"
    using c1(1) by auto
qed

lemma printable_parses: "printable c \<Longrightarrow> parses c"
proof (induction c)
  case (Exec ws)
  then show ?case by (rule parses_Exec)
qed (auto intro: parses_Pipe parses_Lst parses_Back parses_Redir)

lemma show_cmd_nonzero: "printable c \<Longrightarrow> 0 \<notin> set (show_cmd c)"
  by (induction c) (auto simp: plain_word_def)

text \<open>
  C17: parsing undoes printing: for every command that can be written, \<open>parsecmd\<close> on its text succeeds, and the
  command it returns, with each word read as a C string from the buffer that \<open>nulterminate\<close> has
  modified, is the command that was printed.
\<close>

theorem parsecmd_show:
  assumes "printable c"
  shows "\<exists>c1 buf. parsecmd (show_cmd c) = Ok (c1, buf) \<and> map_cmd (cstring_at (length (show_cmd c)) buf) c1 = c"
proof -
  define line where "line = show_cmd c"
  obtain c1 where c1: "parseline (4 * length line + 4) line = Ok (c1, [])" "map_cmd word_str c1 = c"
    using printable_parses [OF assms] unfolding parses_def
    by (metis append_Nil2 closed_def line_def order_refl)
  have "\<forall>w\<in>set_cmd c1. wf_word line w"
    using parse_wf [of "4 * length line + 4" line] c1(1) by blast
  then have "\<forall>w\<in>set_cmd c1. cstring_at (length line) (nulterminate (length line) c1 (line @ [0])) w = word_str w"
    using nulterminate_word [of c1 line] show_cmd_nonzero [OF assms] by (auto simp: line_def)
  then have "map_cmd (cstring_at (length line) (nulterminate (length line) c1 (line @ [0]))) c1 = c"
    using c1(2) by (auto cong: cmd.map_cong)
  moreover have "parsecmd line = Ok (c1, nulterminate (length line) c1 (line @ [0]))"
    using c1(1) by (simp add: parsecmd_def)
  ultimately show ?thesis by (auto simp: line_def)
qed

theorem parsecmd_show_witness:
  "\<exists>c1 buf. parsecmd (show_cmd (Pipe (Exec [[108, 115]]) (Redir (Exec [[119, 99]]) [120] 0x601 1))) = Ok (c1, buf) \<and>
     map_cmd (cstring_at (length (show_cmd (Pipe (Exec [[108, 115]]) (Redir (Exec [[119, 99]]) [120] 0x601 1)))) buf) c1 =
     Pipe (Exec [[108, 115]]) (Redir (Exec [[119, 99]]) [120] 0x601 1)"
  by (rule parsecmd_show)
     (simp add: plain_word_def is_ws_def is_sym_def whitespace_def symbols_def)

end
