(* ===== verification/Xv6_Sh_Run.thy ===== *)
theory Xv6_Sh_Run
  imports Xv6_Sh
begin

text \<open>
  \<open>runcmd\<close> of the shell, \<open>user/sh.c\<close>, as the tree of the system calls it makes: a constructor per call, with
  the continuation for each of its outcomes. \<open>execs\<close> gives the meaning of such a tree on the table
  of file descriptors: which programs are executed, and with which descriptors.
\<close>

section \<open>The system calls of a command\<close>

datatype prog =
    PExit int
  | PExec "byte list" "byte list list" prog
  | PClose nat prog
  | POpen "byte list" u32 "int \<Rightarrow> prog"
  | PFork (child: prog) (parent: prog) (failed: prog)
  | PWait prog
  | PPipe "nat \<Rightarrow> nat \<Rightarrow> prog" prog
  | PDup nat prog
  | PWrite nat "byte list" prog

text \<open>\<open>panic\<close> of the shell and \<open>fork1\<close>.\<close>

definition sh_panic :: "byte list \<Rightarrow> prog" where
  "sh_panic s = PWrite 2 (s @ [10]) (PExit 1)"

definition fork1 :: "prog \<Rightarrow> prog \<Rightarrow> prog" where
  "fork1 ch par = PFork ch par (sh_panic [102, 111, 114, 107])"

definition fail_msg :: "byte list \<Rightarrow> byte list \<Rightarrow> byte list" where
  "fail_msg what name = what @ [32] @ name @ [32, 102, 97, 105, 108, 101, 100, 10]"

primrec runcmd :: "byte list cmd \<Rightarrow> prog" where
  "runcmd (Exec argv) =
     (if argv = [] then PExit 1
      else PExec (hd argv) argv (PWrite 2 (fail_msg [101, 120, 101, 99] (hd argv)) (PExit 0)))"
| "runcmd (Redir c file mode fd) =
     PClose (nat fd) (POpen file mode (\<lambda>r.
       if r < 0 then PWrite 2 (fail_msg [111, 112, 101, 110] file) (PExit 1) else runcmd c))"
| "runcmd (Lst l r) = fork1 (runcmd l) (PWait (runcmd r))"
| "runcmd (Pipe l r) =
     PPipe (\<lambda>p0 p1.
       fork1 (PClose 1 (PDup p1 (PClose p0 (PClose p1 (runcmd l)))))
         (fork1 (PClose 0 (PDup p0 (PClose p0 (PClose p1 (runcmd r)))))
           (PClose p0 (PClose p1 (PWait (PWait (PExit 0)))))))
       (sh_panic [112, 105, 112, 101])"
| "runcmd (Back c) = fork1 (runcmd c) (PExit 0)"

section \<open>Descriptors\<close>

text \<open>What a descriptor refers to: an end of a pipe, a file the command has opened, or something it was
  started with.\<close>

datatype fobj = PipeR nat | PipeW nat | OFile "byte list" u32 | Other nat

type_synonym fdtable = "nat \<rightharpoonup> fobj"

text \<open>\<open>fdalloc\<close>: the lowest free descriptor of a process, which has 16.\<close>

definition lowest :: "fdtable \<Rightarrow> nat option" where
  "lowest t = find (\<lambda>fd. t fd = None) [0..<16]"

text \<open>
  \<open>execs p t n (argv, u)\<close>: a process running \<open>p\<close> with the descriptors \<open>t\<close>, or a child of it, may call
  \<open>exec\<close> on \<open>argv\<close> with the descriptors \<open>u\<close>; \<open>n\<close> is a pipe that is not in use yet. Each call may also fail where
  the kernel lets it fail; \<open>dup\<close> fails only without a free descriptor.
\<close>

inductive execs :: "prog \<Rightarrow> fdtable \<Rightarrow> nat \<Rightarrow> byte list list \<times> fdtable \<Rightarrow> bool" where
  exec: "execs (PExec path argv k) t n (argv, t)"
| exec_fails: "execs k t n r \<Longrightarrow> execs (PExec path argv k) t n r"
| close: "execs k (t(fd := None)) n r \<Longrightarrow> execs (PClose fd k) t n r"
| opens: "lowest t = Some fd \<Longrightarrow> execs (k (int fd)) (t(fd \<mapsto> OFile file mode)) n r \<Longrightarrow> execs (POpen file mode k) t n r"
| open_fails: "execs (k (- 1)) t n r \<Longrightarrow> execs (POpen file mode k) t n r"
| fork_child: "execs c t n r \<Longrightarrow> execs (PFork c p f) t n r"
| fork_parent: "execs p t n r \<Longrightarrow> execs (PFork c p f) t n r"
| fork_fails: "execs f t n r \<Longrightarrow> execs (PFork c p f) t n r"
| waits: "execs k t n r \<Longrightarrow> execs (PWait k) t n r"
| pipes: "lowest t = Some a \<Longrightarrow> lowest (t(a \<mapsto> PipeR n)) = Some b \<Longrightarrow>
    execs (k a b) (t(a \<mapsto> PipeR n, b \<mapsto> PipeW n)) (Suc n) r \<Longrightarrow> execs (PPipe k f) t n r"
| pipe_fails: "execs f t n r \<Longrightarrow> execs (PPipe k f) t n r"
| dups: "t fd = Some x \<Longrightarrow> lowest t = Some a \<Longrightarrow> execs k (t(a \<mapsto> x)) n r \<Longrightarrow> execs (PDup fd k) t n r"
| dup_fails: "t fd = None \<or> lowest t = None \<Longrightarrow> execs k t n r \<Longrightarrow> execs (PDup fd k) t n r"
| writes: "execs k t n r \<Longrightarrow> execs (PWrite fd bs k) t n r"

inductive_simps execs_simps [simp]:
  "execs (PExit x) t n r"
  "execs (PClose fd k) t n r"
  "execs (POpen file mode k) t n r"
  "execs (PFork c p f) t n r"
  "execs (PWait k) t n r"
  "execs (PPipe k f) t n r"
  "execs (PDup fd k) t n r"
  "execs (PWrite fd bs k) t n r"

lemma execs_sh_panic [simp]: "\<not> execs (sh_panic s) t n r"
  by (simp add: sh_panic_def)

lemma execs_fork1 [simp]: "execs (fork1 c p) t n r \<longleftrightarrow> execs c t n r \<or> execs p t n r"
  by (auto simp: fork1_def)

lemma lowest_Some: "lowest t = Some a \<longleftrightarrow> a < 16 \<and> t a = None \<and> (\<forall>b<a. t b \<noteq> None)"
  unfolding lowest_def by (auto simp: find_Some_iff)

lemma lowest_eqI: "a < 16 \<Longrightarrow> t a = None \<Longrightarrow> \<forall>b<a. t b \<noteq> None \<Longrightarrow> lowest t = Some a"
  by (simp add: lowest_Some)

lemma two_lowest:
  assumes "t 0 \<noteq> None" "t 1 \<noteq> None" "lowest t = Some a" "lowest (t(a \<mapsto> x)) = Some b"
  shows "a \<noteq> 0" "a \<noteq> 1" "b \<noteq> 0" "b \<noteq> 1" "a \<noteq> b" "t a = None" "t b = None"
proof -
  show ab: "a \<noteq> b" and a: "t a = None" and b: "t b = None"
    using assms(3,4) by (auto simp: lowest_Some split: if_splits)
  show "a \<noteq> 0" "a \<noteq> 1" "b \<noteq> 0" "b \<noteq> 1" using assms(1,2) a b by metis+
qed

lemma execs_pipe:
  "lowest t = Some a \<Longrightarrow> lowest (t(a \<mapsto> PipeR n)) = Some b \<Longrightarrow>
   execs (PPipe k f) t n r \<longleftrightarrow> execs (k a b) (t(a \<mapsto> PipeR n, b \<mapsto> PipeW n)) (Suc n) r \<or> execs f t n r"
  by auto

text \<open>The left side of a pipe gets the write end as its standard output, the right side the read end as its
  standard input, and every other descriptor is as it was.\<close>

lemma left_fds:
  assumes "t 0 \<noteq> None" "t 1 \<noteq> None" "lowest t = Some a" "lowest (t(a \<mapsto> PipeR n)) = Some b"
  shows "execs (PClose 1 (PDup b (PClose a (PClose b k)))) (t(a \<mapsto> PipeR n, b \<mapsto> PipeW n)) m r \<longleftrightarrow>
    execs k (t(1 \<mapsto> PipeW n)) m r"
proof -
  note d = two_lowest [OF assms]
  have "lowest ((t(a \<mapsto> PipeR n, b \<mapsto> PipeW n))(1 := None)) = Some 1"
    using assms(1) d by (intro lowest_eqI) auto
  moreover have "t(a \<mapsto> PipeR n, b \<mapsto> PipeW n, 1 := None, 1 \<mapsto> PipeW n, a := None, b := None) = t(1 \<mapsto> PipeW n)"
    using d by (auto simp: fun_eq_iff)
  ultimately show ?thesis using d by (auto simp: fun_upd_def [symmetric])
qed

lemma right_fds:
  assumes "t 0 \<noteq> None" "t 1 \<noteq> None" "lowest t = Some a" "lowest (t(a \<mapsto> PipeR n)) = Some b"
  shows "execs (PClose 0 (PDup a (PClose a (PClose b k)))) (t(a \<mapsto> PipeR n, b \<mapsto> PipeW n)) m r \<longleftrightarrow>
    execs k (t(0 \<mapsto> PipeR n)) m r"
proof -
  note d = two_lowest [OF assms]
  have "lowest ((t(a \<mapsto> PipeR n, b \<mapsto> PipeW n))(0 := None)) = Some 0"
    using d by (intro lowest_eqI) auto
  moreover have "t(a \<mapsto> PipeR n, b \<mapsto> PipeW n, 0 := None, 0 \<mapsto> PipeR n, a := None, b := None) = t(0 \<mapsto> PipeR n)"
    using d by (auto simp: fun_eq_iff)
  ultimately show ?thesis using d by (auto simp: fun_upd_def [symmetric])
qed

text \<open>
  C20: in a pipeline the left command runs with exactly its standard output replaced by the write end of a new
  pipe and the right command with exactly its standard input replaced by the read end; no program is
  started with a stray descriptor of the pipe, which would keep the reader from seeing its end.
\<close>

theorem runcmd_pipeline:
  assumes "t 0 \<noteq> None" and "t 1 \<noteq> None" and "lowest t = Some a" and "lowest (t(a \<mapsto> PipeR n)) = Some b"
  shows "execs (runcmd (Pipe l r)) t n res \<longleftrightarrow>
    execs (runcmd l) (t(1 \<mapsto> PipeW n)) (Suc n) res \<or> execs (runcmd r) (t(0 \<mapsto> PipeR n)) (Suc n) res"
  unfolding runcmd.simps execs_pipe [OF assms(3,4)] execs_fork1 left_fds [OF assms] right_fds [OF assms]
  by simp

theorem runcmd_pipeline_witness:
  "execs (runcmd (Pipe (Exec [[97]]) (Exec [[98]]))) (\<lambda>fd. if fd < 3 then Some (Other fd) else None) 7
     ([[98]], (\<lambda>fd. if fd < 3 then Some (Other fd) else None)(0 \<mapsto> PipeR 7))"
proof -
  let ?t = "\<lambda>fd. if fd < 3 then Some (Other fd) else None"
  have "lowest ?t = Some 3" by (rule lowest_eqI) auto
  moreover have "lowest (?t(3 \<mapsto> PipeR 7)) = Some 4" by (rule lowest_eqI) auto
  ultimately show ?thesis
    using runcmd_pipeline [of ?t 3 7 4 "Exec [[97]]" "Exec [[98]]" "([[98]], ?t(0 \<mapsto> PipeR 7))"]
    by (simp add: execs.exec)
qed

text \<open>
  C38: a redirection changes exactly the descriptor it names: if its command executes a program at all, it does
  so with that descriptor referring to the file, opened with the mode of the redirection.
\<close>

theorem runcmd_redir:
  assumes "execs (runcmd (Redir c file mode fd)) t n res" and "fd = 0 \<or> fd = 1 \<and> t 0 \<noteq> None"
  shows "execs (runcmd c) (t(nat fd \<mapsto> OFile file mode)) n res"
proof -
  have "lowest (t(nat fd := None)) = Some (nat fd)"
    using assms(2) by (intro lowest_eqI) auto
  then show ?thesis using assms(1) by auto
qed

theorem runcmd_redir_witness:
  "execs (runcmd (Exec [[97]])) ((\<lambda>fd. None)(0 \<mapsto> OFile [98] 0)) 0 ([[97]], (\<lambda>fd. None)(0 \<mapsto> OFile [98] 0))"
proof -
  have "lowest ((\<lambda>fd. None)(0 := None)) = Some 0" by (rule lowest_eqI) auto
  then have "execs (runcmd (Redir (Exec [[97]]) [98] 0 0)) (\<lambda>fd. None) 0 ([[97]], (\<lambda>fd. None)(0 \<mapsto> OFile [98] 0))"
    by (auto intro: execs.exec)
  from runcmd_redir [OF this] show ?thesis by simp
qed

end
