(* ===== verification/Xv6_Console.thy ===== *)
theory Xv6_Console
  imports Xv6_Pipe Xv6_Printf
begin

text \<open>
  The console: the driver \<open>kernel/uart.c\<close> and the line discipline \<open>kernel/console.c\<close>. The UART is the sequence of
  the writes to its registers; its receiver is the list of the bytes that wait to be read. The input
  buffer \<open>cons\<close> is a ring of 128 bytes with three 32-bit counters that run freely: \<open>r\<close> where \<open>read\<close> takes,
  \<open>w\<close> up to where lines are complete, \<open>e\<close> where the interrupt handler edits.

  As with pipes, a call runs under the lock until it returns or sleeps. An interrupt handler gives the
  bytes it sends to the screen and whether it wakes the readers.
\<close>

section \<open>The UART\<close>

record uart =
  uwrites :: "(nat \<times> byte) list"
  urx :: "byte list"
  tx_busy :: bool

definition WriteReg :: "nat \<Rightarrow> byte \<Rightarrow> uart \<Rightarrow> uart" where
  "WriteReg reg v u = u\<lparr>uwrites := uwrites u @ [(reg, v)]\<rparr>"

text \<open>Registers \<open>IER\<close> 1, \<open>FCR\<close> 2, \<open>LCR\<close> 3; register 0 is \<open>THR\<close> unless the baud latch is on.\<close>

definition uartinit :: "uart \<Rightarrow> uart" where
  "uartinit u =
     WriteReg 1 3 (WriteReg 2 7 (WriteReg 3 3 (WriteReg 1 0 (WriteReg 0 3 (WriteReg 3 128 (WriteReg 1 0 u))))))"

text \<open>One section of \<open>uartwrite\<close>: what remains to be sent when it sleeps or returns.\<close>

fun uartwrite :: "byte list \<Rightarrow> uart \<Rightarrow> byte list \<times> uart" where
  "uartwrite [] u = ([], u)"
| "uartwrite (b # bs) u =
     (if tx_busy u then (b # bs, u) else uartwrite bs ((WriteReg 0 b u)\<lparr>tx_busy := True\<rparr>))"

text \<open>The wait for an idle transmitter ends when the hardware is ready; after a panic other CPUs spin forever.\<close>

definition uartputc_sync :: "bool \<Rightarrow> byte \<Rightarrow> uart \<Rightarrow> uart outcome" where
  "uartputc_sync panicked c u = (if panicked then Diverge else Ok (WriteReg 0 c u))"

definition uartgetc :: "uart \<Rightarrow> byte option \<times> uart" where
  "uartgetc u = (case urx u of [] \<Rightarrow> (None, u) | b # bs \<Rightarrow> (Some b, u\<lparr>urx := bs\<rparr>))"

section \<open>The input buffer\<close>

record cons =
  cbuf :: "byte list"
  cr :: u32
  cw :: u32
  ce :: u32

abbreviation (input) INPUT_BUF_SIZE :: nat where "INPUT_BUF_SIZE \<equiv> 128"

text \<open>\<open>consputc(BACKSPACE)\<close>\<close>

definition backspace :: "byte list" where
  "backspace = consputc_bytes 0x100"

definition cslot :: "u32 \<Rightarrow> nat" where
  "cslot i = unat (i mod 128)"

function kill_loop :: "cons \<Rightarrow> cons \<times> byte list" where
  "kill_loop k =
     (if ce k \<noteq> cw k \<and> cbuf k ! cslot (ce k - 1) \<noteq> 10
      then apsnd ((@) backspace) (kill_loop (k\<lparr>ce := ce k - 1\<rparr>))
      else (k, []))"
  by pat_completeness auto
termination
proof (relation "measure (\<lambda>k. unat (ce k - cw k))", goal_cases)
  case (2 k)
  define x where "x = ce k - cw k"
  have "x \<noteq> 0" using 2 by (simp add: x_def)
  then have "unat (x - 1) < unat x" using unat_minus_one [of x] unat_eq_zero [of x] by linarith
  moreover have "ce (k\<lparr>ce := ce k - 1\<rparr>) - cw (k\<lparr>ce := ce k - 1\<rparr>) = x - 1" by (simp add: x_def)
  ultimately show ?case unfolding in_measure by (metis x_def)
qed simp

declare kill_loop.simps [simp del]

text \<open>The handler for one character: the new buffer, what is sent to the screen, and whether the readers are
  woken. \<open>dump\<close> is what \<open>procdump\<close> prints.\<close>

definition consoleintr :: "byte list \<Rightarrow> byte \<Rightarrow> cons \<Rightarrow> cons \<times> byte list \<times> bool" where
  "consoleintr dump c k =
     (if c = 16 then (k, dump, False)
      else if c = 21 then (case kill_loop k of (k1, out) \<Rightarrow> (k1, out, False))
      else if c = 8 \<or> c = 127
      then if ce k \<noteq> cw k then (k\<lparr>ce := ce k - 1\<rparr>, backspace, False) else (k, [], False)
      else if c \<noteq> 0 \<and> ce k - cr k < 128
      then let c1 = (if c = 13 then 10 else c);
               k1 = k\<lparr>cbuf := (cbuf k)[cslot (ce k) := c1], ce := ce k + 1\<rparr>
           in if c1 = 10 \<or> c1 = 4 \<or> ce k1 - cr k1 = 128
              then (k1\<lparr>cw := ce k1\<rparr>, [c1], True) else (k1, [c1], False)
      else (k, [], False))"

text \<open>One section of \<open>consoleread\<close>; \<open>PSleep\<close> carries how many bytes are still wanted.\<close>

function consoleread_loop ::
    "'u outcopy1 \<Rightarrow> bool \<Rightarrow> int \<Rightarrow> u64 \<Rightarrow> int \<Rightarrow> cons \<Rightarrow> 'u \<Rightarrow> (psec \<times> cons \<times> 'u) outcome" where
  "consoleread_loop cout killed target dst n k u =
     (if n > 0
      then if cr k = cw k then Ok (if killed then PRet (-1) else PSleep n, k, u)
           else let c = cbuf k ! cslot (cr k); k1 = k\<lparr>cr := cr k + 1\<rparr>
                in if c = 4 then Ok (PRet (target - n), if n < target then k1\<lparr>cr := cr k1 - 1\<rparr> else k1, u)
                   else obind (cout dst c u) (\<lambda>(r, u1).
                     if r = -1 then Ok (PRet (target - n), k1, u1)
                     else if c = 10 then Ok (PRet (target - (n - 1)), k1, u1)
                     else consoleread_loop cout killed target (dst + 1) (n - 1) k1 u1)
      else Ok (PRet (target - n), k, u))"
  by pat_completeness auto
termination
  by (relation "measure (\<lambda>(cout, killed, target, dst, n, k, u). nat n)") auto

declare consoleread_loop.simps [simp del]

definition consoleread ::
    "'u outcopy1 \<Rightarrow> bool \<Rightarrow> u64 \<Rightarrow> int \<Rightarrow> cons \<Rightarrow> 'u \<Rightarrow> (psec \<times> cons \<times> 'u) outcome" where
  "consoleread cout killed dst n k u = consoleread_loop cout killed n dst n k u"

text \<open>\<open>consolewrite\<close> copies portions of 32 bytes and hands them to \<open>uartwrite\<close>: the portions in order, up to the
  first that cannot be copied, and the result.\<close>

function consolewrite ::
    "(u64 \<Rightarrow> nat \<Rightarrow> byte list option) \<Rightarrow> u64 \<Rightarrow> int \<Rightarrow> int \<Rightarrow> byte list \<times> int" where
  "consolewrite cin src n i =
     (if i < n
      then let nn = min 32 (n - i)
           in case cin (src + of_int i) (nat nn) of None \<Rightarrow> ([], i)
              | Some bs \<Rightarrow> apfst ((@) bs) (consolewrite cin src n (i + nn))
      else ([], i))"
  by pat_completeness auto
termination
  by (relation "measure (\<lambda>(cin, src, n, i). nat (n - i))") auto

declare consolewrite.simps [simp del]

text \<open>\<open>uartintr\<close>: the characters that wait go through the line discipline one after the other. The result is
  what is echoed and whether \<open>tx_chan\<close> and the console readers are woken.\<close>

fun drain :: "byte list \<Rightarrow> byte list \<Rightarrow> cons \<Rightarrow> cons \<times> byte list \<times> bool" where
  "drain dump [] k = (k, [], False)"
| "drain dump (c # cs) k =
     (case consoleintr dump c k of (k1, out, wk) \<Rightarrow>
      case drain dump cs k1 of (k2, out2, wk2) \<Rightarrow> (k2, out @ out2, wk \<or> wk2))"

definition uartintr :: "byte list \<Rightarrow> bool \<Rightarrow> uart \<times> cons \<Rightarrow> (uart \<times> cons) \<times> byte list \<times> bool \<times> bool" where
  "uartintr dump tx_idle s =
     (case s of (u, k) \<Rightarrow>
      let u1 = (if tx_idle then u\<lparr>tx_busy := False\<rparr> else u)
      in case drain dump (urx u1) k of (k1, out, wk) \<Rightarrow>
         ((u1\<lparr>urx := [], uwrites := uwrites u1 @ map (Pair 0) out\<rparr>, k1), out, tx_idle, wk))"

end
