(* ===== verification/Xv6_Console_Spec.thy ===== *)
theory Xv6_Console_Spec
  imports Xv6_Console
begin

text \<open>
  The console buffer refines a pair of lists, the complete input and the line that is being edited; \<open>read\<close> returns
  the line the user sees; \<open>uartwrite\<close> sends every byte once, in order.
\<close>

section \<open>The ring as two lists\<close>

definition clen :: "cons \<Rightarrow> nat" where
  "clen k = unat (cw k - cr k)"

definition elen :: "cons \<Rightarrow> nat" where
  "elen k = unat (ce k - cr k)"

definition cat :: "cons \<Rightarrow> nat \<Rightarrow> byte" where
  "cat k i = cbuf k ! cslot (cr k + of_nat i)"

text \<open>The input that \<open>read\<close> may take, and the line that is still being edited.\<close>

definition ready :: "cons \<Rightarrow> byte list" where
  "ready k = map (cat k) [0..<clen k]"

definition editing :: "cons \<Rightarrow> byte list" where
  "editing k = map (cat k) [clen k..<elen k]"

definition cons_inv :: "cons \<Rightarrow> bool" where
  "cons_inv k \<longleftrightarrow> length (cbuf k) = INPUT_BUF_SIZE \<and> clen k \<le> elen k \<and> elen k \<le> INPUT_BUF_SIZE \<and> 10 \<notin> set (editing k)"

lemma cslot_add: "i \<le> 128 \<Longrightarrow> cslot (x + of_nat i) = (unat x + i) mod 128"
proof -
  assume "i \<le> 128"
  then have "unat (x + of_nat i) = (unat x + i) mod 2 ^ 32" by (simp add: unat_word_ariths unat_of_nat)
  moreover have "(unat x + i) mod 2 ^ 32 mod 128 = (unat x + i) mod 128" by (rule mod_mod_cancel) simp
  ultimately show ?thesis by (simp add: cslot_def unat_mod)
qed

lemma cslot_less [simp]: "cslot x < 128"
  by (simp add: cslot_def unat_mod)

lemma cslot_inj: "cslot (x + of_nat i) = cslot (x + of_nat j) \<Longrightarrow> i < 128 \<Longrightarrow> j < 128 \<Longrightarrow> i = j"
  by (rule mod_offset_inj [of "unat x" i 128 j]) (simp_all add: cslot_add)

lemma ce_eq: "ce k = cr k + of_nat (elen k)"
  by (simp add: elen_def)

lemma cw_eq: "cw k = cr k + of_nat (clen k)"
  by (simp add: clen_def)

lemma of_nat_u32_inj:
  assumes "i \<le> 128" "j \<le> 128"
  shows "(of_nat i :: u32) = of_nat j \<longleftrightarrow> i = j"
proof -
  have "unat (of_nat i :: u32) = i" "unat (of_nat j :: u32) = j"
    using assms by (intro unat_of_nat_small, simp)+
  then show ?thesis by metis
qed

lemma ce_cw: "cons_inv k \<Longrightarrow> ce k = cw k \<longleftrightarrow> elen k = clen k"
  unfolding ce_eq cw_eq cons_inv_def using of_nat_u32_inj [of "elen k" "clen k"] by fastforce

lemma length_lists [simp]: "length (ready k) = clen k" "length (editing k) = elen k - clen k"
  by (simp_all add: ready_def editing_def)

text \<open>Moving the edit counter, and storing a character at it.\<close>

lemma set_ce:
  assumes "n \<le> 128"
  shows "elen (k\<lparr>ce := cr k + of_nat n\<rparr>) = n" "clen (k\<lparr>ce := x\<rparr>) = clen k" "cat (k\<lparr>ce := x\<rparr>) = cat k"
  using assms by (simp_all add: elen_def clen_def cat_def fun_eq_iff unat_of_nat_small)

lemma store_cat:
  assumes "length (cbuf k) = 128" "n < 128" and that: "i < 128"
  shows "cat (k\<lparr>cbuf := (cbuf k)[cslot (cr k + of_nat n) := c], ce := x\<rparr>) i = (if i = n then c else cat k i)"
proof (cases "i = n")
  case True
  then show ?thesis using assms by (simp add: cat_def)
next
  case False
  then have "cslot (cr k + of_nat n) \<noteq> cslot (cr k + of_nat i)" using cslot_inj assms that by metis
  then show ?thesis using False by (simp add: cat_def)
qed

section \<open>The line discipline\<close>

text \<open>The handler on lists: kill the line, erase a character, or append one and deliver the line at its end.\<close>

definition line_intr :: "byte list \<Rightarrow> byte \<Rightarrow> byte list \<times> byte list \<Rightarrow> (byte list \<times> byte list) \<times> byte list \<times> bool" where
  "line_intr dump c s =
     (case s of (rdy, ed) \<Rightarrow>
      if c = 16 then ((rdy, ed), dump, False)
      else if c = 21 then ((rdy, []), concat (replicate (length ed) backspace), False)
      else if c = 8 \<or> c = 127 then ((rdy, butlast ed), if ed = [] then [] else backspace, False)
      else if c \<noteq> 0 \<and> length rdy + length ed < INPUT_BUF_SIZE
      then let c1 = (if c = 13 then 10 else c); ed1 = ed @ [c1]
           in if c1 = 10 \<or> c1 = 4 \<or> length rdy + length ed1 = INPUT_BUF_SIZE
              then ((rdy @ ed1, []), [c1], True) else ((rdy, ed1), [c1], False)
      else ((rdy, ed), [], False))"

lemma editing_snoc:
  assumes "cons_inv k" "clen k < elen k"
  shows "editing k = map (cat k) [clen k..<elen k - 1] @ [cat k (elen k - 1)]"
proof -
  obtain m where "elen k = Suc m" "clen k \<le> m" using assms(2) by (cases "elen k") auto
  then show ?thesis by (simp add: editing_def)
qed

lemma erase_one:
  assumes "cons_inv k" "clen k < elen k"
  defines "k1 \<equiv> k\<lparr>ce := ce k - 1\<rparr>"
  shows "cons_inv k1" "ready k1 = ready k" "editing k1 = butlast (editing k)" "elen k1 = elen k - 1" "clen k1 = clen k"
proof -
  have "ce k - 1 = cr k + of_nat (elen k - 1)" using assms(2) by (simp add: ce_eq of_nat_diff)
  then have k1: "k1 = k\<lparr>ce := cr k + of_nat (elen k - 1)\<rparr>" by (simp add: k1_def)
  have le: "elen k - 1 \<le> 128" using assms(1) unfolding cons_inv_def by linarith
  note s = set_ce [OF le, where k = k]
  show e: "elen k1 = elen k - 1" "clen k1 = clen k" unfolding k1 by (rule s)+
  show "ready k1 = ready k" unfolding ready_def k1 s ..
  have "cat k1 = cat k" unfolding k1 by (rule s)
  then show ed: "editing k1 = butlast (editing k)"
    using editing_snoc [OF assms(1,2)] by (simp add: editing_def [of k1] e)
  have "set (butlast (editing k)) \<subseteq> set (editing k)" by (auto dest: in_set_butlastD)
  then show "cons_inv k1"
    using assms(1,2) e by (auto simp: cons_inv_def ed) (simp add: k1)
qed

lemma kill_loop_spec:
  "cons_inv k \<Longrightarrow> kill_loop k = (k1, out) \<Longrightarrow>
   cons_inv k1 \<and> ready k1 = ready k \<and> editing k1 = [] \<and> out = concat (replicate (length (editing k)) backspace)"
proof (induction k arbitrary: k1 out rule: kill_loop.induct)
  case (1 k)
  show ?case
  proof (cases "clen k < elen k")
    case True
    then have ne: "ce k \<noteq> cw k" using ce_cw [OF 1(2)] by simp
    have "cat k (elen k - 1) \<in> set (editing k)" using editing_snoc [OF 1(2) True] by simp
    then have "cat k (elen k - 1) \<noteq> 10" using 1(2) by (auto simp: cons_inv_def)
    moreover have "ce k - 1 = cr k + of_nat (elen k - 1)" using True by (simp add: ce_eq of_nat_diff)
    ultimately have c: "cbuf k ! cslot (ce k - 1) \<noteq> 10" by (simp add: cat_def)
    obtain k2 out2 where l: "kill_loop (k\<lparr>ce := ce k - 1\<rparr>) = (k2, out2)" by force
    have r: "k1 = k2" "out = backspace @ out2"
      using 1(3) ne c l by (subst (asm) kill_loop.simps; simp)+
    note e = erase_one [OF 1(2) True]
    have "length (editing k) = Suc (length (editing (k\<lparr>ce := ce k - 1\<rparr>)))" using e(4,5) True by simp
    then show ?thesis using 1(1) [OF conjI [OF ne c] e(1) l] e(2) r by simp
  next
    case False
    then have "elen k = clen k" using 1(2) by (simp add: cons_inv_def)
    then show ?thesis using 1(2,3) ce_cw [OF 1(2)] by (subst (asm) kill_loop.simps) (simp add: editing_def)
  qed
qed

lemma push_char:
  fixes c :: byte
  assumes "cons_inv k" "elen k < 128"
  defines "k1 \<equiv> k\<lparr>cbuf := (cbuf k)[cslot (ce k) := c], ce := ce k + 1\<rparr>"
  shows "length (cbuf k1) = 128" "elen k1 = Suc (elen k)" "clen k1 = clen k" "ready k1 = ready k"
    "editing k1 = editing k @ [c]" "ready (k1\<lparr>cw := ce k1\<rparr>) = ready k @ editing k @ [c]"
    "clen (k1\<lparr>cw := ce k1\<rparr>) = Suc (elen k)" "elen (k1\<lparr>cw := ce k1\<rparr>) = Suc (elen k)"
proof -
  have inv: "length (cbuf k) = 128" "clen k \<le> elen k" using assms(1) by (simp_all add: cons_inv_def)
  have c: "cat k1 i = (if i = elen k then c else cat k i)" if "i < 128" for i
    using store_cat [OF inv(1) assms(2) that, where c = c and x = "ce k + 1"] by (simp add: k1_def ce_eq)
  have "ce k + 1 - cr k = of_nat (Suc (elen k))" by (simp add: ce_eq)
  then show e: "elen k1 = Suc (elen k)"
    using assms(2) unfolding elen_def [of k1] by (simp add: k1_def unat_of_nat_small del: of_nat_Suc)
  show w: "clen k1 = clen k" by (simp add: clen_def k1_def)
  show "length (cbuf k1) = 128" using inv by (simp add: k1_def)
  have low: "map (cat k1) [i..<elen k] = map (cat k) [i..<elen k]" for i
    using c assms(2) by (auto intro!: map_cong)
  show "ready k1 = ready k"
    unfolding ready_def w using c inv assms(2) by (auto intro!: map_cong)
  show "editing k1 = editing k @ [c]"
    using low [of "clen k"] inv(2) c [OF assms(2)] by (simp add: editing_def e w)
  let ?k2 = "k1\<lparr>cw := ce k1\<rparr>"
  have cat2: "cat ?k2 = cat k1" by (simp add: cat_def fun_eq_iff)
  show "clen ?k2 = Suc (elen k)" using e by (simp add: clen_def elen_def)
  moreover show "elen ?k2 = Suc (elen k)" using e by (simp add: elen_def)
  moreover have "map (cat k) [0..<elen k] = ready k @ editing k"
    using inv(2) upt_add_eq_append [of 0 "clen k" "elen k - clen k"] by (simp add: ready_def editing_def)
  ultimately show "ready ?k2 = ready k @ editing k @ [c]"
    using low [of 0] c [OF assms(2)] by (simp add: ready_def [of ?k2] cat2)
qed


lemma consoleintr_line:
  assumes "cons_inv k" and "consoleintr dump c k = (k1, out, wk)"
  shows "cons_inv k1 \<and> line_intr dump c (ready k, editing k) = ((ready k1, editing k1), out, wk)"
proof -
  have inv: "length (cbuf k) = 128" "clen k \<le> elen k" "elen k \<le> 128" "10 \<notin> set (editing k)"
    using assms(1) by (simp_all add: cons_inv_def)
  have full: "ce k - cr k < 128 \<longleftrightarrow> elen k < 128" by (simp add: elen_def word_less_nat_alt)
  have len: "length (ready k) + length (editing k) = elen k" using inv by simp
  consider (dump) "c = 16" | (kill) "c = 21" | (erase) "c = 8 \<or> c = 127" | (push) "c \<notin> {0, 8, 16, 21, 127}" "elen k < 128"
    | (ignore) "c \<notin> {8, 16, 21, 127}" "c = 0 \<or> \<not> elen k < 128" by fastforce
  then show ?thesis
  proof cases
    case kill
    obtain k2 out2 where l: "kill_loop k = (k2, out2)" by force
    then show ?thesis
      using kill_loop_spec [OF assms(1) l] assms(2) kill by (auto simp: consoleintr_def line_intr_def)
  next
    case erase
    show ?thesis
    proof (cases "clen k < elen k")
      case True
      then have "editing k \<noteq> []" "ce k \<noteq> cw k" using ce_cw [OF assms(1)] by (auto simp: editing_def)
      then show ?thesis
        using erase_one [OF assms(1) True] assms(2) erase by (auto simp: consoleintr_def line_intr_def)
    next
      case False
      then have "editing k = []" "ce k = cw k" using ce_cw [OF assms(1)] inv by (auto simp: editing_def)
      then show ?thesis using assms erase by (auto simp: consoleintr_def line_intr_def)
    qed
  next
    case push
    define c1 where "c1 = (if c = 13 then 10 else c)"
    define k2 where "k2 = k\<lparr>cbuf := (cbuf k)[cslot (ce k) := c1], ce := ce k + 1\<rparr>"
    note p = push_char [OF assms(1) push(2), of c1, folded k2_def]
    have full1: "ce k2 - cr k2 = 128 \<longleftrightarrow> Suc (elen k) = 128"
      using p(2) by (simp add: elen_def word_unat_eq_iff)
    show ?thesis
    proof (cases "c1 = 10 \<or> c1 = 4 \<or> Suc (elen k) = 128")
      case True
      then have r: "k1 = k2\<lparr>cw := ce k2\<rparr>" "out = [c1]" "wk"
        using assms(2) push full full1 by (auto simp: consoleintr_def Let_def k2_def c1_def split: if_splits)
      have "editing k1 = []" using p(7,8) r by (simp add: editing_def)
      moreover have "cons_inv k1" using p(1,7,8) r push calculation by (simp add: cons_inv_def)
      moreover have "line_intr dump c (ready k, editing k) = ((ready k @ editing k @ [c1], []), [c1], True)"
        using push True len inv by (auto simp: line_intr_def Let_def c1_def)
      ultimately show ?thesis using p(6) r by simp
    next
      case False
      then have r: "k1 = k2" "out = [c1]" "\<not> wk"
        using assms(2) push full full1 by (auto simp: consoleintr_def Let_def k2_def c1_def split: if_splits)
      have "cons_inv k1" using p(1-3,5) r push inv False by (simp add: cons_inv_def)
      moreover have "line_intr dump c (ready k, editing k) = ((ready k, editing k @ [c1]), [c1], False)"
        using push False len inv by (auto simp: line_intr_def Let_def c1_def)
      ultimately show ?thesis using p(4,5) r by simp
    qed
  next
    case ignore
    then show ?thesis using assms full len inv by (auto simp: consoleintr_def line_intr_def)
  qed (use assms in \<open>auto simp: consoleintr_def line_intr_def\<close>)
qed


text \<open>
  C19: the console's interrupt handler implements the line discipline on lists: whatever character arrives, the
  ring with its wrapping counters afterwards holds the complete input and the edited line that the
  specification gives, with the same echo and the same wakeup, and the buffer never overflows.
\<close>

theorem consoleintr_refines:
  assumes "cons_inv k" and "consoleintr dump c k = (k1, out, wk)"
  shows "cons_inv k1 \<and> line_intr dump c (ready k, editing k) = ((ready k1, editing k1), out, wk)"
  using assms by (rule consoleintr_line)

definition cons0 :: cons where
  "cons0 = \<lparr>cbuf = replicate 128 0, cr = 0, cw = 0, ce = 0\<rparr>"

lemma cons0_inv: "cons_inv cons0" "ready cons0 = []" "editing cons0 = []"
  by (simp_all add: cons_inv_def cons0_def ready_def editing_def clen_def elen_def)

theorem consoleintr_refines_witness:
  "line_intr [] 97 (ready cons0, editing cons0) =
     ((ready (fst (consoleintr [] 97 cons0)), editing (fst (consoleintr [] 97 cons0))), [97], False)"
proof -
  obtain k1 out wk where c: "consoleintr [] 97 cons0 = (k1, out, wk)" by (cases "consoleintr [] 97 cons0") auto
  then have "out = [97] \<and> \<not> wk" by (simp add: consoleintr_def cons0_def Let_def split: if_splits)
  then show ?thesis using consoleintr_refines [OF cons0_inv(1) c] c by simp
qed

section \<open>Reading lines\<close>

text \<open>A destination that takes every byte.\<close>

definition collect :: "byte list outcopy1" where
  "collect dst b u = Ok (0, u @ [b])"

lemma take_one:
  assumes "cons_inv k" "ready k = b # bs"
  defines "k1 \<equiv> k\<lparr>cr := cr k + 1\<rparr>"
  shows "cr k \<noteq> cw k" "cbuf k ! cslot (cr k) = b" "cons_inv k1" "ready k1 = bs" "editing k1 = editing k"
proof -
  have inv: "length (cbuf k) = 128" "clen k \<le> elen k" "elen k \<le> 128" "10 \<notin> set (editing k)"
    using assms(1) by (simp_all add: cons_inv_def)
  have pos: "clen k = Suc (length bs)" using assms(2) length_lists(1) [of k] by simp
  show "cr k \<noteq> cw k" using pos by (auto simp: clen_def)
  show "cbuf k ! cslot (cr k) = b"
    using assms(2) pos by (simp add: ready_def cat_def upt_conv_Cons del: upt_Suc)
  have w: "clen k1 = clen k - 1" "elen k1 = elen k - 1"
  proof -
    have *: "unat (x - 1) = unat x - 1" if "0 < unat x" for x :: u32
      using that by (simp add: unat_minus_one unat_gt_0)
    have "cw k1 - cr k1 = (cw k - cr k) - 1" "ce k1 - cr k1 = (ce k - cr k) - 1" by (simp_all add: k1_def)
    then show "clen k1 = clen k - 1" "elen k1 = elen k - 1"
      using * [of "cw k - cr k"] * [of "ce k - cr k"] pos inv(2) unfolding clen_def elen_def by simp_all
  qed
  have c: "cat k1 = (\<lambda>i. cat k (Suc i))" by (simp add: fun_eq_iff cat_def k1_def add.assoc)
  show r: "ready k1 = bs"
  proof -
    have "ready k = map (cat k) (0 # map Suc [0..<length bs])"
      by (simp add: ready_def pos upt_conv_Cons map_Suc_upt del: upt_Suc)
    then show ?thesis using assms(2) w pos by (simp add: ready_def c comp_def)
  qed
  show e: "editing k1 = editing k"
  proof -
    have "[clen k..<elen k] = map Suc [clen k - 1..<elen k - 1]" using pos inv(2) by (simp add: map_Suc_upt)
    then show ?thesis by (simp add: editing_def w c comp_def)
  qed
  show "cons_inv k1" using inv pos w by (simp add: cons_inv_def e) (simp add: k1_def; linarith)
qed

lemma consoleread_loop_line:
  assumes "cons_inv k" "ready k = l @ 10 # bs" "\<forall>b\<in>set l. b \<noteq> 10 \<and> b \<noteq> 4" "int (length l) < n"
  shows "\<exists>k1. consoleread_loop collect killed target dst n k u = Ok (PRet (target - n + int (length l) + 1), k1, u @ l @ [10]) \<and>
    cons_inv k1 \<and> ready k1 = bs \<and> editing k1 = editing k"
  using assms
proof (induction l arbitrary: k n dst u)
  case Nil
  note t = take_one [OF Nil(1), of 10 bs]
  show ?case
    using t Nil by (subst consoleread_loop.simps) (auto simp: Let_def collect_def)
next
  case (Cons b l)
  have r: "ready k = b # l @ 10 # bs" using Cons.prems(2) by simp
  note t = take_one [OF Cons.prems(1) r]
  obtain k1 where k1: "consoleread_loop collect killed target (dst + 1) (n - 1) (k\<lparr>cr := cr k + 1\<rparr>) (u @ [b]) =
      Ok (PRet (target - (n - 1) + int (length l) + 1), k1, (u @ [b]) @ l @ [10])"
      "cons_inv k1" "ready k1 = bs" "editing k1 = editing (k\<lparr>cr := cr k + 1\<rparr>)"
    using Cons.IH [OF t(3,4), of "n - 1" "dst + 1" "u @ [b]"] Cons.prems by auto
  have "consoleread_loop collect killed target dst n k u =
      consoleread_loop collect killed target (dst + 1) (n - 1) (k\<lparr>cr := cr k + 1\<rparr>) (u @ [b])"
    using t(1,2) Cons.prems(3,4) by (subst consoleread_loop.simps) (simp add: Let_def collect_def)
  then show ?case using k1 t(5) by (auto simp: algebra_simps)
qed

text \<open>What the user has on the line after typing: the characters, less those that were erased or killed.\<close>

fun typed :: "byte list \<Rightarrow> byte list \<Rightarrow> byte list" where
  "typed ed [] = ed"
| "typed ed (c # cs) =
     typed (if c = 21 then [] else if c = 8 \<or> c = 127 then butlast ed else if c = 0 \<or> c = 16 then ed else ed @ [c]) cs"

lemma line_intr_typed:
  assumes "line_intr dump c ([], ed) = ((r, ed1), out, wk)" "length ed < 126" "c \<noteq> 10" "c \<noteq> 13" "c \<noteq> 4"
  shows "r = []" "ed1 = typed ed [c]"
  using assms by (cases "c = 0"; fastforce simp: line_intr_def Let_def split: if_splits)+

lemma typed_length: "length (typed ed cs) \<le> length ed + length cs"
  by (induction ed cs rule: typed.induct) (auto split: if_splits)

lemma typed_step:
  "length (typed ed [c]) \<le> Suc (length ed)"
  "c \<noteq> 10 \<Longrightarrow> c \<noteq> 4 \<Longrightarrow> \<forall>b\<in>set ed. b \<noteq> 10 \<and> b \<noteq> 4 \<Longrightarrow> \<forall>b\<in>set (typed ed [c]). b \<noteq> 10 \<and> b \<noteq> 4"
  by (auto dest: in_set_butlastD)

lemma drain_typed:
  "cons_inv k \<Longrightarrow> ready k = [] \<Longrightarrow> length (editing k) + length cs < 127 \<Longrightarrow> \<forall>c\<in>set cs. c \<noteq> 10 \<and> c \<noteq> 13 \<and> c \<noteq> 4 \<Longrightarrow>
   \<forall>b\<in>set (editing k). b \<noteq> 10 \<and> b \<noteq> 4 \<Longrightarrow> drain dump cs k = (k1, out, wk) \<Longrightarrow>
   cons_inv k1 \<and> ready k1 = [] \<and> editing k1 = typed (editing k) cs \<and>
   (\<forall>b\<in>set (editing k1). b \<noteq> 10 \<and> b \<noteq> 4)"
proof (induction cs arbitrary: k k1 out wk)
  case (Cons c cs)
  obtain k2 o2 w2 where i: "consoleintr dump c k = (k2, o2, w2)" by (cases "consoleintr dump c k") auto
  obtain k3 o3 w3 where d: "drain dump cs k2 = (k3, o3, w3)" by (cases "drain dump cs k2") auto
  have s: "cons_inv k2" "line_intr dump c ([], editing k) = ((ready k2, editing k2), o2, w2)"
    using consoleintr_line [OF Cons.prems(1) i] Cons.prems(2) by auto
  have l: "length (editing k) < 126" "c \<noteq> 10" "c \<noteq> 13" "c \<noteq> 4" using Cons.prems(3,4) by (auto simp del: length_lists)
  note e = line_intr_typed [OF s(2) l]
  have n: "length (editing k2) + length cs < 127" using e(2) typed_step(1) [of "editing k" c] Cons.prems(3) by (simp del: length_lists)
  have g: "\<forall>b\<in>set (editing k2). b \<noteq> 10 \<and> b \<noteq> 4" using e(2) typed_step(2) [OF l(2,4) Cons.prems(5)] by simp
  have "typed (editing k) (c # cs) = typed (editing k2) cs" "k3 = k1" using e(2) i d Cons.prems(6) by simp_all
  then show ?case
    using Cons.IH [OF s(1) e(1) n _ g d] Cons.prems(4) by simp
qed auto

lemma drain_append:
  "drain dump (xs @ ys) k = (case drain dump xs k of (k1, o1, w1) \<Rightarrow> case drain dump ys k1 of (k2, o2, w2) \<Rightarrow> (k2, o1 @ o2, w1 \<or> w2))"
  by (induction xs arbitrary: k) (auto split: prod.splits)



section \<open>Sending\<close>

text \<open>A writer that is woken by each transmit interrupt.\<close>

primrec uart_rounds :: "nat \<Rightarrow> byte list \<Rightarrow> uart \<times> cons \<Rightarrow> byte list \<times> uart \<times> cons" where
  "uart_rounds 0 bs s = (bs, s)"
| "uart_rounds (Suc m) bs s =
     (case uartwrite bs (fst s) of (bs1, u1) \<Rightarrow> uart_rounds m bs1 (fst (uartintr [] True (u1, snd s))))"

text \<open>
  C39: \<open>uartwrite\<close> sends one byte per transmit interrupt and loses none: when the writer has been woken by j interrupts
  exactly the first j of its bytes have gone to the transmit register, each once and in order, and the rest is still to be
  sent; so n interrupts complete a write of n bytes.
\<close>

theorem uartwrite_completes:
  assumes "\<not> tx_busy u" and "urx u = []" and "j \<le> length bs"
  shows "uart_rounds j bs (u, k) = (drop j bs, u\<lparr>uwrites := uwrites u @ map (Pair 0) (take j bs)\<rparr>, k)"
  using assms
proof (induction bs arbitrary: u j)
  case (Cons b bs)
  show ?case
  proof (cases j)
    case (Suc i)
    define u1 where "u1 = u\<lparr>uwrites := uwrites u @ [(0, b)], tx_busy := False\<rparr>"
    have "uartwrite bs ((WriteReg 0 b u)\<lparr>tx_busy := True\<rparr>) = (bs, (WriteReg 0 b u)\<lparr>tx_busy := True\<rparr>)" by (cases bs) simp_all
    then have "uart_rounds j (b # bs) (u, k) = uart_rounds i bs (u1, k)"
      using Cons.prems by (simp add: Suc uartintr_def WriteReg_def u1_def) (metis (no_types) uart.surjective uart.update_convs)
    then show ?thesis using Cons.IH [of u1 i] Cons.prems by (simp add: u1_def Suc)
  qed simp
qed simp

theorem uartwrite_completes_witness:
  "uart_rounds 1 [104, 105] (\<lparr>uwrites = [], urx = [], tx_busy = False\<rparr>, cons0) =
     ([105], \<lparr>uwrites = [(0, 104)], urx = [], tx_busy = False\<rparr>, cons0)"
  using uartwrite_completes [of "\<lparr>uwrites = [], urx = [], tx_busy = False\<rparr>" 1 "[104, 105]" cons0] by simp

end
