(* ===== verification/Xv6_Sched.thy ===== *)
theory Xv6_Sched
  imports Xv6_Lock Xv6_Kernel
begin

text \<open>
  Scheduling, \<open>scheduler\<close>, \<open>sched\<close>, \<open>yield\<close>, \<open>sleep\<close> and \<open>wakeup\<close> of \<open>kernel/proc.c\<close>, as steps of any number of CPUs
  that run \<open>n\<close> processes. A CPU is in its scheduler or runs a process (\<open>Away\<close>); each process keeps its place in the
  code it executes, and continues there when a CPU switches back to it. The locks are those of \<open>Xv6_Lock\<close>
  with the interrupt state of the CPUs: every process has its lock, and \<open>condlk\<close> protects a condition \<open>cond\<close>
  that processes wait for with \<open>sleep\<close> in a loop and that is announced with \<open>wakeup\<close> on the channel \<open>ch\<close>.
  A section under a lock that does not switch is one step.

  Interrupts happen at any point at which the CPU has them enabled, also in the scheduler: a handler that announces
  the condition, or the timer, which makes the process \<open>yield\<close>.
\<close>

section \<open>State\<close>

text \<open>Where a CPU is in \<open>scheduler\<close>; where a process is in the code that waits for the condition; where it is in a
  \<open>yield\<close> that interrupted it; where a CPU is in the code that announces the condition.\<close>

datatype spc = Top | Open | Scan nat | Away nat | Back nat

datatype ppc = PStart | PUser | PAcq | SleepA | SleepB | SleepC | SleepD | SleepE | PDone

datatype ypc = YIdle | YAcq | YSched | YIn | YRet

datatype wpc = WIdle | WAcq | WScan nat | WRet

record smach =
  condlk :: spinlock
  cond :: bool
  plock :: "nat \<Rightarrow> spinlock"
  pst :: "nat \<Rightarrow> procstate"
  pchan :: "nat \<Rightarrow> u64"
  pintena :: "nat \<Rightarrow> bool"
  ppc :: "nat \<Rightarrow> ppc"
  ypc :: "nat \<Rightarrow> ypc"
  cpus :: "nat \<Rightarrow> cpu"
  cpc :: "nat \<Rightarrow> spc"
  wpc :: "nat \<Rightarrow> wpc"

definition lock_p :: "nat \<Rightarrow> nat \<Rightarrow> smach \<Rightarrow> smach outcome" where
  "lock_p c p m = obind (acquire c (plock m p) (cpus m c)) (\<lambda>(l, x). Ok (m\<lparr>plock := (plock m)(p := l), cpus := (cpus m)(c := x)\<rparr>))"

definition unlock_p :: "nat \<Rightarrow> nat \<Rightarrow> smach \<Rightarrow> smach outcome" where
  "unlock_p c p m = obind (release c (plock m p) (cpus m c)) (\<lambda>(l, x). Ok (m\<lparr>plock := (plock m)(p := l), cpus := (cpus m)(c := x)\<rparr>))"

definition lock_c :: "nat \<Rightarrow> smach \<Rightarrow> smach outcome" where
  "lock_c c m = obind (acquire c (condlk m) (cpus m c)) (\<lambda>(l, x). Ok (m\<lparr>condlk := l, cpus := (cpus m)(c := x)\<rparr>))"

definition unlock_c :: "nat \<Rightarrow> smach \<Rightarrow> smach outcome" where
  "unlock_c c m = obind (release c (condlk m) (cpus m c)) (\<lambda>(l, x). Ok (m\<lparr>condlk := l, cpus := (cpus m)(c := x)\<rparr>))"

abbreviation (input) goto_p :: "nat \<Rightarrow> ppc \<Rightarrow> smach \<Rightarrow> smach" where
  "goto_p p x m \<equiv> m\<lparr>ppc := (ppc m)(p := x)\<rparr>"

abbreviation (input) goto_y :: "nat \<Rightarrow> ypc \<Rightarrow> smach \<Rightarrow> smach" where
  "goto_y p x m \<equiv> m\<lparr>ypc := (ypc m)(p := x)\<rparr>"

abbreviation (input) goto_s :: "nat \<Rightarrow> spc \<Rightarrow> smach \<Rightarrow> smach" where
  "goto_s c x m \<equiv> m\<lparr>cpc := (cpc m)(c := x)\<rparr>"

abbreviation (input) goto_w :: "nat \<Rightarrow> wpc \<Rightarrow> smach \<Rightarrow> smach" where
  "goto_w c x m \<equiv> m\<lparr>wpc := (wpc m)(c := x)\<rparr>"

section \<open>Operations\<close>

text \<open>\<open>sched\<close> up to its switch, and what it does when it is switched back to.\<close>

definition sched :: "nat \<Rightarrow> nat \<Rightarrow> smach \<Rightarrow> smach outcome" where
  "sched c p m =
     (if \<not> holding c (plock m p) then Panic ''sched p->lock''
      else if noff (cpus m c) \<noteq> 1 then Panic ''sched locks''
      else if pst m p = RUNNING then Panic ''sched RUNNING''
      else if sie (cpus m c) then Panic ''sched interruptible''
      else Ok (m\<lparr>pintena := (pintena m)(p := intena (cpus m c)), cpc := (cpc m)(c := Back p)\<rparr>))"

definition sched_ret :: "nat \<Rightarrow> nat \<Rightarrow> smach \<Rightarrow> smach" where
  "sched_ret c p m = m\<lparr>cpus := (cpus m)(c := (cpus m c)\<lparr>intena := pintena m p\<rparr>)\<rparr>"

text \<open>\<open>scheduler\<close>: \<open>Top\<close> is the head of its endless loop, \<open>Open\<close> the place between \<open>intr_on\<close> and \<open>intr_off\<close>.\<close>

definition scheduler_step :: "nat \<Rightarrow> nat \<Rightarrow> smach \<Rightarrow> smach outcome" where
  "scheduler_step n c m =
     (case cpc m c of
        Top \<Rightarrow> Ok (goto_s c Open (m\<lparr>cpus := (cpus m)(c := (cpus m c)\<lparr>sie := True\<rparr>)\<rparr>))
      | Open \<Rightarrow> Ok (goto_s c (Scan 0) (m\<lparr>cpus := (cpus m)(c := (cpus m c)\<lparr>sie := False\<rparr>)\<rparr>))
      | Scan p \<Rightarrow>
          if p < n
          then obind (lock_p c p m) (\<lambda>m1.
               if pst m1 p = RUNNABLE then Ok (goto_s c (Away p) (m1\<lparr>pst := (pst m1)(p := RUNNING)\<rparr>))
               else obind (unlock_p c p m1) (\<lambda>m2. Ok (goto_s c (Scan (Suc p)) m2)))
          else Ok (goto_s c Top m)
      | Back p \<Rightarrow> obind (unlock_p c p m) (\<lambda>m1. Ok (goto_s c (Scan (Suc p)) m1))
      | Away p \<Rightarrow> Ok m)"

text \<open>\<open>wakeup\<close> and the section of its caller: set the condition, wake every sleeper, release, return.\<close>

definition my_proc :: "nat \<Rightarrow> smach \<Rightarrow> nat option" where
  "my_proc c m = (case cpc m c of Away p \<Rightarrow> Some p | Back p \<Rightarrow> Some p | _ \<Rightarrow> None)"

definition wakeup_step :: "nat \<Rightarrow> u64 \<Rightarrow> nat \<Rightarrow> smach \<Rightarrow> smach outcome" where
  "wakeup_step n ch c m =
     (case wpc m c of
        WAcq \<Rightarrow> obind (lock_c c m) (\<lambda>m1. Ok (goto_w c (WScan 0) (m1\<lparr>cond := True\<rparr>)))
      | WScan p \<Rightarrow>
          if p < n
          then if my_proc c m = Some p then Ok (goto_w c (WScan (Suc p)) m)
               else obind (lock_p c p m) (\<lambda>m1.
                    let m2 = (if pst m1 p = SLEEPING \<and> pchan m1 p = ch then m1\<lparr>pst := (pst m1)(p := RUNNABLE)\<rparr> else m1)
                    in obind (unlock_p c p m2) (\<lambda>m3. Ok (goto_w c (WScan (Suc p)) m3)))
          else obind (unlock_c c m) (\<lambda>m1. Ok (goto_w c WRet m1))
      | WRet \<Rightarrow> Ok (goto_w c WIdle (m\<lparr>cpus := (cpus m)(c := (cpus m c)\<lparr>sie := True\<rparr>)\<rparr>))
      | WIdle \<Rightarrow> Ok m)"

definition yield_step :: "nat \<Rightarrow> nat \<Rightarrow> smach \<Rightarrow> smach outcome" where
  "yield_step c p m =
     (case ypc m p of
        YAcq \<Rightarrow> obind (lock_p c p m) (\<lambda>m1. Ok (goto_y p YSched (m1\<lparr>pst := (pst m1)(p := RUNNABLE)\<rparr>)))
      | YSched \<Rightarrow> obind (sched c p m) (\<lambda>m1. Ok (goto_y p YIn m1))
      | YIn \<Rightarrow> obind (unlock_p c p (sched_ret c p m)) (\<lambda>m1. Ok (goto_y p YRet m1))
      | YRet \<Rightarrow> Ok (goto_y p YIdle (m\<lparr>cpus := (cpus m)(c := (cpus m c)\<lparr>sie := True\<rparr>)\<rparr>))
      | YIdle \<Rightarrow> Ok m)"

text \<open>A process that waits for the condition: it acquires the lock, and sleeps while the condition is false. \<open>PStart\<close> is
  \<open>forkret\<close>, which a new process enters with its lock held.\<close>

definition sleep_step :: "u64 \<Rightarrow> nat \<Rightarrow> nat \<Rightarrow> smach \<Rightarrow> smach outcome" where
  "sleep_step ch c p m =
     (case ppc m p of
        SleepA \<Rightarrow> obind (lock_p c p m) (\<lambda>m1. Ok (goto_p p SleepB m1))
      | SleepB \<Rightarrow> obind (unlock_c c m) (\<lambda>m1. Ok (goto_p p SleepC m1))
      | SleepC \<Rightarrow> Ok (goto_p p SleepD (m\<lparr>pchan := (pchan m)(p := ch), pst := (pst m)(p := SLEEPING)\<rparr>))
      | SleepD \<Rightarrow> obind (sched c p m) (\<lambda>m1. Ok (goto_p p SleepE m1))
      | SleepE \<Rightarrow> obind (unlock_p c p ((sched_ret c p m)\<lparr>pchan := (pchan m)(p := 0)\<rparr>)) (\<lambda>m1. Ok (goto_p p PAcq m1))
      | PStart \<Rightarrow> obind (unlock_p c p m) (\<lambda>m1. Ok (goto_p p PUser m1))
      | PUser \<Rightarrow> Ok m
      | PAcq \<Rightarrow> obind (lock_c c m) (\<lambda>m1. Ok (if cond m1 then goto_p p PDone (m1\<lparr>cond := False\<rparr>) else goto_p p SleepA m1))
      | PDone \<Rightarrow> obind (unlock_c c m) (\<lambda>m1. Ok (goto_p p PUser m1)))"

definition cpu_step :: "nat \<Rightarrow> u64 \<Rightarrow> nat \<Rightarrow> smach \<Rightarrow> smach outcome" where
  "cpu_step n ch c m =
     (if wpc m c \<noteq> WIdle then wakeup_step n ch c m
      else case cpc m c of
        Away p \<Rightarrow> if ypc m p \<noteq> YIdle then yield_step c p m else sleep_step ch c p m
      | _ \<Rightarrow> scheduler_step n c m)"

text \<open>A CPU that is not in a handler; the context is interrupted with interrupts off.\<close>

definition in_main :: "nat \<Rightarrow> smach \<Rightarrow> bool" where
  "in_main c m \<longleftrightarrow> wpc m c = WIdle \<and> (case cpc m c of Away p \<Rightarrow> ypc m p = YIdle | _ \<Rightarrow> True)"

inductive sched_step :: "nat \<Rightarrow> u64 \<Rightarrow> smach \<Rightarrow> smach \<Rightarrow> bool" for n ch where
  run: "cpu_step n ch c m = Ok m1 \<Longrightarrow> sched_step n ch m m1"
| device: "in_main c m \<Longrightarrow> sie (cpus m c) \<Longrightarrow>
    sched_step n ch m (goto_w c WAcq (m\<lparr>cpus := (cpus m)(c := (cpus m c)\<lparr>sie := False\<rparr>)\<rparr>))"
| timer: "in_main c m \<Longrightarrow> sie (cpus m c) \<Longrightarrow> cpc m c = Away p \<Longrightarrow>
    sched_step n ch m (goto_y p YAcq (m\<lparr>cpus := (cpus m)(c := (cpus m c)\<lparr>sie := False\<rparr>)\<rparr>))"
| announce: "in_main c m \<Longrightarrow> cpc m c = Away p \<Longrightarrow> ppc m p = PUser \<Longrightarrow> sched_step n ch m (goto_w c WAcq m)"
| await: "in_main c m \<Longrightarrow> cpc m c = Away p \<Longrightarrow> ppc m p = PUser \<Longrightarrow> sched_step n ch m (goto_p p PAcq m)"

end
