(* ===== verification/Xv6_Sched_Spec.thy ===== *)
theory Xv6_Sched_Spec
  imports Xv6_Sched
begin

text \<open>
  The invariant of scheduling and what follows from it: no step panics, a process runs on one CPU at a time, and no
  wakeup is lost.
\<close>

section \<open>Who holds the locks\<close>

text \<open>The places at which a process holds the lock of the condition, or its own lock.\<close>

definition has_cond :: "ppc \<Rightarrow> bool" where
  "has_cond x \<longleftrightarrow> x = SleepA \<or> x = SleepB \<or> x = PDone"

definition has_own :: "ppc \<Rightarrow> ypc \<Rightarrow> bool" where
  "has_own x y \<longleftrightarrow> x = PStart \<or> x = SleepB \<or> x = SleepC \<or> x = SleepD \<or> x = SleepE \<or> y = YSched \<or> y = YIn"

definition scans :: "wpc \<Rightarrow> bool" where
  "scans w \<longleftrightarrow> (\<exists>i. w = WScan i)"

definition cown :: "smach \<Rightarrow> nat \<Rightarrow> bool" where
  "cown m c \<longleftrightarrow> scans (wpc m c) \<or> (\<exists>p. cpc m c = Away p \<and> has_cond (ppc m p))"

definition pown :: "smach \<Rightarrow> nat \<Rightarrow> nat \<Rightarrow> bool" where
  "pown m c p \<longleftrightarrow> cpc m c = Back p \<or> cpc m c = Away p \<and> has_own (ppc m p) (ypc m p)"

definition depth :: "smach \<Rightarrow> nat \<Rightarrow> int" where
  "depth m c =
     (case cpc m c of Back p \<Rightarrow> 1 | Away p \<Rightarrow> of_bool (has_cond (ppc m p)) + of_bool (has_own (ppc m p) (ypc m p)) | _ \<Rightarrow> 0) +
     of_bool (scans (wpc m c))"

definition calm :: "ppc \<Rightarrow> bool" where
  "calm x \<longleftrightarrow> x = PUser \<or> x = PAcq"

definition wf_lock :: "spinlock \<Rightarrow> bool" where
  "wf_lock l \<longleftrightarrow> (locked l \<longleftrightarrow> lcpu l \<noteq> None)"

definition locks_inv :: "smach \<Rightarrow> bool" where
  "locks_inv m \<longleftrightarrow>
     (\<forall>c. cpu_ok (cpus m c) \<and> noff (cpus m c) = depth m c) \<and>
     wf_lock (condlk m) \<and> (\<forall>c. lcpu (condlk m) = Some c \<longleftrightarrow> cown m c) \<and>
     (\<forall>p. wf_lock (plock m p)) \<and> (\<forall>p c. lcpu (plock m p) = Some c \<longleftrightarrow> pown m c p)"

text \<open>A process that no CPU runs is where \<open>sched\<close> returns to or at its start; the state of one that is run is determined
  by its place; an interrupt has found its CPU between sections.\<close>

definition resumable :: "smach \<Rightarrow> nat \<Rightarrow> bool" where
  "resumable m p \<longleftrightarrow> ypc m p = YIn \<or> ypc m p = YIdle \<and> (ppc m p = SleepE \<or> ppc m p = PStart)"

definition state_of :: "ppc \<Rightarrow> ypc \<Rightarrow> procstate" where
  "state_of x y = (if y = YSched then RUNNABLE else if x = SleepD then SLEEPING else RUNNING)"

definition interrupted :: "smach \<Rightarrow> nat \<Rightarrow> bool" where
  "interrupted m c \<longleftrightarrow> (case cpc m c of Away p \<Rightarrow> ypc m p = YIdle \<and> calm (ppc m p) | Back p \<Rightarrow> False | _ \<Rightarrow> True)"

definition place_inv :: "nat \<Rightarrow> smach \<Rightarrow> bool" where
  "place_inv n m \<longleftrightarrow>
     (\<forall>c c' p. cpc m c = Away p \<longrightarrow> cpc m c' = Away p \<longrightarrow> c = c') \<and>
     (\<forall>c p. cpc m c = Away p \<longrightarrow> p < n \<and> pst m p = state_of (ppc m p) (ypc m p)) \<and>
     (\<forall>p. (\<forall>c. cpc m c \<noteq> Away p) \<longrightarrow> resumable m p) \<and>
     (\<forall>p. ypc m p \<noteq> YIdle \<longrightarrow> calm (ppc m p)) \<and>
     (\<forall>c. wpc m c \<noteq> WIdle \<longrightarrow> interrupted m c)"

lemma place_invD:
  assumes "place_inv n m"
  shows "cpc m c = Away p \<Longrightarrow> cpc m d = Away p \<Longrightarrow> c = d"
    "cpc m c = Away p \<Longrightarrow> p < n" "cpc m c = Away p \<Longrightarrow> pst m p = state_of (ppc m p) (ypc m p)"
    "\<forall>c. cpc m c \<noteq> Away p \<Longrightarrow> resumable m p" "ypc m p \<noteq> YIdle \<Longrightarrow> calm (ppc m p)" "wpc m c \<noteq> WIdle \<Longrightarrow> interrupted m c"
  using assms unfolding place_inv_def by blast+

text \<open>A process that has decided to sleep and given up the lock of the condition.\<close>

definition committed :: "smach \<Rightarrow> nat \<Rightarrow> bool" where
  "committed m p \<longleftrightarrow> ppc m p = SleepC \<or> ppc m p = SleepD \<or> pst m p = SLEEPING"

definition wake_inv :: "nat \<Rightarrow> u64 \<Rightarrow> smach \<Rightarrow> bool" where
  "wake_inv n ch m \<longleftrightarrow>
     (\<forall>p. pst m p = SLEEPING \<longrightarrow> p < n \<and> (ppc m p = SleepD \<or> ppc m p = SleepE) \<and> pchan m p = ch \<and> ypc m p = YIdle) \<and>
     (\<forall>p. ppc m p = SleepA \<or> ppc m p = SleepB \<longrightarrow> \<not> cond m) \<and>
     (\<forall>p. cond m \<longrightarrow> committed m p \<longrightarrow> (\<exists>c i. wpc m c = WScan i \<and> i \<le> p))"

definition sched_inv :: "nat \<Rightarrow> u64 \<Rightarrow> smach \<Rightarrow> bool" where
  "sched_inv n ch m \<longleftrightarrow> locks_inv m \<and> place_inv n m \<and> wake_inv n ch m"

section \<open>Steps on the locks\<close>

lemma push_off_noff [simp]: "noff (push_off x) = noff x + 1"
  by (simp add: push_off_def Let_def)

lemma acquire_wf:
  assumes "wf_lock l"
  shows "acquire c l x = (if lcpu l = Some c then Panic ''acquire'' else if lcpu l \<noteq> None then Blocks
    else Ok (\<lparr>locked = True, lcpu = Some c\<rparr>, push_off x))"
  using assms by (cases l) (auto simp: acquire_def holding_def wf_lock_def Let_def)

lemma release_held:
  assumes "wf_lock l" "lcpu l = Some c" "cpu_ok x" "0 < noff x"
  obtains y where "release c l x = Ok (\<lparr>locked = False, lcpu = None\<rparr>, y)" "cpu_ok y" "noff y = noff x - 1"
  using assms that
  by (cases l) (auto simp: release_def holding_def wf_lock_def pop_off_def cpu_ok_def Let_def)

lemma wf_lock_simps [simp]: "wf_lock \<lparr>locked = True, lcpu = Some c\<rparr>" "wf_lock \<lparr>locked = False, lcpu = None\<rparr>"
  by (simp_all add: wf_lock_def)

text \<open>Taking a lock that is free, and giving back one that is held, with the new state of the CPU.\<close>

lemma lock_p_spec:
  assumes "locks_inv m"
  shows "lock_p c p m = (if pown m c p then Panic ''acquire'' else if lcpu (plock m p) \<noteq> None then Blocks
    else Ok (m\<lparr>plock := (plock m)(p := \<lparr>locked = True, lcpu = Some c\<rparr>), cpus := (cpus m)(c := push_off (cpus m c))\<rparr>))"
  using assms acquire_wf [of "plock m p" c "cpus m c"] by (auto simp: lock_p_def locks_inv_def)

lemma lock_c_spec:
  assumes "locks_inv m"
  shows "lock_c c m = (if cown m c then Panic ''acquire'' else if lcpu (condlk m) \<noteq> None then Blocks
    else Ok (m\<lparr>condlk := \<lparr>locked = True, lcpu = Some c\<rparr>, cpus := (cpus m)(c := push_off (cpus m c))\<rparr>))"
  using assms acquire_wf [of "condlk m" c "cpus m c"] by (auto simp: lock_c_def locks_inv_def)

lemma unlock_p_spec:
  assumes "wf_lock (plock m p)" "lcpu (plock m p) = Some c" "cpu_ok (cpus m c)" "0 < noff (cpus m c)"
  obtains y where "unlock_p c p m = Ok (m\<lparr>plock := (plock m)(p := \<lparr>locked = False, lcpu = None\<rparr>), cpus := (cpus m)(c := y)\<rparr>)"
    "cpu_ok y" "noff y = noff (cpus m c) - 1"
proof -
  obtain y where "release c (plock m p) (cpus m c) = Ok (\<lparr>locked = False, lcpu = None\<rparr>, y)" "cpu_ok y" "noff y = noff (cpus m c) - 1"
    using release_held [OF assms] by metis
  then show ?thesis by (intro that [of y]) (simp_all add: unlock_p_def)
qed

lemma unlock_c_spec:
  assumes "wf_lock (condlk m)" "lcpu (condlk m) = Some c" "cpu_ok (cpus m c)" "0 < noff (cpus m c)"
  obtains y where "unlock_c c m = Ok (m\<lparr>condlk := \<lparr>locked = False, lcpu = None\<rparr>, cpus := (cpus m)(c := y)\<rparr>)"
    "cpu_ok y" "noff y = noff (cpus m c) - 1"
proof -
  obtain y where "release c (condlk m) (cpus m c) = Ok (\<lparr>locked = False, lcpu = None\<rparr>, y)" "cpu_ok y" "noff y = noff (cpus m c) - 1"
    using release_held [OF assms] by metis
  then show ?thesis by (intro that [of y]) (simp_all add: unlock_c_def)
qed

section \<open>Frames\<close>

text \<open>How a step of CPU \<open>c\<close> may change a lock, by whether it holds it before and after.\<close>

definition lk_trans :: "nat \<Rightarrow> bool \<Rightarrow> bool \<Rightarrow> spinlock \<Rightarrow> spinlock \<Rightarrow> bool" where
  "lk_trans c h h' l l' \<longleftrightarrow>
     (if h' = h then l' = l
      else if h' then wf_lock l' \<and> lcpu l' = Some c \<and> lcpu l = None
      else wf_lock l' \<and> lcpu l' = None)"

lemma lk_trans_owner:
  assumes "lk_trans c (own c) (own' c) l l'" "wf_lock l" "\<And>d. lcpu l = Some d \<longleftrightarrow> own d" "\<And>d. d \<noteq> c \<Longrightarrow> own' d = own d"
  shows "wf_lock l'" "lcpu l' = Some d \<longleftrightarrow> own' d"
proof -
  show "wf_lock l'" using assms(1,2) by (auto simp: lk_trans_def split: if_splits)
  have u: "own d \<Longrightarrow> own c \<Longrightarrow> d = c" using assms(3) by (metis option.inject)
  show "lcpu l' = Some d \<longleftrightarrow> own' d"
  proof (cases "d = c")
    case True
    then show ?thesis using assms(1) assms(3) [of c] by (auto simp: lk_trans_def split: if_splits)
  next
    case False
    then have "own' d = own d" using assms(4) by simp
    then show ?thesis using False assms(1) assms(3) [of d] u by (cases "own' c"; cases "own c") (auto simp: lk_trans_def)
  qed
qed

lemma locks_frame:
  assumes "locks_inv m"
    and "\<And>d. d \<noteq> c \<Longrightarrow> cpus m' d = cpus m d" "\<And>d. d \<noteq> c \<Longrightarrow> cown m' d = cown m d"
    and "\<And>d. d \<noteq> c \<Longrightarrow> depth m' d = depth m d" "\<And>d q. d \<noteq> c \<Longrightarrow> pown m' d q = pown m d q"
    and "cpu_ok (cpus m' c)" "noff (cpus m' c) = depth m' c"
    and "lk_trans c (cown m c) (cown m' c) (condlk m) (condlk m')"
    and "\<And>q. lk_trans c (pown m c q) (pown m' c q) (plock m q) (plock m' q)"
  shows "locks_inv m'"
proof -
  have i: "\<And>d. cpu_ok (cpus m d) \<and> noff (cpus m d) = depth m d" "wf_lock (condlk m)" "\<And>d. lcpu (condlk m) = Some d \<longleftrightarrow> cown m d"
      "\<And>q. wf_lock (plock m q)" "\<And>q d. lcpu (plock m q) = Some d \<longleftrightarrow> pown m d q"
    using assms(1) by (simp_all add: locks_inv_def)
  have "cpu_ok (cpus m' d) \<and> noff (cpus m' d) = depth m' d" for d
    using i(1) assms(2,4,6,7) by (cases "d = c") auto
  moreover note lk_trans_owner [where own = "cown m" and own' = "cown m'" and c = c, OF assms(8) i(2,3) assms(3)]
  moreover have "wf_lock (plock m' q)" "lcpu (plock m' q) = Some d \<longleftrightarrow> pown m' d q" for q d
    by (rule lk_trans_owner [where own = "\<lambda>d. pown m d q" and own' = "\<lambda>d. pown m' d q" and c = c, OF assms(9) i(4,5) assms(5)]; assumption)+
  ultimately show ?thesis by (simp add: locks_inv_def)
qed

text \<open>A step of CPU \<open>c\<close> that changes the place of no process outside \<open>P\<close>, none of which another CPU runs, leaves the
  others with what they hold.\<close>

definition local_step :: "nat \<Rightarrow> nat set \<Rightarrow> smach \<Rightarrow> smach \<Rightarrow> bool" where
  "local_step c P m m' \<longleftrightarrow>
     (\<forall>d. d \<noteq> c \<longrightarrow> cpus m' d = cpus m d \<and> cpc m' d = cpc m d \<and> wpc m' d = wpc m d) \<and>
     (\<forall>q. q \<notin> P \<longrightarrow> ppc m' q = ppc m q \<and> ypc m' q = ypc m q) \<and>
     (\<forall>d q. d \<noteq> c \<longrightarrow> cpc m d = Away q \<longrightarrow> q \<notin> P)"

lemma others_frame:
  assumes "local_step c P m m'" "d \<noteq> c"
  shows "cown m' d = cown m d" "depth m' d = depth m d" "pown m' d q = pown m d q" "cpus m' d = cpus m d"
proof -
  have o: "cpc m' d = cpc m d" "wpc m' d = wpc m d" "cpus m' d = cpus m d" using assms by (auto simp: local_step_def)
  have eq: "ppc m' q = ppc m q" "ypc m' q = ypc m q" if "cpc m d = Away q" for q
    using assms that by (auto simp: local_step_def)
  show "cown m' d = cown m d" using o eq by (auto simp: cown_def)
  show "pown m' d q = pown m d q" using o eq by (auto simp: pown_def)
  show "depth m' d = depth m d" using o eq by (simp add: depth_def split: spc.split)
  show "cpus m' d = cpus m d" by (rule o)
qed

lemma locks_local:
  assumes "locks_inv m" "local_step c P m m'" "cpu_ok (cpus m' c)" "noff (cpus m' c) = depth m' c"
    and "lk_trans c (cown m c) (cown m' c) (condlk m) (condlk m')"
    and "\<And>q. lk_trans c (pown m c q) (pown m' c q) (plock m q) (plock m' q)"
  shows "locks_inv m'"
  using locks_frame [OF assms(1) others_frame(4,1,2,3) [OF assms(2)] assms(3-6)] .

lemma place_local:
  assumes "place_inv n m" "local_step c P m m'"
    and "\<And>d q. d \<noteq> c \<Longrightarrow> cpc m d = Away q \<Longrightarrow> pst m' q = pst m q"
    and "\<And>p. cpc m' c = Away p \<Longrightarrow> (\<forall>d. d \<noteq> c \<longrightarrow> cpc m d \<noteq> Away p) \<and> p < n \<and> pst m' p = state_of (ppc m' p) (ypc m' p)"
    and "\<And>p. p \<in> P \<or> cpc m c = Away p \<Longrightarrow> cpc m' c \<noteq> Away p \<Longrightarrow> resumable m' p"
    and "\<And>p. p \<in> P \<Longrightarrow> ypc m' p \<noteq> YIdle \<Longrightarrow> calm (ppc m' p)"
    and "wpc m' c \<noteq> WIdle \<Longrightarrow> interrupted m' c"
  shows "place_inv n m'"
proof -
  note inv = place_invD [OF assms(1)]
  have o: "cpc m' d = cpc m d" "wpc m' d = wpc m d" if "d \<noteq> c" for d using assms(2) that by (auto simp: local_step_def)
  have p: "ppc m' q = ppc m q" "ypc m' q = ypc m q" if "q \<notin> P" for q using assms(2) that by (auto simp: local_step_def)
  have r: "q \<notin> P" if "d \<noteq> c" "cpc m d = Away q" for d q using assms(2) that by (auto simp: local_step_def)
  have "d = d'" if "cpc m' d = Away q" "cpc m' d' = Away q" for d d' q
    using that o inv(1) assms(4) by metis
  moreover have "q < n \<and> pst m' q = state_of (ppc m' q) (ypc m' q)" if "cpc m' d = Away q" for d q
  proof (cases "d = c")
    case False
    then have "cpc m d = Away q" "q \<notin> P" using that o r by auto
    then show ?thesis using inv(2,3) assms(3) [OF False] p [of q] by simp
  qed (use assms(4) that in auto)
  moreover have "resumable m' q" if "\<forall>d. cpc m' d \<noteq> Away q" for q
  proof (cases "q \<in> P \<or> cpc m c = Away q")
    case False
    then have "\<forall>d. cpc m d \<noteq> Away q" using that o by metis
    then have "resumable m q" by (rule inv(4))
    then show ?thesis using False p by (simp add: resumable_def)
  qed (use assms(5) that in auto)
  moreover have "calm (ppc m' q)" if "ypc m' q \<noteq> YIdle" for q
    using inv(5) assms(6) p that by metis
  moreover have "interrupted m' d" if "wpc m' d \<noteq> WIdle" for d
  proof (cases "d = c")
    case False
    then have "interrupted m d" using inv(6) o that by auto
    then show ?thesis using o [OF False] p r [OF False] by (auto simp: interrupted_def split: spc.splits)
  qed (use assms(7) that in auto)
  ultimately show ?thesis unfolding place_inv_def by blast
qed

section \<open>Steps of a process\<close>

lemma lk_trans_False [simp]: "lk_trans c False False l l' \<longleftrightarrow> l' = l"
  by (simp add: lk_trans_def)

lemma wake_invD:
  assumes "wake_inv n ch m"
  shows "pst m p = SLEEPING \<Longrightarrow> p < n" "pst m p = SLEEPING \<Longrightarrow> ppc m p = SleepD \<or> ppc m p = SleepE"
    "pst m p = SLEEPING \<Longrightarrow> pchan m p = ch" "pst m p = SLEEPING \<Longrightarrow> ypc m p = YIdle"
    "ppc m p = SleepA \<or> ppc m p = SleepB \<Longrightarrow> \<not> cond m"
    "cond m \<Longrightarrow> committed m p \<Longrightarrow> \<exists>c i. wpc m c = WScan i \<and> i \<le> p"
  using assms unfolding wake_inv_def by blast+

definition same_procs :: "nat set \<Rightarrow> smach \<Rightarrow> smach \<Rightarrow> bool" where
  "same_procs P m m' \<longleftrightarrow>
     (\<forall>q. q \<notin> P \<longrightarrow> ppc m' q = ppc m q \<and> ypc m' q = ypc m q \<and> pst m' q = pst m q \<and> pchan m' q = pchan m q)"

definition same_cpus :: "nat \<Rightarrow> smach \<Rightarrow> smach \<Rightarrow> bool" where
  "same_cpus c m m' \<longleftrightarrow> (\<forall>d. d \<noteq> c \<longrightarrow> cpus m' d = cpus m d \<and> cpc m' d = cpc m d \<and> wpc m' d = wpc m d)"

lemma local_stepI:
  assumes "same_cpus c m m'" "same_procs P m m'" "\<And>d q. d \<noteq> c \<Longrightarrow> cpc m d = Away q \<Longrightarrow> q \<notin> P"
  shows "local_step c P m m'"
  using assms by (auto simp: local_step_def same_cpus_def same_procs_def)

lemma wake_local:
  assumes "wake_inv n ch m" "same_procs P m m'" "cond m' \<Longrightarrow> cond m"
    and "\<And>d i. wpc m d = WScan i \<Longrightarrow> wpc m' d = WScan i"
    and "\<And>p. p \<in> P \<Longrightarrow> pst m' p = SLEEPING \<Longrightarrow> p < n \<and> (ppc m' p = SleepD \<or> ppc m' p = SleepE) \<and> pchan m' p = ch \<and> ypc m' p = YIdle"
    and "\<And>p. p \<in> P \<Longrightarrow> ppc m' p = SleepA \<or> ppc m' p = SleepB \<Longrightarrow> \<not> cond m'"
    and "\<And>p. p \<in> P \<Longrightarrow> cond m' \<Longrightarrow> committed m' p \<Longrightarrow> committed m p"
  shows "wake_inv n ch m'"
proof -
  note inv = wake_invD [OF assms(1)]
  have s: "ppc m' q = ppc m q" "ypc m' q = ypc m q" "pst m' q = pst m q" "pchan m' q = pchan m q" if "q \<notin> P" for q
    using assms(2) that by (auto simp: same_procs_def)
  have "q < n \<and> (ppc m' q = SleepD \<or> ppc m' q = SleepE) \<and> pchan m' q = ch \<and> ypc m' q = YIdle" if "pst m' q = SLEEPING" for q
    using that inv(1-4) [of q] s [of q] assms(5) [of q] by (cases "q \<in> P") auto
  moreover have "\<not> cond m'" if "ppc m' q = SleepA \<or> ppc m' q = SleepB" for q
    using that inv(5) [of q] s [of q] assms(3) assms(6) [of q] by (cases "q \<in> P") auto
  moreover have "\<exists>d i. wpc m' d = WScan i \<and> i \<le> q" if "cond m'" "committed m' q" for q
  proof -
    have "committed m q" using that assms(7) [of q] s [of q] by (cases "q \<in> P") (auto simp: committed_def)
    then show ?thesis using inv(6) assms(3,4) that(1) by blast
  qed
  ultimately show ?thesis unfolding wake_inv_def by blast
qed

lemma proc_step_inv:
  assumes inv: "sched_inv n ch m" and on: "cpc m c = Away p" "wpc m c = WIdle"
    and same: "same_cpus c m m'" "same_procs {p} m m'" "cpc m' c = cpc m c" "wpc m' c = WIdle" "\<And>q. q \<noteq> p \<Longrightarrow> plock m' q = plock m q"
    and cpu: "cpu_ok (cpus m' c)" "noff (cpus m' c) = of_bool (has_cond (ppc m' p)) + of_bool (has_own (ppc m' p) (ypc m' p))"
    and lk: "lk_trans c (has_cond (ppc m p)) (has_cond (ppc m' p)) (condlk m) (condlk m')"
      "lk_trans c (has_own (ppc m p) (ypc m p)) (has_own (ppc m' p) (ypc m' p)) (plock m p) (plock m' p)"
    and st: "pst m' p = state_of (ppc m' p) (ypc m' p)" "ypc m' p \<noteq> YIdle \<Longrightarrow> calm (ppc m' p)" "pst m' p = SLEEPING \<Longrightarrow> pchan m' p = ch"
    and cd: "cond m' \<Longrightarrow> cond m" "ppc m' p = SleepA \<or> ppc m' p = SleepB \<Longrightarrow> \<not> cond m'" "cond m' \<Longrightarrow> committed m' p \<Longrightarrow> committed m p"
  shows "sched_inv n ch m'"
proof -
  have i: "locks_inv m" "place_inv n m" "wake_inv n ch m" using inv by (simp_all add: sched_inv_def)
  note pi = place_invD [OF i(2)]
  have alone: "cpc m d \<noteq> Away p" if "d \<noteq> c" for d using pi(1) on(1) that by blast
  have l: "local_step c {p} m m'" using same(1,2) alone by (intro local_stepI) auto
  have own: "cown m c = has_cond (ppc m p)" "cown m' c = has_cond (ppc m' p)"
    "pown m c q = (q = p \<and> has_own (ppc m p) (ypc m p))" "pown m' c q = (q = p \<and> has_own (ppc m' p) (ypc m' p))" for q
    using on same(3,4) by (auto simp: cown_def pown_def scans_def)
  have "locks_inv m'"
  proof (rule locks_local [OF i(1) l cpu(1)])
    show "noff (cpus m' c) = depth m' c" using cpu(2) on same(3,4) by (simp add: depth_def scans_def)
    show "lk_trans c (cown m c) (cown m' c) (condlk m) (condlk m')" unfolding own by (rule lk(1))
    show "lk_trans c (pown m c q) (pown m' c q) (plock m q) (plock m' q)" for q
      unfolding own using lk(2) same(5) by (cases "q = p") auto
  qed
  moreover have "place_inv n m'"
  proof (rule place_local [OF i(2) l])
    show "pst m' q = pst m q" if "d \<noteq> c" "cpc m d = Away q" for d q
      using same(2) alone [OF that(1)] that(2) by (cases "q = p") (auto simp: same_procs_def)
  qed (use alone on same st(1,2) pi(2) in auto)
  moreover have "wake_inv n ch m'"
  proof (rule wake_local [OF i(3) same(2) cd(1)])
    show "q < n \<and> (ppc m' q = SleepD \<or> ppc m' q = SleepE) \<and> pchan m' q = ch \<and> ypc m' q = YIdle"
      if "q \<in> {p}" "pst m' q = SLEEPING" for q
      using that st pi(2) [OF on(1)] by (auto simp: state_of_def calm_def split: if_splits)
    show "wpc m' d = WScan i" if "wpc m d = WScan i" for d i
      using that on(2) same(1) by (cases "d = c") (auto simp: same_cpus_def)
  qed (use cd in auto)
  ultimately show ?thesis by (simp add: sched_inv_def)
qed

definition safe :: "nat \<Rightarrow> u64 \<Rightarrow> smach outcome \<Rightarrow> bool" where
  "safe n ch r \<longleftrightarrow> r = Blocks \<or> (\<exists>m'. r = Ok m' \<and> sched_inv n ch m')"

lemma safe_simps [simp]: "safe n ch Blocks" "safe n ch (Ok m') \<longleftrightarrow> sched_inv n ch m'"
  by (simp_all add: safe_def)

lemma cpu_facts:
  assumes "sched_inv n ch m"
  shows "cpu_ok (cpus m c)" "noff (cpus m c) = depth m c"
  using assms by (auto simp: sched_inv_def locks_inv_def)

lemma depth_proc:
  "cpc m c = Away p \<Longrightarrow> wpc m c = WIdle \<Longrightarrow> depth m c = of_bool (has_cond (ppc m p)) + of_bool (has_own (ppc m p) (ypc m p))"
  by (simp add: depth_def scans_def)

lemma lock_p_cases:
  assumes "sched_inv n ch m" "\<not> pown m c p"
  obtains "lock_p c p m = Blocks"
  | "lcpu (plock m p) = None"
    "lock_p c p m = Ok (m\<lparr>plock := (plock m)(p := \<lparr>locked = True, lcpu = Some c\<rparr>), cpus := (cpus m)(c := push_off (cpus m c))\<rparr>)"
  using assms(2) lock_p_spec [of m c p] assms(1) that unfolding sched_inv_def by (cases "lcpu (plock m p)") simp_all

lemma lock_c_cases:
  assumes "sched_inv n ch m" "\<not> cown m c"
  obtains "lock_c c m = Blocks"
  | "lcpu (condlk m) = None"
    "lock_c c m = Ok (m\<lparr>condlk := \<lparr>locked = True, lcpu = Some c\<rparr>, cpus := (cpus m)(c := push_off (cpus m c))\<rparr>)"
  using assms(2) lock_c_spec [of m c] assms(1) that unfolding sched_inv_def by (cases "lcpu (condlk m)") simp_all

lemma unlock_p_own:
  assumes "sched_inv n ch m" "pown m c p" "0 < depth m c"
    and "plock m1 = plock m" "cpus m1 c = (cpus m c)\<lparr>intena := b\<rparr>"
  obtains y where "unlock_p c p m1 = Ok (m1\<lparr>plock := (plock m1)(p := \<lparr>locked = False, lcpu = None\<rparr>), cpus := (cpus m1)(c := y)\<rparr>)"
    "cpu_ok y" "noff y = depth m c - 1"
proof (rule unlock_p_spec [of m1 p c])
  show "wf_lock (plock m1 p)" "lcpu (plock m1 p) = Some c" "cpu_ok (cpus m1 c)" "0 < noff (cpus m1 c)"
    using assms by (auto simp: sched_inv_def locks_inv_def cpu_ok_def)
qed (use assms(5) cpu_facts(2) [OF assms(1), of c] that in simp)

lemma unlock_c_own:
  assumes "sched_inv n ch m" "cown m c" "0 < depth m c"
  obtains y where "unlock_c c m = Ok (m\<lparr>condlk := \<lparr>locked = False, lcpu = None\<rparr>, cpus := (cpus m)(c := y)\<rparr>)"
    "cpu_ok y" "noff y = depth m c - 1"
proof (rule unlock_c_spec [of m c])
  show "wf_lock (condlk m)" "lcpu (condlk m) = Some c" "cpu_ok (cpus m c)" "0 < noff (cpus m c)"
    using assms by (auto simp: sched_inv_def locks_inv_def)
qed (use cpu_facts(2) [OF assms(1), of c] that in simp)

lemmas frame_simps = same_cpus_def same_procs_def lk_trans_def has_cond_def has_own_def state_of_def calm_def committed_def

lemma sleep_code_safe:
  assumes inv: "sched_inv n ch m" and on: "cpc m c = Away p" "wpc m c = WIdle" and y: "ypc m p = YIdle"
    and x: "ppc m p \<in> {SleepA, SleepB, SleepC, SleepE}"
  shows "safe n ch (sleep_step ch c p m)"
proof -
  have i: "place_inv n m" "wake_inv n ch m" using inv by (simp_all add: sched_inv_def)
  note cpu = cpu_facts [OF inv, of c] depth_proc [OF on]
  note st = place_invD(3) [OF i(1) on(1)] wake_invD(5) [OF i(2), of p]
  consider (SleepA) "ppc m p = SleepA" | (SleepB) "ppc m p = SleepB" | (SleepC) "ppc m p = SleepC" | (SleepE) "ppc m p = SleepE" using x by auto
  then show ?thesis
  proof cases
    case SleepA
    have "\<not> pown m c p" using SleepA on y by (simp add: pown_def has_own_def)
    with inv show ?thesis
    proof (cases rule: lock_p_cases)
      case 2
      have "sched_inv n ch (m\<lparr>plock := (plock m)(p := \<lparr>locked = True, lcpu = Some c\<rparr>), cpus := (cpus m)(c := push_off (cpus m c)), ppc := (ppc m)(p := SleepB)\<rparr>)"
        using 2 SleepA y cpu st push_off_ok by (intro proc_step_inv [OF inv on]) (auto simp: frame_simps on)
      then show ?thesis using 2 by (simp add: sleep_step_def SleepA)
    qed (simp add: sleep_step_def SleepA)
  next
    case SleepB
    obtain z where z: "unlock_c c m = Ok (m\<lparr>condlk := \<lparr>locked = False, lcpu = None\<rparr>, cpus := (cpus m)(c := z)\<rparr>)"
        "cpu_ok z" "noff z = depth m c - 1"
      using SleepB y on cpu by (elim unlock_c_own [OF inv, of c, rotated 2]) (auto simp: cown_def frame_simps)
    have "sched_inv n ch (m\<lparr>condlk := \<lparr>locked = False, lcpu = None\<rparr>, cpus := (cpus m)(c := z), ppc := (ppc m)(p := SleepC)\<rparr>)"
      using z SleepB y cpu st by (intro proc_step_inv [OF inv on]) (auto simp: frame_simps on)
    then show ?thesis using z(1) by (simp add: sleep_step_def SleepB)
  next
    case SleepC
    have "sched_inv n ch (m\<lparr>pchan := (pchan m)(p := ch), pst := (pst m)(p := SLEEPING), ppc := (ppc m)(p := SleepD)\<rparr>)"
      using SleepC y cpu st by (intro proc_step_inv [OF inv on]) (auto simp: frame_simps on)
    then show ?thesis by (simp add: sleep_step_def SleepC)
  next
    case SleepE
    let ?m = "(sched_ret c p m)\<lparr>pchan := (pchan m)(p := 0)\<rparr>"
    obtain z where z: "unlock_p c p ?m = Ok (?m\<lparr>plock := (plock ?m)(p := \<lparr>locked = False, lcpu = None\<rparr>), cpus := (cpus ?m)(c := z)\<rparr>)"
        "cpu_ok z" "noff z = depth m c - 1"
      using SleepE y on cpu
      by (elim unlock_p_own [OF inv, of c p ?m "pintena m p", rotated 4]) (auto simp: pown_def frame_simps sched_ret_def)
    have "sched_inv n ch (?m\<lparr>plock := (plock ?m)(p := \<lparr>locked = False, lcpu = None\<rparr>), cpus := (cpus ?m)(c := z), ppc := (ppc ?m)(p := PAcq)\<rparr>)"
      using z SleepE y cpu st by (intro proc_step_inv [OF inv on]) (auto simp: frame_simps on sched_ret_def)
    then show ?thesis using z(1) by (simp add: sleep_step_def SleepE)
  qed
qed

lemma client_code_safe:
  assumes inv: "sched_inv n ch m" and on: "cpc m c = Away p" "wpc m c = WIdle" and y: "ypc m p = YIdle"
    and x: "ppc m p \<in> {PStart, PAcq, PDone}"
  shows "safe n ch (sleep_step ch c p m)"
proof -
  have i: "place_inv n m" "wake_inv n ch m" using inv by (simp_all add: sched_inv_def)
  note cpu = cpu_facts [OF inv, of c] depth_proc [OF on]
  note st = place_invD(3) [OF i(1) on(1)] wake_invD(5) [OF i(2), of p]
  consider (PStart) "ppc m p = PStart" | (PAcq) "ppc m p = PAcq" | (PDone) "ppc m p = PDone" using x by auto
  then show ?thesis
  proof cases
    case PStart
    obtain z where z: "unlock_p c p m = Ok (m\<lparr>plock := (plock m)(p := \<lparr>locked = False, lcpu = None\<rparr>), cpus := (cpus m)(c := z)\<rparr>)"
        "cpu_ok z" "noff z = depth m c - 1"
      using PStart y on cpu by (elim unlock_p_own [OF inv, of c p m "intena (cpus m c)", rotated 4]) (auto simp: pown_def frame_simps)
    have "sched_inv n ch (m\<lparr>plock := (plock m)(p := \<lparr>locked = False, lcpu = None\<rparr>), cpus := (cpus m)(c := z), ppc := (ppc m)(p := PUser)\<rparr>)"
      using z PStart y cpu st by (intro proc_step_inv [OF inv on]) (auto simp: frame_simps on)
    then show ?thesis using z(1) by (simp add: sleep_step_def PStart)
  next
    case PAcq
    have "\<not> cown m c" using PAcq on y by (auto simp: cown_def has_cond_def scans_def)
    with inv show ?thesis
    proof (cases rule: lock_c_cases)
      case 2
      let ?m = "m\<lparr>condlk := \<lparr>locked = True, lcpu = Some c\<rparr>, cpus := (cpus m)(c := push_off (cpus m c))\<rparr>"
      have "sched_inv n ch (?m\<lparr>cond := False, ppc := (ppc m)(p := PDone)\<rparr>)"
        using 2 PAcq y cpu st push_off_ok by (intro proc_step_inv [OF inv on]) (auto simp: frame_simps on)
      moreover have "sched_inv n ch (?m\<lparr>ppc := (ppc m)(p := SleepA)\<rparr>)" if "\<not> cond m"
        using that 2 PAcq y cpu st push_off_ok by (intro proc_step_inv [OF inv on]) (auto simp: frame_simps on)
      ultimately show ?thesis using 2 by (simp add: sleep_step_def PAcq)
    qed (simp add: sleep_step_def PAcq)
  next
    case PDone
    obtain z where z: "unlock_c c m = Ok (m\<lparr>condlk := \<lparr>locked = False, lcpu = None\<rparr>, cpus := (cpus m)(c := z)\<rparr>)"
        "cpu_ok z" "noff z = depth m c - 1"
      using PDone y on cpu by (elim unlock_c_own [OF inv, of c, rotated 2]) (auto simp: cown_def frame_simps)
    have "sched_inv n ch (m\<lparr>condlk := \<lparr>locked = False, lcpu = None\<rparr>, cpus := (cpus m)(c := z), ppc := (ppc m)(p := PUser)\<rparr>)"
      using z PDone y cpu st by (intro proc_step_inv [OF inv on]) (auto simp: frame_simps on)
    then show ?thesis using z(1) by (simp add: sleep_step_def PDone)
  qed
qed

lemma calm_facts:
  assumes "calm x"
  shows "\<not> has_cond x" "has_own x y \<longleftrightarrow> y = YSched \<or> y = YIn" "state_of x y = (if y = YSched then RUNNABLE else RUNNING)"
    "x \<noteq> SleepA" "x \<noteq> SleepB" "x \<noteq> SleepC" "x \<noteq> SleepD" "x \<noteq> SleepE"
  using assms by (auto simp: calm_def has_cond_def has_own_def state_of_def)

lemma yield_code_safe:
  assumes inv: "sched_inv n ch m" and on: "cpc m c = Away p" "wpc m c = WIdle" and y: "ypc m p \<in> {YAcq, YIn, YRet}"
  shows "safe n ch (yield_step c p m)"
proof -
  have i: "place_inv n m" "wake_inv n ch m" using inv by (simp_all add: sched_inv_def)
  note cpu = cpu_facts [OF inv, of c] depth_proc [OF on]
  note st = place_invD(3) [OF i(1) on(1)]
  have x: "calm (ppc m p)" using place_invD(5) [OF i(1), of p] y by auto
  note q = calm_facts [OF x] x same_cpus_def same_procs_def lk_trans_def committed_def on
  consider (YAcq) "ypc m p = YAcq" | (YIn) "ypc m p = YIn" | (YRet) "ypc m p = YRet" using y by auto
  then show ?thesis
  proof cases
    case YAcq
    have "\<not> pown m c p" using YAcq on by (simp add: pown_def q)
    with inv show ?thesis
    proof (cases rule: lock_p_cases)
      case 2
      have "sched_inv n ch (m\<lparr>plock := (plock m)(p := \<lparr>locked = True, lcpu = Some c\<rparr>), cpus := (cpus m)(c := push_off (cpus m c)),
          pst := (pst m)(p := RUNNABLE), ypc := (ypc m)(p := YSched)\<rparr>)"
        using 2 YAcq cpu st push_off_ok by (intro proc_step_inv [OF inv on]) (simp_all add: q)
      then show ?thesis using 2 by (simp add: yield_step_def YAcq)
    qed (simp add: yield_step_def YAcq)
  next
    case YIn
    let ?m = "sched_ret c p m"
    obtain z where z: "unlock_p c p ?m = Ok (?m\<lparr>plock := (plock ?m)(p := \<lparr>locked = False, lcpu = None\<rparr>), cpus := (cpus ?m)(c := z)\<rparr>)"
        "cpu_ok z" "noff z = depth m c - 1"
      using YIn cpu
      by (elim unlock_p_own [OF inv, of c p ?m "pintena m p", rotated 4]) (simp_all add: pown_def q sched_ret_def)
    have "sched_inv n ch (?m\<lparr>plock := (plock ?m)(p := \<lparr>locked = False, lcpu = None\<rparr>), cpus := (cpus ?m)(c := z), ypc := (ypc ?m)(p := YRet)\<rparr>)"
      using z YIn cpu st by (intro proc_step_inv [OF inv on]) (simp_all add: q sched_ret_def)
    then show ?thesis using z(1) by (simp add: yield_step_def YIn)
  next
    case YRet
    have "sched_inv n ch (m\<lparr>cpus := (cpus m)(c := (cpus m c)\<lparr>sie := True\<rparr>), ypc := (ypc m)(p := YIdle)\<rparr>)"
      using YRet cpu st by (intro proc_step_inv [OF inv on]) (simp_all add: q cpu_ok_def)
    then show ?thesis by (simp add: yield_step_def YRet)
  qed
qed

section \<open>Switching\<close>

text \<open>\<open>sched\<close> passes its checks, and leaves the process where it can be resumed.\<close>

lemma sched_passes:
  assumes inv: "sched_inv n ch m" and on: "cpc m c = Away p" "wpc m c = WIdle"
    and own: "has_own (ppc m p) (ypc m p)" "\<not> has_cond (ppc m p)" "state_of (ppc m p) (ypc m p) \<noteq> RUNNING"
  shows "sched c p m = Ok (m\<lparr>pintena := (pintena m)(p := intena (cpus m c)), cpc := (cpc m)(c := Back p)\<rparr>)"
proof -
  have i: "locks_inv m" "place_inv n m" using inv by (simp_all add: sched_inv_def)
  have "lcpu (plock m p) = Some c" "locked (plock m p)"
    using i(1) on own(1) by (auto simp: locks_inv_def pown_def wf_lock_def)
  moreover have "depth m c = 1" using depth_proc [OF on] own by simp
  moreover have "pst m p \<noteq> RUNNING" using place_invD(3) [OF i(2) on(1)] own(3) by simp
  ultimately show ?thesis using cpu_facts [OF inv, of c] by (simp add: sched_def holding_def cpu_ok_def)
qed

lemma switch_out_inv:
  assumes inv: "sched_inv n ch m" and on: "cpc m c = Away p" "wpc m c = WIdle"
    and own: "has_own (ppc m p) (ypc m p)" "\<not> has_cond (ppc m p)"
    and x: "x' \<notin> {SleepA, SleepB, SleepC, SleepD}" "y' = YIn \<and> calm x' \<or> y' = YIdle \<and> x' = SleepE"
    and slp: "pst m p = SLEEPING \<Longrightarrow> x' = SleepE \<and> y' = YIdle"
  shows "sched_inv n ch (m\<lparr>pintena := b, cpc := (cpc m)(c := Back p), ppc := (ppc m)(p := x'), ypc := (ypc m)(p := y')\<rparr>)"
    (is "sched_inv n ch ?m")
proof -
  have i: "locks_inv m" "place_inv n m" "wake_inv n ch m" using inv by (simp_all add: sched_inv_def)
  note pi = place_invD [OF i(2)]
  have alone: "cpc m d \<noteq> Away p" if "d \<noteq> c" for d using pi(1) on(1) that by blast
  have l: "local_step c {p} m ?m" using alone by (intro local_stepI) (auto simp: same_cpus_def same_procs_def)
  have "cown m c = False" "cown ?m c = False" "pown m c q = (q = p)" "pown ?m c q = (q = p)" "depth ?m c = 1" "noff (cpus m c) = 1" for q
    using on own cpu_facts(2) [OF inv, of c] depth_proc [OF on] by (auto simp: cown_def pown_def depth_def scans_def)
  then have "locks_inv ?m"
    by (intro locks_local [OF i(1) l]) (simp_all add: lk_trans_def cpu_facts(1) [OF inv])
  moreover have "place_inv n ?m"
    by (rule place_local [OF i(2) l]) (use x on in \<open>auto simp: resumable_def\<close>)
  moreover have "wake_inv n ch ?m"
  proof (rule wake_local [OF i(3), of "{p}"])
    show "same_procs {p} m ?m" by (simp add: same_procs_def)
    show "q < n \<and> (ppc ?m q = SleepD \<or> ppc ?m q = SleepE) \<and> pchan ?m q = ch \<and> ypc ?m q = YIdle" if "q \<in> {p}" "pst ?m q = SLEEPING" for q
      using that slp wake_invD(1,3) [OF i(3), of p] by simp
    show "committed m q" if "q \<in> {p}" "committed ?m q" for q using that x(1) by (auto simp: committed_def)
  qed (use x(1) in auto)
  ultimately show ?thesis by (simp add: sched_inv_def)
qed

lemma switch_out_safe:
  assumes inv: "sched_inv n ch m" and on: "cpc m c = Away p" "wpc m c = WIdle"
  shows "ypc m p = YSched \<Longrightarrow> safe n ch (yield_step c p m)"
    and "ypc m p = YIdle \<Longrightarrow> ppc m p = SleepD \<Longrightarrow> safe n ch (sleep_step ch c p m)"
proof -
  have i: "place_inv n m" using inv by (simp add: sched_inv_def)
  note st = place_invD(3) [OF i on(1)]
  let ?b = "(pintena m)(p := intena (cpus m c))"
  show "safe n ch (yield_step c p m)" if y: "ypc m p = YSched"
  proof -
    have "calm (ppc m p)" using place_invD(5) [OF i, of p] y by simp
    note q = calm_facts [OF this] this
    have "sched_inv n ch (m\<lparr>pintena := ?b, cpc := (cpc m)(c := Back p), ppc := (ppc m)(p := ppc m p), ypc := (ypc m)(p := YIn)\<rparr>)"
      using st by (intro switch_out_inv [OF inv on]) (simp_all add: q y)
    then show ?thesis using sched_passes [OF inv on] by (simp add: yield_step_def y q)
  qed
  show "safe n ch (sleep_step ch c p m)" if x: "ypc m p = YIdle" "ppc m p = SleepD"
  proof -
    have "sched_inv n ch (m\<lparr>pintena := ?b, cpc := (cpc m)(c := Back p), ppc := (ppc m)(p := SleepE), ypc := (ypc m)(p := ypc m p)\<rparr>)"
      by (intro switch_out_inv [OF inv on]) (simp_all add: x has_own_def has_cond_def)
    moreover have "(ypc m)(p := YIdle) = ypc m" using x(1) by (intro fun_upd_idem) simp
    ultimately show ?thesis using sched_passes [OF inv on] by (simp add: sleep_step_def x has_own_def has_cond_def state_of_def)
  qed
qed

section \<open>Steps of the scheduler\<close>

lemma free_lock: "wf_lock l \<Longrightarrow> lcpu l = None \<Longrightarrow> l = \<lparr>locked = False, lcpu = None\<rparr>"
  by (cases l) (simp add: wf_lock_def)

lemma lock_unlock_p:
  assumes "sched_inv n ch m" "lcpu (plock m p) = None"
    and "plock m2 = (plock m)(p := \<lparr>locked = True, lcpu = Some c\<rparr>)" "cpus m2 = (cpus m)(c := push_off (cpus m c))"
  obtains z where "unlock_p c p m2 = Ok (m2\<lparr>plock := plock m, cpus := (cpus m)(c := z)\<rparr>)" "cpu_ok z" "noff z = noff (cpus m c)"
proof -
  have "cpu_ok (push_off (cpus m c))" "0 \<le> noff (cpus m c)"
    using cpu_facts(1) [OF assms(1), of c] push_off_ok [of "cpus m c"] by (auto simp: cpu_ok_def)
  then obtain z where "unlock_p c p m2 = Ok (m2\<lparr>plock := (plock m2)(p := \<lparr>locked = False, lcpu = None\<rparr>), cpus := (cpus m2)(c := z)\<rparr>)"
      "cpu_ok z" "noff z = noff (cpus m2 c) - 1"
    using unlock_p_spec [of m2 p c] assms(3,4) by auto
  moreover have "plock m p = \<lparr>locked = False, lcpu = None\<rparr>"
    using assms(1,2) by (intro free_lock) (simp_all add: sched_inv_def locks_inv_def)
  then have "(plock m2)(p := \<lparr>locked = False, lcpu = None\<rparr>) = plock m" using assms(3) by (metis fun_upd_triv fun_upd_upd)
  ultimately show ?thesis using assms(4) by (intro that [of z]) simp_all
qed

text \<open>A CPU that stays in its scheduler.\<close>

definition idle :: "spc \<Rightarrow> bool" where
  "idle x \<longleftrightarrow> x = Top \<or> x = Open \<or> (\<exists>p. x = Scan p)"

lemma scheduler_step_inv:
  assumes inv: "sched_inv n ch m" and "wpc m c = WIdle" "\<And>p. cpc m c \<noteq> Away p" and x: "idle x"
    and cpu: "cpu_ok z" "noff z = 0"
    and lk: "\<And>q. lk_trans c (cpc m c = Back q) False (plock m q) (l q)"
  shows "sched_inv n ch (m\<lparr>plock := l, cpus := (cpus m)(c := z), cpc := (cpc m)(c := x)\<rparr>)" (is "sched_inv n ch ?m")
proof -
  have i: "locks_inv m" "place_inv n m" "wake_inv n ch m" using inv by (simp_all add: sched_inv_def)
  have na: "x \<noteq> Away q" "x \<noteq> Back q" for q using x by (auto simp: idle_def)
  have l: "local_step c {} m ?m" by (intro local_stepI) (auto simp: same_cpus_def same_procs_def)
  have own: "cown m c = False" "cown ?m c = False" "pown m c q = (cpc m c = Back q)" "pown ?m c q = False" for q
    using assms(2,3) na by (auto simp: cown_def pown_def scans_def)
  have "depth ?m c = 0" using assms(2) na by (simp add: depth_def scans_def split: spc.split)
  then have "locks_inv ?m" using lk cpu own by (intro locks_local [OF i(1) l]) simp_all
  moreover have "place_inv n ?m"
    by (rule place_local [OF i(2) l]) (use assms(2,3) na in simp_all)
  moreover have "wake_inv n ch ?m"
    by (rule wake_local [OF i(3), of "{}"]) (simp_all add: same_procs_def)
  ultimately show ?thesis by (simp add: sched_inv_def)
qed

text \<open>A CPU that switches to a process.\<close>

lemma switch_in_inv:
  assumes inv: "sched_inv n ch m" and on: "wpc m c = WIdle" "cpc m c = Scan p" "p < n" "lcpu (plock m p) = None" "pst m p = RUNNABLE"
  shows "sched_inv n ch (m\<lparr>plock := (plock m)(p := \<lparr>locked = True, lcpu = Some c\<rparr>), cpus := (cpus m)(c := push_off (cpus m c)),
    pst := (pst m)(p := RUNNING), cpc := (cpc m)(c := Away p)\<rparr>)" (is "sched_inv n ch ?m")
proof -
  have i: "locks_inv m" "place_inv n m" "wake_inv n ch m" using inv by (simp_all add: sched_inv_def)
  note pi = place_invD [OF i(2)]
  have off: "cpc m d \<noteq> Away p" for d
  proof
    assume d: "cpc m d = Away p"
    then have "ypc m p = YSched" using pi(3) [OF d] on(5) by (simp add: state_of_def split: if_splits)
    then have "pown m d p" using d by (simp add: pown_def has_own_def)
    then have "lcpu (plock m p) = Some d" using i(1) by (auto simp: locks_inv_def)
    then show False using on(4) by simp
  qed
  have r: "resumable m p" using pi(4) off by blast
  have p: "has_own (ppc m p) (ypc m p)" "\<not> has_cond (ppc m p)" "state_of (ppc m p) (ypc m p) = RUNNING"
    using r pi(5) [of p] by (auto simp: resumable_def has_own_def has_cond_def state_of_def calm_def)
  have l: "local_step c {p} m ?m" using off by (intro local_stepI) (auto simp: same_cpus_def same_procs_def local_step_def)
  have "locks_inv ?m"
  proof (rule locks_local [OF i(1) l])
    show "cpu_ok (cpus ?m c)" "noff (cpus ?m c) = depth ?m c"
      using cpu_facts [OF inv, of c] push_off_ok on(1,2) p by (auto simp: depth_def scans_def)
    show "lk_trans c (cown m c) (cown ?m c) (condlk m) (condlk ?m)"
      using on(1,2) p by (simp add: cown_def scans_def)
    show "lk_trans c (pown m c q) (pown ?m c q) (plock m q) (plock ?m q)" for q
      using on(2,4) p(1) by (auto simp: pown_def lk_trans_def)
  qed
  moreover have "place_inv n ?m"
    by (rule place_local [OF i(2) l]) (use on off p pi(5) in auto)
  moreover have "wake_inv n ch ?m"
    by (rule wake_local [OF i(3), of "{p}"]) (use r pi(5) [of p] in \<open>auto simp: same_procs_def committed_def resumable_def calm_def\<close>)
  ultimately show ?thesis by (simp add: sched_inv_def)
qed

lemma scheduler_safe:
  assumes inv: "sched_inv n ch m" and on: "wpc m c = WIdle" "\<And>p. cpc m c \<noteq> Away p"
  shows "safe n ch (scheduler_step n c m)"
proof -
  note cpu = cpu_facts [OF inv, of c]
  note next_inv = scheduler_step_inv [OF inv on]
  show ?thesis
  proof (cases "cpc m c")
    case Top
    have "sched_inv n ch (m\<lparr>plock := plock m, cpus := (cpus m)(c := (cpus m c)\<lparr>sie := True\<rparr>), cpc := (cpc m)(c := Open)\<rparr>)"
      using cpu on Top by (intro next_inv) (simp_all add: idle_def depth_def scans_def cpu_ok_def)
    then show ?thesis by (simp add: scheduler_step_def Top)
  next
    case Open
    have "sched_inv n ch (m\<lparr>plock := plock m, cpus := (cpus m)(c := (cpus m c)\<lparr>sie := False\<rparr>), cpc := (cpc m)(c := Scan 0)\<rparr>)"
      using cpu on Open by (intro next_inv) (simp_all add: idle_def depth_def scans_def cpu_ok_def)
    then show ?thesis by (simp add: scheduler_step_def Open)
  next
    case (Scan p)
    have d: "depth m c = 0" using on(1) Scan by (simp add: depth_def scans_def)
    show ?thesis
    proof (cases "p < n")
      case False
      have "sched_inv n ch (m\<lparr>plock := plock m, cpus := (cpus m)(c := cpus m c), cpc := (cpc m)(c := Top)\<rparr>)"
        using cpu d Scan by (intro next_inv) (simp_all add: idle_def)
      then show ?thesis using False by (simp add: scheduler_step_def Scan)
    next
      case True
      have "\<not> pown m c p" using Scan by (simp add: pown_def)
      with inv show ?thesis
      proof (cases rule: lock_p_cases)
        case 2
        let ?m = "m\<lparr>plock := (plock m)(p := \<lparr>locked = True, lcpu = Some c\<rparr>), cpus := (cpus m)(c := push_off (cpus m c))\<rparr>"
        obtain z where z: "unlock_p c p ?m = Ok (?m\<lparr>plock := plock m, cpus := (cpus m)(c := z)\<rparr>)" "cpu_ok z" "noff z = noff (cpus m c)"
          using lock_unlock_p [OF inv 2(1), of ?m] by auto
        have "sched_inv n ch (m\<lparr>plock := plock m, cpus := (cpus m)(c := z), cpc := (cpc m)(c := Scan (Suc p))\<rparr>)"
          using z cpu d Scan by (intro next_inv) (simp_all add: idle_def)
        then show ?thesis using 2 z(1) True switch_in_inv [OF inv on(1) Scan True 2(1)] by (simp add: scheduler_step_def Scan)
      qed (simp add: scheduler_step_def Scan True)
    qed
  next
    case (Back p)
    obtain z where z: "unlock_p c p m = Ok (m\<lparr>plock := (plock m)(p := \<lparr>locked = False, lcpu = None\<rparr>), cpus := (cpus m)(c := z)\<rparr>)"
        "cpu_ok z" "noff z = depth m c - 1"
      using Back on by (elim unlock_p_own [OF inv, of c p m "intena (cpus m c)", rotated 4]) (auto simp: pown_def depth_def)
    have "sched_inv n ch (m\<lparr>plock := (plock m)(p := \<lparr>locked = False, lcpu = None\<rparr>), cpus := (cpus m)(c := z), cpc := (cpc m)(c := Scan (Suc p))\<rparr>)"
      using z Back on by (intro next_inv) (simp_all add: idle_def depth_def scans_def lk_trans_def)
    then show ?thesis using z(1) by (simp add: scheduler_step_def Back)
  qed (use on(2) in simp)
qed

section \<open>Handlers\<close>

lemma interrupted_facts:
  assumes "interrupted m c"
  shows "cown m c = scans (wpc m c)" "pown m c q = False" "depth m c = of_bool (scans (wpc m c))"
  using assms by (auto simp: interrupted_def cown_def pown_def depth_def calm_facts split: spc.splits)

lemma handler_inv:
  assumes inv: "sched_inv n ch m" and int: "interrupted m c"
    and same: "same_cpus c m m'" "cpc m' = cpc m" "ppc m' = ppc m" "ypc m' = ypc m" "plock m' = plock m"
    and st: "\<And>d q. cpc m d = Away q \<Longrightarrow> pst m' q = pst m q"
    and cpu: "cpu_ok (cpus m' c)" "noff (cpus m' c) = of_bool (scans (wpc m' c))"
    and lk: "lk_trans c (scans (wpc m c)) (scans (wpc m' c)) (condlk m) (condlk m')"
    and wake: "wake_inv n ch m'"
  shows "sched_inv n ch m'"
proof -
  have i: "locks_inv m" "place_inv n m" using inv by (simp_all add: sched_inv_def)
  note pi = place_invD [OF i(2)]
  have l: "local_step c {} m m'" using same by (simp add: local_step_def same_cpus_def)
  have int': "interrupted m' c" using int same by (simp add: interrupted_def split: spc.splits)
  have "locks_inv m'"
    using cpu lk same(5) interrupted_facts [OF int] interrupted_facts [OF int']
    by (intro locks_local [OF i(1) l]) simp_all
  moreover have "place_inv n m'"
    by (rule place_local [OF i(2) l]) (use same st pi(1,2,3) int' in \<open>auto simp: resumable_def\<close>)
  ultimately show ?thesis using wake by (simp add: sched_inv_def)
qed

lemma not_committed:
  assumes "sched_inv n ch m" "cpc m c = Away p" "calm (ppc m p)" "ypc m p = YIdle"
  shows "\<not> committed m p"
  using place_invD(3) [of n m c p] assms by (auto simp: sched_inv_def committed_def calm_facts)

lemma running:
  assumes "sched_inv n ch m" "\<not> calm (ppc m p)" "ppc m p \<noteq> SleepE" "ppc m p \<noteq> PStart"
  shows "\<exists>c. cpc m c = Away p"
proof -
  have i: "place_inv n m" using assms(1) by (simp add: sched_inv_def)
  have "\<not> resumable m p" using place_invD(5) [OF i, of p] assms(2-4) by (auto simp: resumable_def)
  then show ?thesis using place_invD(4) [OF i, of p] by blast
qed

lemma committed_bound:
  assumes "sched_inv n ch m" "committed m p"
  shows "p < n"
proof (cases "pst m p = SLEEPING")
  case True
  then show ?thesis using assms(1) wake_invD(1) by (auto simp: sched_inv_def)
next
  case False
  then have "ppc m p = SleepC \<or> ppc m p = SleepD" using assms(2) by (simp add: committed_def)
  then obtain c where "cpc m c = Away p" using running [OF assms(1), of p] by (auto simp: calm_def)
  then show ?thesis using assms(1) place_invD(2) by (auto simp: sched_inv_def)
qed

text \<open>A process between taking the lock of the condition and giving it up runs on the CPU that holds it.\<close>

lemma before_sleep_holds:
  assumes "sched_inv n ch m" "has_cond (ppc m p)"
  shows "\<exists>c. lcpu (condlk m) = Some c"
proof -
  obtain c where "cpc m c = Away p" using running [OF assms(1), of p] assms(2) by (auto simp: calm_def has_cond_def)
  then have "cown m c" using assms(2) by (auto simp: cown_def)
  then show ?thesis using assms(1) by (auto simp: sched_inv_def locks_inv_def)
qed

text \<open>A process that holds its own lock is not one a waker can look at.\<close>

lemma committed_unlocked:
  assumes "sched_inv n ch m" "committed m p" "lcpu (plock m p) = None"
  shows "pst m p = SLEEPING" "ppc m p = SleepE"
proof -
  have "ppc m p \<noteq> SleepC \<and> ppc m p \<noteq> SleepD"
  proof (rule ccontr)
    assume x: "\<not> ?thesis"
    then obtain c where "cpc m c = Away p" using running [OF assms(1), of p] by (auto simp: calm_def)
    then have "pown m c p" using x by (auto simp: pown_def has_own_def)
    then have "lcpu (plock m p) = Some c" using assms(1) by (auto simp: sched_inv_def locks_inv_def)
    then show False using assms(3) by simp
  qed
  then show "pst m p = SLEEPING" "ppc m p = SleepE"
    using assms(1,2) wake_invD(2) [of n ch m p] by (auto simp: committed_def sched_inv_def)
qed

text \<open>A waker that has dealt with one process goes on to the next.\<close>

lemma scan_next:
  assumes inv: "sched_inv n ch m" and w: "wpc m c = WScan p" and int: "interrupted m c"
    and cpu: "cpu_ok z" "noff z = noff (cpus m c)"
    and st: "\<And>q. q \<noteq> p \<Longrightarrow> st q = pst m q" "st p = pst m p \<or> pst m p = SLEEPING \<and> st p = RUNNABLE"
    and un: "\<And>d. cpc m d = Away p \<Longrightarrow> st p = pst m p" "\<not> committed (m\<lparr>pst := st\<rparr>) p"
  shows "sched_inv n ch (m\<lparr>pst := st, cpus := (cpus m)(c := z), wpc := (wpc m)(c := WScan (Suc p))\<rparr>)" (is "sched_inv n ch ?m")
proof (rule handler_inv [OF inv int])
  have i: "wake_inv n ch m" using inv by (simp add: sched_inv_def)
  note wi = wake_invD [OF i]
  have s: "pst m q = SLEEPING" if "st q = SLEEPING" for q using that st by (cases "q = p") auto
  have com: "committed m q \<and> q \<noteq> p" if "committed ?m q" for q
    using that un(2) s by (cases "q = p") (auto simp: committed_def)
  have "\<exists>d i. wpc ?m d = WScan i \<and> i \<le> q" if "cond m" "committed ?m q" for q
  proof -
    have "\<exists>d i. wpc m d = WScan i \<and> i \<le> q" using wi(6) [OF that(1)] com [OF that(2)] by blast
    then obtain d i where "wpc m d = WScan i" "i \<le> q" by blast
    then show ?thesis using com [OF that(2)] w by (cases "d = c") (auto intro: exI [of _ c] exI [of _ d])
  qed
  then show "wake_inv n ch ?m" using wi(1-5) s unfolding wake_inv_def by auto
  show "pst ?m q = pst m q" if "cpc m d = Away q" for d q using that st(1) un(1) by (cases "q = p") auto
  show "noff (cpus ?m c) = of_bool (scans (wpc ?m c))"
    using cpu(2) cpu_facts(2) [OF inv, of c] interrupted_facts(3) [OF int] w by (simp add: scans_def)
  show "lk_trans c (scans (wpc m c)) (scans (wpc ?m c)) (condlk m) (condlk ?m)" using w by (simp add: lk_trans_def scans_def)
qed (use cpu in \<open>simp_all add: same_cpus_def\<close>)

lemma wakeup_scan_safe:
  assumes inv: "sched_inv n ch m" and w: "wpc m c = WScan p" and p: "p < n" and int: "interrupted m c"
  shows "safe n ch (wakeup_step n ch c m)"
proof (cases "my_proc c m = Some p")
  case True
  then have on: "cpc m c = Away p" "calm (ppc m p)" "ypc m p = YIdle"
    using int by (auto simp: my_proc_def interrupted_def split: spc.splits)
  have "sched_inv n ch (m\<lparr>pst := pst m, cpus := (cpus m)(c := cpus m c), wpc := (wpc m)(c := WScan (Suc p))\<rparr>)"
    using not_committed [OF inv on] cpu_facts [OF inv, of c] by (intro scan_next [OF inv w int]) simp_all
  then show ?thesis using True w p by (simp add: wakeup_step_def)
next
  case False
  have "\<not> pown m c p" using interrupted_facts(2) [OF int] by simp
  with inv show ?thesis
  proof (cases rule: lock_p_cases)
    case 2
    let ?m = "m\<lparr>plock := (plock m)(p := \<lparr>locked = True, lcpu = Some c\<rparr>), cpus := (cpus m)(c := push_off (cpus m c))\<rparr>"
    define sl where "sl \<longleftrightarrow> pst m p = SLEEPING \<and> pchan m p = ch"
    define m2 where "m2 = (if sl then ?m\<lparr>pst := (pst m)(p := RUNNABLE)\<rparr> else ?m)"
    have wi: "pst m p = SLEEPING \<Longrightarrow> sl" using inv wake_invD(3) by (auto simp: sched_inv_def sl_def)
    have st: "pst m2 = (if pst m p = SLEEPING then (pst m)(p := RUNNABLE) else pst m)" using wi by (auto simp: m2_def sl_def)
    obtain z where z: "unlock_p c p m2 = Ok (m2\<lparr>plock := plock m, cpus := (cpus m)(c := z)\<rparr>)" "cpu_ok z" "noff z = noff (cpus m c)"
      by (rule lock_unlock_p [OF inv 2(1), of m2 c]) (auto simp: m2_def)
    have away: "pst m p \<noteq> SLEEPING" if "cpc m d = Away p" for d
      using that committed_unlocked(2) [OF inv _ 2(1)] place_invD(3) [of n m d p] inv
      by (auto simp: sched_inv_def committed_def state_of_def split: if_splits)
    have "sched_inv n ch (m\<lparr>pst := pst m2, cpus := (cpus m)(c := z), wpc := (wpc m)(c := WScan (Suc p))\<rparr>)"
    proof (rule scan_next [OF inv w int z(2,3)])
      show "\<not> committed (m\<lparr>pst := pst m2\<rparr>) p"
        using st committed_unlocked(2) [OF inv _ 2(1)] by (auto simp: committed_def split: if_splits)
    qed (use st away in auto)
    moreover have "m2\<lparr>plock := plock m, cpus := (cpus m)(c := z), wpc := (wpc m)(c := WScan (Suc p))\<rparr> =
        m\<lparr>pst := pst m2, cpus := (cpus m)(c := z), wpc := (wpc m)(c := WScan (Suc p))\<rparr>"
      by (simp add: m2_def)
    moreover have "wakeup_step n ch c m = obind (unlock_p c p m2) (\<lambda>m3. Ok (m3\<lparr>wpc := (wpc m3)(c := WScan (Suc p))\<rparr>))"
      using 2 False w p by (simp add: wakeup_step_def m2_def sl_def Let_def)
    ultimately show ?thesis using z(1) by (simp add: m2_def split: if_splits)
  qed (use False w p in \<open>simp add: wakeup_step_def\<close>)
qed

lemma wakeup_safe:
  assumes inv: "sched_inv n ch m" and w: "wpc m c \<noteq> WIdle"
  shows "safe n ch (wakeup_step n ch c m)"
proof -
  have i: "place_inv n m" "wake_inv n ch m" using inv by (simp_all add: sched_inv_def)
  have int: "interrupted m c" by (rule place_invD(6) [OF i(1) w])
  note cpu = cpu_facts [OF inv, of c] interrupted_facts(3) [OF int]
  note wi = wake_invD [OF i(2)]
  show ?thesis
  proof (cases "wpc m c")
    case WAcq
    have "\<not> cown m c" using interrupted_facts(1) [OF int] WAcq by (simp add: scans_def)
    with inv show ?thesis
    proof (cases rule: lock_c_cases)
      case 2
      have none: "ppc m p \<noteq> SleepA \<and> ppc m p \<noteq> SleepB" for p
        using before_sleep_holds [OF inv, of p] 2(1) by (auto simp: has_cond_def)
      let ?m = "m\<lparr>condlk := \<lparr>locked = True, lcpu = Some c\<rparr>, cpus := (cpus m)(c := push_off (cpus m c)), cond := True, wpc := (wpc m)(c := WScan 0)\<rparr>"
      have "sched_inv n ch ?m"
      proof (rule handler_inv [OF inv int])
        show "wake_inv n ch ?m" using wi(1-4) none unfolding wake_inv_def by auto
        show "cpu_ok (cpus ?m c)" "noff (cpus ?m c) = of_bool (scans (wpc ?m c))"
          using cpu push_off_ok WAcq by (auto simp: scans_def)
        show "lk_trans c (scans (wpc m c)) (scans (wpc ?m c)) (condlk m) (condlk ?m)"
          using WAcq 2(1) by (simp add: lk_trans_def scans_def)
      qed (simp_all add: same_cpus_def)
      then show ?thesis using 2(2) WAcq by (simp add: wakeup_step_def)
    qed (simp add: wakeup_step_def WAcq)
  next
    case (WScan p)
    show ?thesis
    proof (cases "p < n")
      case False
      obtain z where z: "unlock_c c m = Ok (m\<lparr>condlk := \<lparr>locked = False, lcpu = None\<rparr>, cpus := (cpus m)(c := z)\<rparr>)"
          "cpu_ok z" "noff z = depth m c - 1"
        using WScan cpu interrupted_facts(1) [OF int] by (elim unlock_c_own [OF inv, of c, rotated 2]) (auto simp: scans_def)
      let ?m = "m\<lparr>condlk := \<lparr>locked = False, lcpu = None\<rparr>, cpus := (cpus m)(c := z), wpc := (wpc m)(c := WRet)\<rparr>"
      have "sched_inv n ch ?m"
      proof (rule handler_inv [OF inv int])
        have "\<exists>d i. wpc ?m d = WScan i \<and> i \<le> q" if q: "cond m" "committed m q" for q
        proof -
          obtain d i where d: "wpc m d = WScan i" "i \<le> q" using wi(6) [OF q] by blast
          then have "d \<noteq> c" using WScan False committed_bound [OF inv q(2)] by auto
          then show ?thesis using d by auto
        qed
        then show "wake_inv n ch ?m" using wi(1-5) unfolding wake_inv_def by (auto simp: committed_def)
        show "cpu_ok (cpus ?m c)" "noff (cpus ?m c) = of_bool (scans (wpc ?m c))"
          using z(2,3) cpu WScan by (simp_all add: scans_def)
        show "lk_trans c (scans (wpc m c)) (scans (wpc ?m c)) (condlk m) (condlk ?m)"
          using WScan by (simp add: lk_trans_def scans_def)
      qed (simp_all add: same_cpus_def)
      then show ?thesis using z(1) WScan False by (simp add: wakeup_step_def)
    qed (rule wakeup_scan_safe [OF inv WScan _ int])
  next
    case WRet
    let ?m = "m\<lparr>cpus := (cpus m)(c := (cpus m c)\<lparr>sie := True\<rparr>), wpc := (wpc m)(c := WIdle)\<rparr>"
    have "sched_inv n ch ?m"
    proof (rule handler_inv [OF inv int])
      show "wake_inv n ch ?m"
        by (rule wake_local [OF i(2), of "{}"]) (use WRet in \<open>auto simp: same_procs_def\<close>)
    qed (use cpu WRet in \<open>auto simp: same_cpus_def scans_def lk_trans_def cpu_ok_def\<close>)
    then show ?thesis using WRet by (simp add: wakeup_step_def)
  qed (use w in simp)
qed

lemma cpu_step_safe:
  assumes inv: "sched_inv n ch m"
  shows "safe n ch (cpu_step n ch c m)"
proof (cases "wpc m c = WIdle")
  case True
  show ?thesis
  proof (cases "cpc m c")
    case (Away p)
    note on = inv Away True
    show ?thesis
    proof (cases "ypc m p = YIdle")
      case y: True
      have "safe n ch (sleep_step ch c p m)"
        using sleep_code_safe [OF on y] client_code_safe [OF on y] switch_out_safe(2) [OF on y] inv
        by (cases "ppc m p") (simp_all add: sleep_step_def)
      then show ?thesis using True Away y by (simp add: cpu_step_def)
    next
      case False
      then have "safe n ch (yield_step c p m)"
        using yield_code_safe [OF on] switch_out_safe(1) [OF on] by (cases "ypc m p") simp_all
      then show ?thesis using True Away False by (simp add: cpu_step_def)
    qed
  qed (use scheduler_safe [OF inv True] True in \<open>simp_all add: cpu_step_def\<close>)
qed (use wakeup_safe [OF inv] in \<open>simp add: cpu_step_def\<close>)

section \<open>Interrupts\<close>

text \<open>With interrupts on the CPU holds no lock.\<close>

lemma lockless_calm: "\<not> has_cond x \<Longrightarrow> \<not> has_own x y \<Longrightarrow> calm x"
  by (cases x) (simp_all add: has_cond_def has_own_def calm_def)

lemma in_main_calm:
  assumes inv: "sched_inv n ch m" and "in_main c m" "sie (cpus m c)"
  shows "interrupted m c"
proof -
  have "depth m c = 0" using cpu_facts [OF inv, of c] assms(3) by (auto simp: cpu_ok_def)
  then show ?thesis
    using assms(2) lockless_calm
    by (cases "cpc m c") (auto simp: interrupted_def in_main_def depth_def scans_def of_bool_def split: if_splits)
qed

text \<open>A handler that begins.\<close>

lemma handler_start:
  assumes inv: "sched_inv n ch m" and int: "interrupted m c" "wpc m c = WIdle"
    and z: "cpu_ok z" "noff z = noff (cpus m c)"
  shows "sched_inv n ch (m\<lparr>cpus := (cpus m)(c := z), wpc := (wpc m)(c := WAcq)\<rparr>)" (is "sched_inv n ch ?m")
proof (rule handler_inv [OF inv int(1)])
  have "wake_inv n ch m" using inv by (simp add: sched_inv_def)
  then show "wake_inv n ch ?m"
    by (rule wake_local [where P = "{}"]) (use int(2) in \<open>auto simp: same_procs_def\<close>)
  show "noff (cpus ?m c) = of_bool (scans (wpc ?m c))"
    using z cpu_facts(2) [OF inv, of c] interrupted_facts(3) [OF int(1)] int(2) by (simp add: scans_def)
qed (use int(2) z(1) in \<open>simp_all add: same_cpus_def scans_def\<close>)

lemma sched_inv_step:
  assumes "sched_step n ch m m1" and inv: "sched_inv n ch m"
  shows "sched_inv n ch m1"
  using assms(1)
proof cases
  case (run c)
  then show ?thesis using cpu_step_safe [OF inv, of c] by simp
next
  case (device c)
  then show ?thesis
    using handler_start [OF inv in_main_calm [OF inv], of c "(cpus m c)\<lparr>sie := False\<rparr>"] cpu_facts(1) [OF inv, of c]
    by (simp add: in_main_def cpu_ok_def)
next
  case (timer c p)
  have int: "interrupted m c" by (rule in_main_calm [OF inv timer(2,3)])
  then have x: "calm (ppc m p)" "ypc m p = YIdle" "wpc m c = WIdle" using timer by (auto simp: interrupted_def in_main_def)
  note q = calm_facts [OF x(1)] x
  show ?thesis unfolding timer(1)
    using q cpu_facts [OF inv, of c] depth_proc [OF timer(4) x(3)] place_invD(3) [of n m c p] inv timer(4)
    by (intro proc_step_inv [OF inv timer(4) x(3)])
      (simp_all add: same_cpus_def same_procs_def cpu_ok_def lk_trans_def committed_def sched_inv_def)
next
  case (announce c p)
  have "interrupted m c" "wpc m c = WIdle" using announce by (auto simp: interrupted_def in_main_def calm_def)
  then have "sched_inv n ch (m\<lparr>cpus := (cpus m)(c := cpus m c), wpc := (wpc m)(c := WAcq)\<rparr>)"
    using handler_start [OF inv, of c "cpus m c"] cpu_facts(1) [OF inv, of c] by simp
  then show ?thesis using announce(1) by simp
next
  case (await c p)
  have x: "ypc m p = YIdle" "wpc m c = WIdle" using await by (auto simp: in_main_def)
  show ?thesis unfolding await(1)
    using x await cpu_facts [OF inv, of c] depth_proc [OF await(3) x(2)] place_invD(3) [of n m c p] inv
    by (intro proc_step_inv [OF inv await(3) x(2)])
      (simp_all add: same_cpus_def same_procs_def lk_trans_def committed_def sched_inv_def has_cond_def has_own_def state_of_def)
qed

section \<open>Properties\<close>

text \<open>After \<open>procinit\<close> and \<open>userinit\<close>: every CPU at the head of its scheduler, every process unused or ready to start.\<close>

definition sched_init :: "smach \<Rightarrow> bool" where
  "sched_init m \<longleftrightarrow> condlk m = initlock \<and>
     (\<forall>p. plock m p = initlock \<and> pst m p \<in> {UNUSED, RUNNABLE} \<and> ppc m p = PStart \<and> ypc m p = YIdle) \<and>
     (\<forall>c. cpc m c = Top \<and> wpc m c = WIdle \<and> noff (cpus m c) = 0)"

lemma sched_inv_init:
  assumes "sched_init m"
  shows "sched_inv n ch m"
proof -
  have "pst m p \<noteq> SLEEPING" for p using assms by (auto simp: sched_init_def dest!: spec [of _ p])
  then show ?thesis
    using assms by (auto simp: sched_init_def sched_inv_def locks_inv_def place_inv_def wake_inv_def wf_lock_def initlock_def
        cown_def pown_def depth_def scans_def has_cond_def cpu_ok_def resumable_def committed_def)
qed

lemma sched_inv_reachable: "(sched_step n ch)\<^sup>*\<^sup>* m m1 \<Longrightarrow> sched_init m \<Longrightarrow> sched_inv n ch m1"
  by (induction rule: rtranclp_induct) (auto intro: sched_inv_init sched_inv_step)

text \<open>A concrete run, for the examples: CPU 0 enables interrupts, a device interrupts it, and the handler finishes.\<close>

definition smach0 :: smach where
  "smach0 = \<lparr>condlk = initlock, cond = False, plock = (\<lambda>_. initlock), pst = (\<lambda>_. RUNNABLE), pchan = (\<lambda>_. 0), pintena = (\<lambda>_. False),
     ppc = (\<lambda>_. PStart), ypc = (\<lambda>_. YIdle), cpus = (\<lambda>_. \<lparr>noff = 0, intena = False, sie = False\<rparr>), cpc = (\<lambda>_. Top), wpc = (\<lambda>_. WIdle)\<rparr>"

primrec cpu_steps :: "nat \<Rightarrow> u64 \<Rightarrow> nat list \<Rightarrow> smach \<Rightarrow> smach outcome" where
  "cpu_steps n ch [] m = Ok m"
| "cpu_steps n ch (c # cs) m = obind (cpu_step n ch c m) (cpu_steps n ch cs)"

lemma cpu_steps_reach: "cpu_steps n ch cs m = Ok m1 \<Longrightarrow> (sched_step n ch)\<^sup>*\<^sup>* m m1"
proof (induction cs arbitrary: m)
  case (Cons c cs)
  then obtain m2 where "cpu_step n ch c m = Ok m2" "cpu_steps n ch cs m2 = Ok m1" by (auto simp: obind_eq_Ok)
  then show ?case using Cons.IH sched_step.run converse_rtranclp_into_rtranclp by metis
qed simp

text \<open>
  C3: no wakeup is lost. In every interleaving of CPUs, interrupts, preemptions and sleeping processes, whenever the
  condition holds and nobody has its lock, no process sleeps on the channel, and none is on its way to sleep between giving
  up the lock and the switch.
\<close>

theorem no_lost_wakeup:
  assumes "sched_init m" and "(sched_step n ch)\<^sup>*\<^sup>* m m1" and "cond m1" and "\<not> locked (condlk m1)"
  shows "pst m1 p \<noteq> SLEEPING \<and> ppc m1 p \<noteq> SleepC \<and> ppc m1 p \<noteq> SleepD"
proof -
  have inv: "sched_inv n ch m1" by (rule sched_inv_reachable [OF assms(2,1)])
  have "\<not> committed m1 p"
  proof
    assume "committed m1 p"
    then obtain c i where "wpc m1 c = WScan i" using inv wake_invD(6) assms(3) by (metis sched_inv_def)
    then have "cown m1 c" by (simp add: cown_def scans_def)
    then have "lcpu (condlk m1) = Some c" "wf_lock (condlk m1)" using inv by (auto simp: sched_inv_def locks_inv_def)
    then show False using assms(4) by (simp add: wf_lock_def)
  qed
  then show ?thesis by (simp add: committed_def)
qed

text \<open>
  C4: scheduling never panics and a process runs on one CPU at a time. In every reachable state each step that a CPU
  can take succeeds or spins on a lock: the checks of \<open>sched\<close>, \<open>acquire\<close>, \<open>release\<close> and \<open>pop_off\<close> all pass.
\<close>

theorem scheduling_safe:
  assumes "sched_init m" and "(sched_step n ch)\<^sup>*\<^sup>* m m1"
  shows "(cpu_step n ch c m1 = Blocks \<or> (\<exists>m2. cpu_step n ch c m1 = Ok m2)) \<and>
    (cpc m1 c = Away p \<and> cpc m1 d = Away p \<longrightarrow> c = d)"
proof -
  have inv: "sched_inv n ch m1" by (rule sched_inv_reachable [OF assms(2,1)])
  have "cpc m1 c = Away p \<and> cpc m1 d = Away p \<longrightarrow> c = d" using inv place_invD(1) by (metis sched_inv_def)
  then show ?thesis using cpu_step_safe [OF inv, of c] by (auto simp: safe_def)
qed

lemma example_run:
  obtains m1 where "sched_init smach0" "(sched_step 1 5)\<^sup>*\<^sup>* smach0 m1" "cond m1" "\<not> locked (condlk m1)" "cpc m1 0 = Open"
proof -
  have i: "sched_init smach0" by (simp add: sched_init_def smach0_def)
  define m2 where "m2 = smach0\<lparr>cpus := (cpus smach0)(0 := (cpus smach0 0)\<lparr>sie := True\<rparr>), cpc := (cpc smach0)(0 := Open)\<rparr>"
  define m3 where "m3 = m2\<lparr>cpus := (cpus m2)(0 := (cpus m2 0)\<lparr>sie := False\<rparr>), wpc := (wpc m2)(0 := WAcq)\<rparr>"
  have "cpu_steps 1 5 [0] smach0 = Ok m2"
    by (simp add: m2_def cpu_step_def scheduler_step_def smach0_def)
  moreover have "sched_step 1 5 m2 m3"
    using sched_step.device [of 0 m2 1 5] by (simp add: m3_def m2_def in_main_def smach0_def)
  moreover obtain m1 where "cpu_steps 1 5 [0, 0, 0] m3 = Ok m1" "cond m1" "\<not> locked (condlk m1)" "cpc m1 0 = Open"
    by (simp add: m3_def m2_def smach0_def cpu_step_def wakeup_step_def lock_c_def unlock_c_def lock_p_def unlock_p_def my_proc_def
        acquire_def release_def holding_def initlock_def push_off_def pop_off_def Let_def)
  ultimately show ?thesis using i cpu_steps_reach that by (meson rtranclp.rtrancl_into_rtrancl rtranclp_trans)
qed

theorem no_lost_wakeup_witness: "\<exists>m1. cond m1 \<and> (sched_step 1 5)\<^sup>*\<^sup>* smach0 m1 \<and> pst m1 0 \<noteq> SLEEPING"
proof -
  obtain m1 where "sched_init smach0" "(sched_step 1 5)\<^sup>*\<^sup>* smach0 m1" "cond m1" "\<not> locked (condlk m1)" by (rule example_run)
  then show ?thesis using no_lost_wakeup [of smach0 1 5 m1 0] by auto
qed

theorem scheduling_safe_witness:
  "\<exists>m1. cond m1 \<and> (sched_step 1 5)\<^sup>*\<^sup>* smach0 m1 \<and> (cpu_step 1 5 0 m1 = Blocks \<or> (\<exists>m2. cpu_step 1 5 0 m1 = Ok m2))"
proof -
  obtain m1 where "sched_init smach0" "(sched_step 1 5)\<^sup>*\<^sup>* smach0 m1" "cond m1" by (rule example_run)
  then show ?thesis using scheduling_safe [of smach0 1 5 m1 0] by auto
qed

end
