(* ===== verification/Xv6_Syscall.thy ===== *)
theory Xv6_Syscall
  imports Xv6_Exec
begin

unbundle bit_operations_syntax

text \<open>
  The system calls on processes, \<open>kernel/sysproc.c\<close>, and the dispatch of all calls, \<open>syscall\<close> of \<open>kernel/syscall.c\<close>.
  A call that does not return to its caller, \<open>exit\<close>, has the result \<open>None\<close>.
\<close>

section \<open>Calls on processes\<close>

abbreviation (input) SBRK_EAGER :: int where "SBRK_EAGER \<equiv> 1"

definition sys_exit :: "kenv \<Rightarrow> u64 option kcmd" where
  "sys_exit e = bnd (argint 0) (\<lambda>n. thn (kexit e n) (ret None))"

definition sys_getpid :: "u64 kcmd" where
  "sys_getpid = gets (\<lambda>k. of_int (pid (myproc k)))"

definition sys_fork :: "kenv \<Rightarrow> u64 kcmd" where
  "sys_fork e = bnd (kfork e) (\<lambda>r. ret (of_int r))"

definition sys_wait :: "kenv \<Rightarrow> u64 kcmd" where
  "sys_wait e = bnd (argaddr 0) (\<lambda>p. bnd (kwait e p) (\<lambda>r. ret (of_int r)))"

definition sys_sbrk :: "kenv \<Rightarrow> u64 kcmd" where
  "sys_sbrk e =
     bnd (argint 0) (\<lambda>n. bnd (argint 1) (\<lambda>t.
     bnd (gets (\<lambda>k. psz (myproc k))) (\<lambda>addr.
     if t = SBRK_EAGER \<or> n < 0
     then bnd (growproc e n) (\<lambda>r. if r < 0 then ret (-1) else ret addr)
     else if addr + of_int n < addr then ret (-1)
     else if addr + of_int n > TRAPFRAME then ret (-1)
     else thn (upd_me (\<lambda>x. x\<lparr>psz := psz x + of_int n\<rparr>)) (ret addr))))"

text \<open>One round of the loop of \<open>sys_pause\<close>, which started at tick \<open>ticks0\<close>; \<open>Blocks\<close> is its call of \<open>sleep\<close>.\<close>

definition pause_round :: "u32 \<Rightarrow> int \<Rightarrow> u64 kcmd" where
  "pause_round ticks0 n =
     bnd (gets (\<lambda>k. (ticks k, pkilled (myproc k)))) (\<lambda>(t, kl).
     if t - ticks0 < of_int n then if kl then ret (-1) else (\<lambda>k. Blocks) else ret 0)"

definition sys_pause :: "u64 kcmd" where
  "sys_pause =
     bnd (argint 0) (\<lambda>n.
     bnd (gets ticks) (\<lambda>ticks0.
     pause_round ticks0 (if n < 0 then 0 else n)))"

definition sys_kill :: "u64 kcmd" where
  "sys_kill = bnd (argint 0) (\<lambda>p. bnd (kkill p) (\<lambda>r. ret (of_int r)))"

definition sys_uptime :: "u64 kcmd" where
  "sys_uptime = gets (\<lambda>k. ucast (ticks k))"

section \<open>Dispatch\<close>

text \<open>The table of the calls, by their numbers of \<open>kernel/syscall.h\<close>.\<close>

definition returns :: "u64 kcmd \<Rightarrow> u64 option kcmd" where
  "returns m = bnd m (\<lambda>v. ret (Some v))"

definition syscalls :: "kenv \<Rightarrow> devsw \<Rightarrow> byte list \<Rightarrow> u64 option kcmd list" where
  "syscalls e d pad =
     [returns (sys_fork e), sys_exit e, returns (sys_wait e), returns (sys_pipe e), returns (sys_read e d),
      returns sys_kill, returns (sys_exec e), returns (sys_fstat e pad), returns sys_chdir, returns sys_dup,
      returns sys_getpid, returns (sys_sbrk e), returns sys_pause, returns sys_uptime, returns (sys_open e),
      returns (sys_write e d), returns sys_mknod, returns sys_unlink, returns sys_link, returns sys_mkdir,
      returns (sys_close e)]"

text \<open>\<open>NELEM(syscalls)\<close> is 22, entry 0 is empty. The message about an unknown call goes to the console only. The result is
  whether the process goes on.\<close>

definition set_a0 :: "u64 \<Rightarrow> unit kcmd" where
  "set_a0 v = upd_me (\<lambda>x. x\<lparr>tf := (tf x)\<lparr>a0 := v\<rparr>\<rparr>)"

definition syscall :: "kenv \<Rightarrow> devsw \<Rightarrow> byte list \<Rightarrow> bool kcmd" where
  "syscall e d pad =
     bnd (gets (\<lambda>k. sint (ucast (a7 (tf (myproc k))) :: u32))) (\<lambda>num.
     if num > 0 \<and> num < 22
     then bnd (syscalls e d pad ! nat (num - 1)) (\<lambda>r.
          case r of None \<Rightarrow> ret False | Some v \<Rightarrow> thn (set_a0 v) (ret True))
     else thn (set_a0 (-1)) (ret True))"

end
