(* ===== verification/Xv6_Trap.thy ===== *)
theory Xv6_Trap
  imports Xv6_Syscall Xv6_Console
begin

unbundle bit_operations_syntax

text \<open>
  Traps, \<open>kernel/trap.c\<close>, with the interrupt controller \<open>kernel/plic.c\<close>, the timer of \<open>kernel/sbi.c\<close> and \<open>kernel/start.c\<close>, and
  \<open>forkret\<close> of \<open>kernel/proc.c\<close>. The control registers are a record; the writes to the interrupt controller are a list.
  What the hardware and the linker supply is in \<open>tenv\<close>: the interrupt that the controller reports, whether the UART has
  sent its byte, the time, and addresses of code. Messages that are only printed are left out. A switch to another process is \<open>Xv6_Sched\<close>: where \<open>usertrap\<close> and \<open>kerneltrap\<close>
  call \<open>yield\<close> they give \<open>Yield\<close>, and the code after the call is a definition of its own.
\<close>

section \<open>State\<close>

record trapregs =
  sstatus :: u64
  sepc :: u64
  scause :: u64
  stval :: u64
  stvec :: u64
  satp :: u64
  sie_reg :: u64
  tp :: u64
  mhartid :: u64
  stimer :: u64

record tmach =
  tk :: kernel
  tr :: trapregs
  tuart :: uart
  tcons :: cons
  plic_writes :: "(u64 \<times> u32) list"

record tenv =
  irq :: u32
  lsr_tx_idle :: bool
  rtime :: u64
  kernelvec_va :: u64
  uservec_va :: u64
  trampoline_va :: u64
  tx_chan :: u64
  cons_r :: u64
  pdump :: "byte list"
  has_proc :: bool

type_synonym 'a tcmd = "(tmach, 'a) cmd"

definition on_k :: "'a kcmd \<Rightarrow> 'a tcmd" where
  "on_k c m = obind (c (tk m)) (\<lambda>(a, k). Ok (a, m\<lparr>tk := k\<rparr>))"

definition set_regs :: "(trapregs \<Rightarrow> trapregs) \<Rightarrow> unit tcmd" where
  "set_regs f = modify (\<lambda>m. m\<lparr>tr := f (tr m)\<rparr>)"

section \<open>Registers\<close>

abbreviation (input) SSTATUS_SPP :: u64 where "SSTATUS_SPP \<equiv> 256"
abbreviation (input) SSTATUS_SPIE :: u64 where "SSTATUS_SPIE \<equiv> 32"
abbreviation (input) SSTATUS_SIE :: u64 where "SSTATUS_SIE \<equiv> 2"
abbreviation (input) SIE_SEIE :: u64 where "SIE_SEIE \<equiv> 512"
abbreviation (input) SIE_STIE :: u64 where "SIE_STIE \<equiv> 32"
abbreviation (input) SIE_SSIE :: u64 where "SIE_SSIE \<equiv> 2"
abbreviation (input) UART0_IRQ :: nat where "UART0_IRQ \<equiv> 74"

definition intr_on :: "trapregs \<Rightarrow> trapregs" where
  "intr_on r = r\<lparr>sstatus := sstatus r OR SSTATUS_SIE\<rparr>"

definition intr_off :: "trapregs \<Rightarrow> trapregs" where
  "intr_off r = r\<lparr>sstatus := sstatus r AND NOT SSTATUS_SIE\<rparr>"

definition intr_get :: "trapregs \<Rightarrow> bool" where
  "intr_get r \<longleftrightarrow> sstatus r AND SSTATUS_SIE \<noteq> 0"

definition cpuid :: "trapregs \<Rightarrow> int" where
  "cpuid r = sint (ucast (tp r) :: u32)"

section \<open>The timer and the interrupt controller\<close>

definition sbi_set_timer :: "u64 \<Rightarrow> trapregs \<Rightarrow> trapregs" where
  "sbi_set_timer t r = r\<lparr>stimer := t\<rparr>"

definition timerinit :: "tenv \<Rightarrow> trapregs \<Rightarrow> trapregs" where
  "timerinit v r = sbi_set_timer (rtime v + 10000000) r"

definition start :: "tenv \<Rightarrow> trapregs \<Rightarrow> trapregs" where
  "start v r =
     (let r1 = r\<lparr>satp := 0\<rparr>;
          r2 = r1\<lparr>stvec := kernelvec_va v\<rparr>;
          r3 = r2\<lparr>sie_reg := sie_reg r2 OR SIE_SEIE OR SIE_STIE OR SIE_SSIE\<rparr>;
          r4 = r3\<lparr>sstatus := sstatus r3 OR SSTATUS_SIE\<rparr>;
          r5 = sbi_set_timer (rtime v + 10000000) r4
      in r5\<lparr>tp := scast (ucast (mhartid r5) :: u32)\<rparr>)"

definition plic_write :: "u64 \<Rightarrow> u32 \<Rightarrow> unit tcmd" where
  "plic_write a w = modify (\<lambda>m. m\<lparr>plic_writes := plic_writes m @ [(a, w)]\<rparr>)"

definition plicinit :: "unit tcmd" where
  "plicinit = plic_write (PLIC + of_nat UART0_IRQ * 4) 1"

definition plicinithart :: "unit tcmd" where
  "plicinithart =
     bnd (gets (\<lambda>m. nat (cpuid (tr m)))) (\<lambda>hart.
     thn (plic_write (PLIC_SENABLE hart + 4 * of_nat (UART0_IRQ div 32)) (push_bit (UART0_IRQ mod 32) 1))
         (plic_write (PLIC_SPRIORITY hart) 0))"

text \<open>Reading the claim register of the hart gives what the controller reports.\<close>

definition plic_claim :: "tenv \<Rightarrow> int tcmd" where
  "plic_claim v = ret (sint (irq v))"

definition plic_complete :: "int \<Rightarrow> unit tcmd" where
  "plic_complete i = bnd (gets (\<lambda>m. nat (cpuid (tr m)))) (\<lambda>hart. plic_write (PLIC_SCLAIM hart) (of_int i))"

section \<open>Interrupts\<close>

definition trapinithart :: "tenv \<Rightarrow> trapregs \<Rightarrow> trapregs" where
  "trapinithart v r = r\<lparr>stvec := kernelvec_va v\<rparr>"

definition clockintr :: "tenv \<Rightarrow> unit tcmd" where
  "clockintr v =
     bnd (gets (\<lambda>m. cpuid (tr m))) (\<lambda>c.
     thn (if c = 0 then on_k (thn (modify (\<lambda>k. k\<lparr>ticks := ticks k + 1\<rparr>)) (wakeup ChTicks)) else ret ())
         (set_regs (timerinit v)))"

definition t_uartintr :: "tenv \<Rightarrow> unit tcmd" where
  "t_uartintr v =
     bnd (gets (\<lambda>m. uartintr (pdump v) (lsr_tx_idle v) (tuart m, tcons m))) (\<lambda>((u, c), _, wtx, wcons).
     thn (modify (\<lambda>m. m\<lparr>tuart := u, tcons := c\<rparr>))
    (thn (if wtx then on_k (wakeup (ChAddr (tx_chan v))) else ret ())
         (if wcons then on_k (wakeup (ChAddr (cons_r v))) else ret ())))"

text \<open>0 for an unknown cause, 1 for a device, 2 for the timer.\<close>

definition devintr :: "tenv \<Rightarrow> int tcmd" where
  "devintr v =
     bnd (gets (\<lambda>m. scause (tr m))) (\<lambda>cause.
     if cause = 0x8000000000000009
     then bnd (plic_claim v) (\<lambda>i.
          thn (if i = int UART0_IRQ then t_uartintr v else ret ())
         (thn (if i \<noteq> 0 then plic_complete i else ret ()) (ret 1)))
     else if cause = 0x8000000000000005 then thn (clockintr v) (ret 2)
     else ret 0)"

section \<open>Traps from user space\<close>

datatype trap_next = Exited | Yield | Resume

definition t_killed :: "bool tcmd" where
  "t_killed = gets (\<lambda>m. pkilled (myproc (tk m)))"

definition set_tf :: "(trapframe \<Rightarrow> trapframe) \<Rightarrow> unit tcmd" where
  "set_tf f = on_k (upd_me (\<lambda>x. x\<lparr>tf := f (tf x)\<rparr>))"

text \<open>The page fault on a page that is allocated lazily: the page, or 0.\<close>

definition t_vmfault :: "kenv \<Rightarrow> u64 tcmd" where
  "t_vmfault e =
     bnd (gets (\<lambda>m. (myproc (tk m), stval (tr m)))) (\<lambda>(p, va).
     on_k (on_mem (vmfault (kend e) (psz p) (pagetable p) (pagetable p) va)))"

definition prepare_return :: "kenv \<Rightarrow> tenv \<Rightarrow> unit tcmd" where
  "prepare_return e v =
     thn (set_regs intr_off)
    (thn (set_regs (\<lambda>r. r\<lparr>stvec := TRAMPOLINE + (uservec_va v - trampoline_va v)\<rparr>))
    (bnd (gets (\<lambda>m. (tr m, kstack (myproc (tk m))))) (\<lambda>(r, ks).
     thn (set_tf (\<lambda>t. t\<lparr>kernel_satp := satp r, kernel_sp := ks + PGSIZE, kernel_trap := usertrap_va e, kernel_hartid := tp r\<rparr>))
    (thn (set_regs (\<lambda>r. r\<lparr>sstatus := (sstatus r AND NOT SSTATUS_SPP) OR SSTATUS_SPIE\<rparr>))
    (bnd (gets (\<lambda>m. epc (tf (myproc (tk m))))) (\<lambda>pc.
     set_regs (\<lambda>r. r\<lparr>sepc := pc\<rparr>)))))))"

text \<open>The handling of the cause: whether the process goes on, and the device.\<close>

definition usertrap_cause :: "kenv \<Rightarrow> tenv \<Rightarrow> devsw \<Rightarrow> byte list \<Rightarrow> (bool \<times> int) tcmd" where
  "usertrap_cause e v d pad =
     bnd (gets (\<lambda>m. scause (tr m))) (\<lambda>cause.
     if cause = 8
     then bnd t_killed (\<lambda>kl.
          if kl then thn (on_k (kexit e (-1))) (ret (False, 0))
          else thn (set_tf (\<lambda>t. t\<lparr>epc := epc t + 4\<rparr>))
              (thn (set_regs intr_on)
              (bnd (on_k (syscall e d pad)) (\<lambda>go. ret (go, 0)))))
     else bnd (devintr v) (\<lambda>dev.
          if dev \<noteq> 0 then ret (True, dev)
          else bnd (if cause = 15 \<or> cause = 13 then t_vmfault e else ret 0) (\<lambda>pa.
               if pa \<noteq> 0 then ret (True, 0)
               else thn (on_k (\<lambda>k. setkilled (curproc k) k)) (ret (True, 0)))))"

definition usertrap :: "kenv \<Rightarrow> tenv \<Rightarrow> devsw \<Rightarrow> byte list \<Rightarrow> trap_next tcmd" where
  "usertrap e v d pad =
     bnd (gets tr) (\<lambda>r.
     if sstatus r AND SSTATUS_SPP \<noteq> 0 then panic ''usertrap: not from user mode''
     else thn (set_regs (\<lambda>r. r\<lparr>stvec := kernelvec_va v\<rparr>))
         (thn (set_tf (\<lambda>t. t\<lparr>epc := sepc r\<rparr>))
         (bnd (usertrap_cause e v d pad) (\<lambda>(go, dev).
          if \<not> go then ret Exited
          else bnd t_killed (\<lambda>kl.
            if kl then thn (on_k (kexit e (-1))) (ret Exited)
            else if dev = 2 then ret Yield
            else ret Resume)))))"

text \<open>The rest of \<open>usertrap\<close>, after a \<open>yield\<close> if there was one: the page table for the trampoline.\<close>

definition usertrap_ret :: "kenv \<Rightarrow> tenv \<Rightarrow> u64 tcmd" where
  "usertrap_ret e v = thn (prepare_return e v) (gets (\<lambda>m. MAKE_SATP (pagetable (myproc (tk m)))))"

text \<open>\<open>forkret\<close>; \<open>first\<close> is its static variable. \<open>/init\<close> is started by the first process.\<close>

definition forkret :: "kenv \<Rightarrow> tenv \<Rightarrow> bool \<Rightarrow> u64 tcmd" where
  "forkret e v first =
     thn (if first
          then thn (on_k (on_fs (fsinit (of_nat ROOTDEV))))
              (bnd (on_k (kexec e [47, 105, 110, 105, 116] [[47, 105, 110, 105, 116]])) (\<lambda>r.
               thn (set_tf (\<lambda>t. t\<lparr>a0 := of_int r\<rparr>))
                   (if (of_int r :: u64) = -1 then panic ''exec'' else ret ())))
          else ret ())
         (usertrap_ret e v)"

section \<open>Traps from the kernel\<close>

definition kerneltrap :: "tenv \<Rightarrow> trap_next tcmd" where
  "kerneltrap v =
     bnd (gets tr) (\<lambda>r.
     if sstatus r AND SSTATUS_SPP = 0 then panic ''kerneltrap: not from supervisor mode''
     else if intr_get r then panic ''kerneltrap: interrupts enabled''
     else bnd (devintr v) (\<lambda>dev.
       if dev = 0 then panic ''kerneltrap''
       else ret (if dev = 2 \<and> has_proc v then Yield else Resume)))"

text \<open>The rest of \<open>kerneltrap\<close> with the registers it saved at its start.\<close>

definition kerneltrap_ret :: "u64 \<Rightarrow> u64 \<Rightarrow> unit tcmd" where
  "kerneltrap_ret pc st = thn (set_regs (\<lambda>r. r\<lparr>sepc := pc\<rparr>)) (set_regs (\<lambda>r. r\<lparr>sstatus := st\<rparr>))"

end
