(* ===== verification/Xv6_Proc_Spec.thy ===== *)
theory Xv6_Proc_Spec
  imports Xv6_Proc
begin

text \<open>
  The process table: its invariant, what \<open>fork\<close> leaves in it, and what \<open>kill\<close> does with the process number 0.
\<close>

section \<open>Commands and the process table\<close>

text \<open>A command that changes no process but \<open>p\<close>, and of \<open>p\<close> none of what \<open>f\<close> reads.\<close>

definition frame :: "nat \<Rightarrow> (proc \<Rightarrow> 'b) \<Rightarrow> 'a kcmd \<Rightarrow> bool" where
  "frame p f c \<longleftrightarrow> (\<forall>k a k1. c k = Ok (a, k1) \<longrightarrow>
     length (procs k1) = length (procs k) \<and> (\<forall>i. i \<noteq> p \<longrightarrow> procs k1 ! i = procs k ! i) \<and>
     (p < length (procs k) \<longrightarrow> f (procs k1 ! p) = f (procs k ! p)) \<and>
     nextpid k1 = nextpid k \<and> curproc k1 = curproc k \<and> initproc k1 = initproc k)"

lemma frameD:
  assumes "frame p f c" "c k = Ok (a, k1)"
  shows "length (procs k1) = length (procs k)" "i \<noteq> p \<Longrightarrow> procs k1 ! i = procs k ! i"
    "p < length (procs k) \<Longrightarrow> f (procs k1 ! p) = f (procs k ! p)"
    "nextpid k1 = nextpid k" "curproc k1 = curproc k" "initproc k1 = initproc k"
  using assms unfolding frame_def by blast+

named_theorems frame_intros \<open>commands that leave the process table alone\<close>

lemma frame_ret [frame_intros]: "frame p f (ret a)"
  by (simp add: frame_def cmd_simps)

lemma frame_gets [frame_intros]: "frame p f (gets g)"
  by (simp add: frame_def cmd_simps)

lemma frame_panic [frame_intros]: "frame p f (panic msg)"
  by (simp add: frame_def cmd_simps)

lemma frame_bnd [frame_intros]:
  assumes "frame p f c" "\<And>a. frame p f (g a)"
  shows "frame p f (bnd c g)"
  unfolding frame_def
proof (intro allI impI)
  fix k b k2 assume "bnd c g k = Ok (b, k2)"
  then obtain a k1 where "c k = Ok (a, k1)" "g a k1 = Ok (b, k2)" by (auto simp: cmd_simps obind_eq_Ok)
  note r = frameD [OF assms(1) this(1)] frameD [OF assms(2) this(2)]
  show "length (procs k2) = length (procs k) \<and> (\<forall>i. i \<noteq> p \<longrightarrow> procs k2 ! i = procs k ! i) \<and>
     (p < length (procs k) \<longrightarrow> f (procs k2 ! p) = f (procs k ! p)) \<and>
     nextpid k2 = nextpid k \<and> curproc k2 = curproc k \<and> initproc k2 = initproc k"
    using r by auto
qed

lemma frame_thn [frame_intros]: "frame p f c \<Longrightarrow> frame p f d \<Longrightarrow> frame p f (thn c d)"
  unfolding thn_def by (intro frame_bnd)

lemma frame_on_mem [frame_intros]: "frame p f (on_mem c)"
  by (auto simp: frame_def on_mem_def obind_eq_Ok)

lemma frame_on_fs [frame_intros]: "frame p f (on_fs c)"
  by (auto simp: frame_def on_fs_def obind_eq_Ok)

lemma frame_upd_file [frame_intros]: "frame p f (upd_file i g)"
  by (simp add: frame_def upd_file_def cmd_simps)

lemma frame_upd_proc [frame_intros]: "(\<And>x. f (g x) = f x) \<Longrightarrow> frame p f (upd_proc p g)"
  by (simp add: frame_def upd_proc_def cmd_simps)

lemma frame_filedup [frame_intros]: "frame p f (filedup i)"
  unfolding filedup_def by (auto intro!: frame_intros split: if_splits)

lemma frame_mem_calls [frame_intros]:
  "frame p f k_kalloc" "frame p f (k_kfree e pa)" "frame p f (k_mappages pt va sz pa perm)"
  "frame p f (k_uvmunmap e pt va n b)" "frame p f (k_uvmfree e pt sz)"
  by (simp_all add: k_kalloc_def k_kfree_def k_mappages_def k_uvmunmap_def k_uvmfree_def frame_intros)

lemma frame_proc_pagetable [frame_intros]: "frame p f (proc_pagetable e q)"
  unfolding proc_pagetable_def by (auto intro!: frame_intros split: if_splits)

lemma frame_proc_freepagetable [frame_intros]: "frame p f (proc_freepagetable e pt sz)"
  unfolding proc_freepagetable_def by (auto intro!: frame_intros)

lemma frame_fork_files [frame_intros]:
  assumes "\<And>x fo. f (x\<lparr>ofile := fo\<rparr>) = f x"
  shows "frame np f (fork_files p np is)"
  by (induction "is") (auto intro!: frame_intros split: option.splits simp: assms)

lemma frame_fork_files_length: "frame np (\<lambda>x. length (ofile x)) (fork_files p np is)"
  by (induction "is") (auto intro!: frame_intros split: option.splits)

section \<open>The invariant\<close>

text \<open>A process slot is unused exactly if its number is 0; numbers are below the next one to be given, and no two processes
  share one.\<close>

definition proc_inv :: "kernel \<Rightarrow> bool" where
  "proc_inv k \<longleftrightarrow> length (procs k) = NPROC \<and> 0 < nextpid k \<and> (\<forall>i<NPROC. length (ofile (procs k ! i)) = NOFILE) \<and>
     (\<forall>i<NPROC. 0 \<le> pid (procs k ! i) \<and> pid (procs k ! i) < nextpid k \<and> (pid (procs k ! i) = 0 \<longleftrightarrow> pstate (procs k ! i) = UNUSED)) \<and>
     (\<forall>i<NPROC. \<forall>j<NPROC. i \<noteq> j \<longrightarrow> pid (procs k ! i) = pid (procs k ! j) \<longrightarrow> pid (procs k ! i) = 0)"

text \<open>Only the slot \<open>p\<close> of the table may have changed.\<close>

definition only :: "nat \<Rightarrow> kernel \<Rightarrow> kernel \<Rightarrow> bool" where
  "only p k k1 \<longleftrightarrow> length (procs k1) = length (procs k) \<and> (\<forall>i. i \<noteq> p \<longrightarrow> procs k1 ! i = procs k ! i) \<and>
     curproc k1 = curproc k \<and> initproc k1 = initproc k"

lemma only_refl: "only p k k"
  by (simp add: only_def)

lemma only_trans: "only p k k1 \<Longrightarrow> only p k1 k2 \<Longrightarrow> only p k k2"
  by (simp add: only_def)

lemma frame_only: "frame p f c \<Longrightarrow> c k = Ok (a, k1) \<Longrightarrow> only p k k1"
  by (auto simp: only_def frame_def)

lemma proc_inv_only:
  assumes "proc_inv k" "only p k k1" "p < NPROC" "nextpid k \<le> nextpid k1"
    and "0 \<le> pid (procs k1 ! p)" "pid (procs k1 ! p) < nextpid k1" "pid (procs k1 ! p) = 0 \<longleftrightarrow> pstate (procs k1 ! p) = UNUSED"
    and "length (ofile (procs k1 ! p)) = NOFILE"
    and "pid (procs k1 ! p) = 0 \<or> nextpid k \<le> pid (procs k1 ! p) \<or> pid (procs k1 ! p) = pid (procs k ! p)"
  shows "proc_inv k1"
proof -
  have o: "procs k1 ! i = procs k ! i" if "i \<noteq> p" for i using assms(2) that by (simp add: only_def)
  have inv: "0 \<le> pid (procs k ! i)" "pid (procs k ! i) < nextpid k" "pid (procs k ! i) = 0 \<longleftrightarrow> pstate (procs k ! i) = UNUSED" if "i < NPROC" for i
    using assms(1) that by (auto simp: proc_inv_def)
  have d: "pid (procs k ! i) = 0" if "i < NPROC" "j < NPROC" "i \<noteq> j" "pid (procs k ! i) = pid (procs k ! j)" for i j
    using assms(1) that by (auto simp: proc_inv_def)
  have l: "length (procs k1) = NPROC" "0 < nextpid k1" using assms(1,2,4) by (auto simp: proc_inv_def only_def)
  have "length (ofile (procs k1 ! i)) = NOFILE" if "i < NPROC" for i
    using that o assms(1,8) by (cases "i = p") (auto simp: proc_inv_def)
  moreover have "0 \<le> pid (procs k1 ! i) \<and> pid (procs k1 ! i) < nextpid k1 \<and> (pid (procs k1 ! i) = 0 \<longleftrightarrow> pstate (procs k1 ! i) = UNUSED)" if "i < NPROC" for i
  proof (cases "i = p")
    case False
    then show ?thesis using o [OF False] inv [OF that] assms(4) by auto
  qed (use assms(5-7) in simp)
  moreover have "pid (procs k1 ! i) = 0" if "i < NPROC" "j < NPROC" "i \<noteq> j" "pid (procs k1 ! i) = pid (procs k1 ! j)" for i j
  proof -
    consider "i \<noteq> p" "j \<noteq> p" | "i = p" "j \<noteq> p" | "j = p" "i \<noteq> p" using \<open>i \<noteq> j\<close> by blast
    then show ?thesis
      using that o d [of i j] d [of j i] inv [of i] inv [of j] assms(3,9) by cases (simp; linarith?)+
  qed
  ultimately show ?thesis using l by (simp add: proc_inv_def)
qed

section \<open>Allocating and freeing a slot\<close>

lemma freeproc_slot:
  assumes "freeproc e p k = Ok (u, k1)" "p < length (procs k)"
  shows "only p k k1" "nextpid k1 = nextpid k" "pid (procs k1 ! p) = 0" "pstate (procs k1 ! p) = UNUSED" "\<not> pkilled (procs k1 ! p)"
    "ofile (procs k1 ! p) = ofile (procs k ! p)"
proof -
  let ?x = "procs k ! p"
  let ?g = "\<lambda>x. x\<lparr>pagetable := 0, psz := 0, pid := 0, parent := None, pname := (pname x)[0 := 0], chan := ChNone,
    pkilled := False, xstate := 0, pstate := UNUSED\<rparr>"
  let ?c = "thn (if trapframe_pa ?x \<noteq> 0 then k_kfree e (trapframe_pa ?x) else ret ())
    (thn (upd_proc p (\<lambda>x. x\<lparr>trapframe_pa := 0\<rparr>)) (if pagetable ?x \<noteq> 0 then proc_freepagetable e (pagetable ?x) (psz ?x) else ret ()))"
  have fr: "frame p ofile ?c" by (auto intro!: frame_intros)
  obtain a k2 where k2: "?c k = Ok (a, k2)" "upd_proc p ?g k2 = Ok ((), k1)"
    using assms(1) by (auto simp: freeproc_def cmd_simps obind_eq_Ok)
  note r = frameD [OF fr k2(1)]
  have k1: "k1 = k2\<lparr>procs := (procs k2)[p := ?g (procs k2 ! p)]\<rparr>" using k2(2) by (simp add: upd_proc_def cmd_simps)
  show "only p k k1" using r by (simp add: only_def k1)
  show "nextpid k1 = nextpid k" "pid (procs k1 ! p) = 0" "pstate (procs k1 ! p) = UNUSED" "\<not> pkilled (procs k1 ! p)"
    "ofile (procs k1 ! p) = ofile (procs k ! p)"
    using r assms(2) by (simp_all add: k1)
qed

text \<open>What \<open>allocproc\<close> gives: a slot that was unused, with the next process number, or nothing.\<close>

definition allocated :: "nat \<Rightarrow> kernel \<Rightarrow> kernel \<Rightarrow> bool" where
  "allocated p k k1 \<longleftrightarrow> find (\<lambda>i. pstate (procs k ! i) = UNUSED) [0..<NPROC] = Some p \<and> only p k k1 \<and> nextpid k1 = int_succ (nextpid k) \<and>
     pid (procs k1 ! p) = nextpid k \<and> pstate (procs k1 ! p) = USED \<and> pkilled (procs k1 ! p) = pkilled (procs k ! p) \<and> ofile (procs k1 ! p) = ofile (procs k ! p)"

lemma find_slot: "find P [0..<n] = Some p \<Longrightarrow> p < n \<and> P p"
  by (auto simp: find_Some_iff)

lemma frame_keep:
  assumes "frame p f c" "c k = Ok (a, k1)" "p < length (procs k)"
  shows "only p k k1" "nextpid k1 = nextpid k" "f (procs k1 ! p) = f (procs k ! p)"
  using frameD [OF assms(1,2)] assms(3) by (auto simp: only_def)

text \<open>The part of \<open>allocproc\<close> after the slot is taken: it fills in fields of the slot and either stops there or frees the
  slot.\<close>

lemma alloc_split:
  assumes "bnd k_kalloc (\<lambda>tfp. thn (upd_proc p (\<lambda>x. x\<lparr>trapframe_pa := tfp\<rparr>))
      (if tfp = 0 then thn (freeproc e p) (ret None)
       else bnd (proc_pagetable e p) (\<lambda>pt. thn (upd_proc p (\<lambda>x. x\<lparr>pagetable := pt\<rparr>))
         (if pt = 0 then thn (freeproc e p) (ret None)
          else thn (upd_proc p (\<lambda>x. x\<lparr>pcontext := ctx x\<rparr>)) (ret (Some p)))))) k = Ok (r, k1)"
  obtains c k2 where "frame p (\<lambda>x. (pid x, pstate x, pkilled x, ofile x)) (c :: unit kcmd)" "c k = Ok ((), k2)"
    "(thn (freeproc e p) (ret None)) k2 = Ok (r, k1) \<or> r = Some p \<and> k1 = k2"
proof -
  let ?f = "\<lambda>x. (pid x, pstate x, pkilled x, ofile x)"
  obtain tfp ka where ka: "k_kalloc k = Ok (tfp, ka)" using assms by (auto simp: cmd_simps obind_eq_Ok)
  let ?c = "bnd k_kalloc (\<lambda>tfp. upd_proc p (\<lambda>x. x\<lparr>trapframe_pa := tfp\<rparr>))"
  let ?d = "thn ?c (bnd (proc_pagetable e p) (\<lambda>pt. upd_proc p (\<lambda>x. x\<lparr>pagetable := pt\<rparr>)))"
  let ?e = "thn ?d (upd_proc p (\<lambda>x. x\<lparr>pcontext := ctx x\<rparr>))"
  have fr: "frame p ?f ?c" "frame p ?f ?d" "frame p ?f ?e" by (auto intro!: frame_intros)
  obtain kb where kb: "?c k = Ok ((), kb)" using ka by (auto simp: cmd_simps upd_proc_def)
  show ?thesis
  proof (cases "tfp = 0")
    case True
    then show ?thesis using assms ka kb by (intro that [OF fr(1) kb]) (auto simp: cmd_simps obind_eq_Ok)
  next
    case False
    obtain pt kc where kc: "proc_pagetable e p kb = Ok (pt, kc)"
      using assms ka kb False by (auto simp: cmd_simps obind_eq_Ok upd_proc_def)
    obtain kd where kd: "?d k = Ok ((), kd)" using kb kc by (auto simp: cmd_simps upd_proc_def)
    obtain ke where ke: "?e k = Ok ((), ke)" using kd by (auto simp: cmd_simps upd_proc_def)
    have "(if pt = 0 then thn (freeproc e p) (ret None)
        else thn (upd_proc p (\<lambda>x. x\<lparr>pcontext := ctx x\<rparr>)) (ret (Some p))) kd = Ok (r, k1)"
      using assms ka kb kc kd False by (simp add: cmd_simps upd_proc_def)
    then show ?thesis using that [OF fr(2) kd] that [OF fr(3) ke] kd ke
      by (cases "pt = 0") (auto simp: cmd_simps upd_proc_def)
  qed
qed

lemma allocproc_cases:
  assumes "allocproc e k = Ok (r, k1)" "length (procs k) = NPROC"
  obtains "r = None" "k1 = k" "find (\<lambda>i. pstate (procs k ! i) = UNUSED) [0..<NPROC] = None"
  | p where "r = None" "find (\<lambda>i. pstate (procs k ! i) = UNUSED) [0..<NPROC] = Some p" "only p k k1" "nextpid k1 = int_succ (nextpid k)"
      "pid (procs k1 ! p) = 0" "pstate (procs k1 ! p) = UNUSED" "ofile (procs k1 ! p) = ofile (procs k ! p)"
  | p where "r = Some p" "allocated p k k1"
proof (cases "find (\<lambda>i. pstate (procs k ! i) = UNUSED) [0..<NPROC]")
  case None
  then show ?thesis using assms(1) that(1) by (simp add: allocproc_def cmd_simps)
next
  case (Some p)
  have p: "p < length (procs k)" using find_slot [OF Some] assms(2) by simp
  let ?f = "\<lambda>x. (pid x, pstate x, pkilled x, ofile x)"
  let ?k0 = "k\<lparr>nextpid := int_succ (nextpid k), procs := (procs k)[p := (procs k ! p)\<lparr>pid := nextpid k, pstate := USED\<rparr>]\<rparr>"
  have k0: "only p k ?k0" "p < length (procs ?k0)" "?f (procs ?k0 ! p) = (nextpid k, USED, pkilled (procs k ! p), ofile (procs k ! p))"
    using p by (simp_all add: only_def)
  let ?rest = "\<lambda>pt. if pt = 0 then thn (freeproc e p) (ret None)
     else thn (upd_proc p (\<lambda>x. x\<lparr>pcontext := \<lparr>cra = forkret_va e, csp = kstack x + PGSIZE, csaved = replicate 12 0\<rparr>\<rparr>)) (ret (Some p))"
  have "bnd k_kalloc (\<lambda>tfp. thn (upd_proc p (\<lambda>x. x\<lparr>trapframe_pa := tfp\<rparr>))
      (if tfp = 0 then thn (freeproc e p) (ret None)
       else bnd (proc_pagetable e p) (\<lambda>pt. thn (upd_proc p (\<lambda>x. x\<lparr>pagetable := pt\<rparr>)) (?rest pt)))) ?k0 = Ok (r, k1)"
    using assms(1) Some by (simp add: allocproc_def allocpid_def upd_proc_def cmd_simps)
  then obtain c k2 where k2: "frame p ?f (c :: unit kcmd)" "c ?k0 = Ok ((), k2)"
      "(thn (freeproc e p) (ret None)) k2 = Ok (r, k1) \<or> r = Some p \<and> k1 = k2"
    by (rule alloc_split)
  note keep = frame_keep [OF k2(1,2) k0(2)]
  show ?thesis
  proof (cases "r = Some p \<and> k1 = k2")
    case True
    then have "allocated p k k1" using keep k0 Some only_trans [OF k0(1)] by (auto simp: allocated_def)
    then show ?thesis using True that(3) by blast
  next
    case False
    then have "r = None" "freeproc e p k2 = Ok ((), k1)" using k2(3) by (auto simp: cmd_simps obind_eq_Ok)
    moreover have "p < length (procs k2)" using keep(1) k0(2) by (simp add: only_def)
    ultimately show ?thesis
      using freeproc_slot [of e p k2 "()" k1] keep k0(3) only_trans [OF only_trans [OF k0(1)]] by (intro that(2) [OF _ Some]) simp_all
  qed
qed

section \<open>Fork\<close>

lemma filedup_result: "filedup f k = Ok (f1, k1) \<Longrightarrow> f1 = f"
  by (auto simp: filedup_def cmd_simps obind_eq_Ok split: if_splits)

text \<open>The descriptors that the child gets.\<close>

lemma fork_files_ofile:
  assumes "fork_files p np is k = Ok (u, k1)" "p \<noteq> np" "np < length (procs k)" "distinct is" "i < length (ofile (procs k ! np))"
  shows "ofile (procs k1 ! np) ! i = (case ofile (procs k ! p) ! i of Some f \<Rightarrow> if i \<in> set is then Some f else ofile (procs k ! np) ! i
    | None \<Rightarrow> ofile (procs k ! np) ! i)"
  using assms
proof (induction "is" arbitrary: k)
  case (Cons j js)
  let ?one = "case ofile (procs k ! p) ! j of None \<Rightarrow> ret ()
    | Some f \<Rightarrow> bnd (filedup f) (\<lambda>f1. upd_proc np (\<lambda>x. x\<lparr>ofile := (ofile x)[j := Some f1]\<rparr>))"
  obtain k2 where k2: "?one k = Ok ((), k2)" "fork_files p np js k2 = Ok (u, k1)"
    using Cons.prems(1) by (auto simp: cmd_simps obind_eq_Ok)
  have fr: "frame np (\<lambda>x. length (ofile x)) ?one" by (auto intro!: frame_intros split: option.splits)
  note r = frameD [OF fr k2(1)]
  have one: "ofile (procs k2 ! np) = (case ofile (procs k ! p) ! j of None \<Rightarrow> ofile (procs k ! np) | Some f \<Rightarrow> (ofile (procs k ! np))[j := Some f])"
  proof (cases "ofile (procs k ! p) ! j")
    case (Some f)
    obtain k3 where k3: "filedup f k = Ok (f, k3)" "k2 = k3\<lparr>procs := (procs k3)[np := (procs k3 ! np)\<lparr>ofile := (ofile (procs k3 ! np))[j := Some f]\<rparr>]\<rparr>"
      using k2(1) Some filedup_result by (fastforce simp: cmd_simps obind_eq_Ok upd_proc_def)
    have "procs k3 ! np = procs k ! np" "length (procs k3) = length (procs k)"
      using frameD [OF frame_filedup [of np "\<lambda>x. x"] k3(1)] Cons.prems(3) by auto
    then show ?thesis using k3(2) Some Cons.prems(3) by simp
  qed (use k2(1) in \<open>simp add: cmd_simps\<close>)
  have "ofile (procs k1 ! np) ! i = (case ofile (procs k2 ! p) ! i of Some f \<Rightarrow> if i \<in> set js then Some f else ofile (procs k2 ! np) ! i
    | None \<Rightarrow> ofile (procs k2 ! np) ! i)"
    using Cons.prems r by (intro Cons.IH [OF k2(2)]) auto
  moreover have "procs k2 ! p = procs k ! p" using r(2) Cons.prems(2) by simp
  ultimately show ?case
    using one Cons.prems(4,5) by (cases "i = j") (auto split: option.splits)
qed (auto simp: cmd_simps split: option.splits)

text \<open>A process that \<open>fork\<close> has made: a copy of its parent that sees the result 0.\<close>

definition forked :: "proc \<Rightarrow> nat \<Rightarrow> int \<Rightarrow> proc \<Rightarrow> bool" where
  "forked par p n x \<longleftrightarrow> pid x = n \<and> pstate x = RUNNABLE \<and> parent x = Some p \<and> psz x = psz par \<and> tf x = (tf par)\<lparr>a0 := 0\<rparr> \<and>
     (\<forall>fd<NOFILE. \<forall>f. ofile par ! fd = Some f \<longrightarrow> ofile x ! fd = Some f) \<and> (\<forall>d. cwd par = Some d \<longrightarrow> cwd x = Some d)"

text \<open>The part of \<open>kfork\<close> after the memory has been copied.\<close>

definition fork_tail :: "nat \<Rightarrow> nat \<Rightarrow> proc \<Rightarrow> int kcmd" where
  "fork_tail p np x =
     thn (upd_proc np (\<lambda>y. y\<lparr>psz := psz x, tf := (tf x)\<lparr>a0 := 0\<rparr>\<rparr>))
    (thn (fork_files p np [0..<NOFILE])
    (bnd (on_fs (idup (the (cwd x)))) (\<lambda>ip.
     thn (upd_proc np (\<lambda>y. y\<lparr>cwd := Some ip, pname := blit (pname y) 0 (safestrcpy (list_view (pname x)) 16)\<rparr>))
    (bnd (gets (\<lambda>k. pid (procs k ! np))) (\<lambda>n.
     thn (upd_proc np (\<lambda>y. y\<lparr>parent := Some p\<rparr>)) (thn (upd_proc np (\<lambda>y. y\<lparr>pstate := RUNNABLE\<rparr>)) (ret n)))))))"

lemma kfork_alt:
  "kfork e =
     bnd (gets curproc) (\<lambda>p. bnd (allocproc e) (\<lambda>r. case r of None \<Rightarrow> ret (-1)
     | Some np \<Rightarrow> bnd (gets (\<lambda>k. procs k ! p)) (\<lambda>x. bnd (gets (\<lambda>k. pagetable (procs k ! np))) (\<lambda>npt.
       bnd (on_mem (uvmcopy (kend e) (pagetable x) npt (psz x))) (\<lambda>c.
       if c < 0 then thn (freeproc e np) (ret (-1)) else fork_tail p np x)))))"
  unfolding kfork_def fork_tail_def ..

lemma fork_rest:
  assumes run: "fork_tail p np x k = Ok (r, k1)"
    and np: "np < length (procs k)" "np \<noteq> p" "length (ofile (procs k ! np)) = NOFILE" and x: "x = procs k ! p"
  shows "r = pid (procs k ! np)" "only np k k1" "nextpid k1 = nextpid k" "forked x p r (procs k1 ! np)"
    "length (ofile (procs k1 ! np)) = NOFILE"
proof -
  let ?kc = "k\<lparr>procs := (procs k)[np := (procs k ! np)\<lparr>psz := psz x, tf := (tf x)\<lparr>a0 := 0\<rparr>\<rparr>]\<rparr>"
  let ?f = "\<lambda>y. (pid y, psz y, tf y)"
  obtain u kd ip ke where kd: "fork_files p np [0..<NOFILE] ?kc = Ok (u, kd)" "on_fs (idup (the (cwd x))) kd = Ok (ip, ke)"
      "(thn (upd_proc np (\<lambda>y. y\<lparr>cwd := Some ip, pname := blit (pname y) 0 (safestrcpy (list_view (pname x)) 16)\<rparr>))
           (bnd (gets (\<lambda>k. pid (procs k ! np))) (\<lambda>n.
            thn (upd_proc np (\<lambda>y. y\<lparr>parent := Some p\<rparr>)) (thn (upd_proc np (\<lambda>y. y\<lparr>pstate := RUNNABLE\<rparr>)) (ret n))))) ke = Ok (r, k1)"
    using run by (auto simp: fork_tail_def cmd_simps obind_eq_Ok upd_proc_def)
  have "frame np ?f (fork_files p np [0..<NOFILE])" by (rule frame_fork_files) simp
  note fd = frameD [OF this kd(1)]
  note fe = frameD [OF frame_on_fs [of np "\<lambda>y. y"] kd(2)]
  have l: "np < length (procs ke)" "?f (procs ke ! np) = (pid (procs k ! np), psz x, (tf x)\<lparr>a0 := 0\<rparr>)"
      "procs ke ! np = procs kd ! np"
    using fd fe np by auto
  have fin: "r = pid (procs ke ! np)" "k1 = ke\<lparr>procs := (procs ke)[np := (procs ke ! np)\<lparr>cwd := Some ip,
      pname := blit (pname (procs ke ! np)) 0 (safestrcpy (list_view (pname x)) 16), parent := Some p, pstate := RUNNABLE\<rparr>]\<rparr>"
    using kd(3) l(1) by (auto simp: cmd_simps upd_proc_def)
  show "r = pid (procs k ! np)" using fin(1) l(2) by simp
  show "length (ofile (procs k1 ! np)) = NOFILE"
    using frameD(3) [OF frame_fork_files_length kd(1)] np fin(2) l(1,3) by simp
  show "only np k k1" "nextpid k1 = nextpid k" using fd fe by (auto simp: only_def fin(2))
  have "ofile (procs kd ! np) ! fd = Some f" if "fd < NOFILE" "ofile x ! fd = Some f" for fd f
    using fork_files_ofile [OF kd(1), of fd] np that x by simp
  moreover have "ip = the (cwd x)" using kd(2) by (auto simp: on_fs_def idup_def cmd_simps obind_eq_Ok)
  ultimately show "forked x p r (procs k1 ! np)" using fin l by (simp add: forked_def)
qed

lemma proc_inv_succ: "proc_inv k \<Longrightarrow> nextpid k < 2 ^ 31 - 1 \<Longrightarrow> int_succ (nextpid k) = nextpid k + 1"
  by (rule int_succ_less) (simp_all add: proc_inv_def)

lemma proc_inv_allocated: "proc_inv k \<Longrightarrow> nextpid k < 2 ^ 31 - 1 \<Longrightarrow> allocated p k k1 \<Longrightarrow> proc_inv k1"
  using find_slot [of "\<lambda>i. pstate (procs k ! i) = UNUSED" NPROC p] proc_inv_succ [of k]
  by (intro proc_inv_only [of k p k1]) (auto simp: allocated_def proc_inv_def)

lemma proc_inv_unused:
  assumes "proc_inv k" "only p k k1" "p < NPROC" "nextpid k \<le> nextpid k1"
    and "pid (procs k1 ! p) = 0" "pstate (procs k1 ! p) = UNUSED" "ofile (procs k1 ! p) = ofile (procs k ! p)"
  shows "proc_inv k1"
proof (rule proc_inv_only [OF assms(1-4)])
  show "pid (procs k1 ! p) < nextpid k1" using assms(1,4,5) by (simp add: proc_inv_def)
  show "length (ofile (procs k1 ! p)) = NOFILE" using assms(1,3,7) by (simp add: proc_inv_def)
qed (simp_all add: assms(5,6))

lemma proc_inv_freed:
  assumes "proc_inv k" "freeproc e p k = Ok (u, k1)" "p < NPROC"
  shows "proc_inv k1"
proof -
  have "p < length (procs k)" using assms(1,3) by (simp add: proc_inv_def)
  note f = freeproc_slot [OF assms(2) this]
  show ?thesis using f by (intro proc_inv_unused [OF assms(1) f(1) assms(3)]) simp_all
qed

text \<open>
  C22: \<open>fork\<close> keeps the process table consistent. Whatever fails on the way, processes keep distinct numbers and the slots
  in use are left alone; if it succeeds it returns a number no process had before, and the new process is a runnable child
  with its parent's size, registers (but for the result 0), open files and directory. \<open>nextpid\<close> is an \<open>int\<close>: the
  numbers are new as long as it has not reached its largest value.
\<close>

theorem fork_child:
  assumes "proc_inv k" and "curproc k < NPROC" and "pstate (myproc k) = RUNNING" and "kfork e k = Ok (r, k1)"
    and "nextpid k < 2 ^ 31 - 1"
  shows "proc_inv k1 \<and> (\<forall>i<NPROC. pstate (procs k ! i) \<noteq> UNUSED \<longrightarrow> procs k1 ! i = procs k ! i) \<and>
    (r = -1 \<or> (\<forall>i<NPROC. pid (procs k ! i) \<noteq> r) \<and>
      (\<exists>np<NPROC. pstate (procs k ! np) = UNUSED \<and> forked (myproc k) (curproc k) r (procs k1 ! np)))"
proof -
  have len: "length (procs k) = NPROC" using assms(1) by (simp add: proc_inv_def)
  note succ = proc_inv_succ [OF assms(1,5)]
  obtain q ka where q: "allocproc e k = Ok (q, ka)" using assms(4) by (auto simp: kfork_alt cmd_simps obind_eq_Ok)
  show ?thesis
  proof (cases rule: allocproc_cases [OF q len])
    case 1
    then show ?thesis using assms q by (auto simp: kfork_alt cmd_simps)
  next
    case (2 np)
    have np: "np < NPROC" "pstate (procs k ! np) = UNUSED" using find_slot [OF 2(2)] by auto
    have "proc_inv ka" using 2 succ by (intro proc_inv_unused [OF assms(1) 2(3) np(1)]) simp_all
    moreover have "r = -1" "k1 = ka" using assms(4) q 2(1) by (auto simp: kfork_alt cmd_simps)
    ultimately show ?thesis using 2(3) np by (auto simp: only_def)
  next
    case (3 np)
    have np: "np < NPROC" "pstate (procs k ! np) = UNUSED" using 3(2) find_slot by (auto simp: allocated_def)
    then have neq: "np \<noteq> curproc k" using assms(3) by (auto simp: myproc_def)
    have inva: "proc_inv ka" by (rule proc_inv_allocated [OF assms(1,5) 3(2)])
    have o: "only np k ka" "procs ka ! curproc k = myproc k" "curproc ka = curproc k"
      using 3(2) neq by (auto simp: allocated_def only_def myproc_def)
    let ?x = "myproc k"
    obtain c kb where kb: "on_mem (uvmcopy (kend e) (pagetable ?x) (pagetable (procs ka ! np)) (psz ?x)) ka = Ok (c, kb)"
      using assms(4) q 3(1) o by (auto simp: kfork_alt cmd_simps obind_eq_Ok)
    have same: "procs kb = procs ka" "nextpid kb = nextpid ka" using kb by (auto simp: on_mem_def obind_eq_Ok)
    have invb: "proc_inv kb" using inva unfolding proc_inv_def same .
    show ?thesis
    proof (cases "c < 0")
      case True
      then have f: "freeproc e np kb = Ok ((), k1)" "r = -1"
        using assms(4) q 3(1) o kb by (auto simp: kfork_alt cmd_simps obind_eq_Ok)
      have "np < length (procs kb)" using invb np(1) by (simp add: proc_inv_def)
      then have "only np kb k1" by (rule freeproc_slot(1) [OF f(1)])
      then show ?thesis using proc_inv_freed [OF invb f(1) np(1)] o(1) same np(2) f(2) by (auto simp: only_def)
    next
      case False
      have np2: "np < length (procs kb)" "length (ofile (procs kb ! np)) = NOFILE" "?x = procs kb ! curproc k"
        using invb np(1) same o(2) by (auto simp: proc_inv_def)
      have "fork_tail (curproc k) np ?x kb = Ok (r, k1)"
        using assms(4) q 3(1) o kb False by (simp add: kfork_alt cmd_simps)
      note rest = fork_rest [OF this np2(1) neq np2(2,3)]
      have r: "r = nextpid k" using rest(1) same 3(2) by (simp add: allocated_def)
      have "proc_inv k1"
        using rest r same 3(2) invb np(1) assms(1) succ
        by (intro proc_inv_only [OF invb rest(2) np(1)]) (auto simp: forked_def allocated_def proc_inv_def)
      moreover have "\<forall>i<NPROC. pid (procs k ! i) \<noteq> r" using assms(1) r by (auto simp: proc_inv_def)
      moreover have "procs k1 ! i = procs k ! i" if "pstate (procs k ! i) \<noteq> UNUSED" for i
        using that np(2) rest(2) o(1) same by (cases "i = np") (auto simp: only_def)
      ultimately show ?thesis using rest(4) np by blast
    qed
  qed
qed

text \<open>Copying the descriptors goes through if the files that are open have references.\<close>

lemma fork_files_Ok:
  assumes "p \<noteq> np" "\<And>i f. i \<in> set is \<Longrightarrow> ofile (procs k ! p) ! i = Some f \<Longrightarrow> f < length (ftable k) \<and> 1 \<le> fref (ftable k ! f)"
  shows "\<exists>k1. fork_files p np is k = Ok ((), k1)"
  using assms(2)
proof (induction "is" arbitrary: k)
  case (Cons i js)
  show ?case
  proof (cases "ofile (procs k ! p) ! i")
    case None
    moreover have "\<exists>k1. fork_files p np js k = Ok ((), k1)" by (rule Cons.IH, rule Cons.prems) simp_all
    ultimately show ?thesis by (simp add: cmd_simps)
  next
    case (Some f)
    let ?k = "k\<lparr>ftable := (ftable k)[f := (ftable k ! f)\<lparr>fref := fref (ftable k ! f) + 1\<rparr>],
      procs := (procs k)[np := (procs k ! np)\<lparr>ofile := (ofile (procs k ! np))[i := Some f]\<rparr>]\<rparr>"
    have f: "f < length (ftable k) \<and> 1 \<le> fref (ftable k ! f)" by (rule Cons.prems [OF _ Some]) simp
    have "\<exists>k1. fork_files p np js ?k = Ok ((), k1)"
    proof (rule Cons.IH)
      fix j g
      assume "j \<in> set js" "ofile (procs ?k ! p) ! j = Some g"
      then have "g < length (ftable k) \<and> 1 \<le> fref (ftable k ! g)" using assms(1) by (intro Cons.prems [of j]) simp_all
      then show "g < length (ftable ?k) \<and> 1 \<le> fref (ftable ?k ! g)" by (cases "g = f") simp_all
    qed
    then show ?thesis using Some f by (simp add: cmd_simps filedup_def upd_file_def upd_proc_def)
  qed
qed (simp add: cmd_simps)

lemma fork_tail_Ok:
  assumes "p \<noteq> np" "\<And>i f. i < NOFILE \<Longrightarrow> ofile (procs k ! p) ! i = Some f \<Longrightarrow> f < length (ftable k) \<and> 1 \<le> fref (ftable k ! f)"
  shows "\<exists>r k1. fork_tail p np x k = Ok (r, k1)"
proof -
  let ?k = "k\<lparr>procs := (procs k)[np := (procs k ! np)\<lparr>psz := psz x, tf := (tf x)\<lparr>a0 := 0\<rparr>\<rparr>]\<rparr>"
  have "\<exists>k1. fork_files p np [0..<NOFILE] ?k = Ok ((), k1)"
    using assms(2) by (intro fork_files_Ok [OF assms(1)]) (use assms(1) in simp)
  then show ?thesis by (auto simp: fork_tail_def cmd_simps upd_proc_def on_fs_def idup_def upd_ino_def)
qed

section \<open>A small kernel\<close>

text \<open>Process 0 runs, every other slot is unused, and there is no free memory.\<close>

definition proc0 :: proc where
  "proc0 = \<lparr>pstate = UNUSED, chan = ChNone, pkilled = False, xstate = 0, pid = 0, parent = None, kstack = 0, psz = 0, pagetable = 0,
     trapframe_pa = 0, tf = \<lparr>kernel_satp = 0, kernel_sp = 0, kernel_trap = 0, epc = 0, kernel_hartid = 0, tf_ra = 0, tf_sp = 0, tf_gp = 0,
       tf_tp = 0, tf_t = replicate 7 0, tf_s = replicate 12 0, a0 = 0, a1 = 0, a2 = 0, a3 = 0, a4 = 0, a5 = 0, a6 = 0, a7 = 0\<rparr>,
     pcontext = \<lparr>cra = 0, csp = 0, csaved = replicate 12 0\<rparr>, ofile = replicate NOFILE None, cwd = None, pname = replicate 16 0\<rparr>"

definition kernel1 :: kernel where
  "kernel1 = \<lparr>kmem = \<lparr>pmem = (\<lambda>_. 0), freelist = 0\<rparr>,
     kfs = \<lparr>fcache = \<lparr>disk = (\<lambda>_. 0), read_count = 0, write_count = 0, bufs = [], curpid = 1, wtrace = []\<rparr>, flog = log0,
       fsb = get_sb (replicate BSIZE 0), itable = []\<rparr>,
     ftable = [], pipes = (\<lambda>_. \<lparr>pdata = [], nread = 0, nwrite = 0, readopen = False, writeopen = False\<rparr>),
     procs = proc0\<lparr>pstate := RUNNING, pid := 1\<rparr> # replicate 63 proc0, nextpid = 2, initproc = Some 0, curproc = 0, ticks = 0\<rparr>"

definition kenv1 :: kenv where
  "kenv1 = \<lparr>kend = 0x40021000, trampoline_pa = 0x40007000, forkret_va = 0x40002000, usertrap_va = 0x40003000\<rparr>"

lemma kernel1_proc: "procs kernel1 ! i = (if i = 0 then proc0\<lparr>pstate := RUNNING, pid := 1\<rparr> else proc0)" if "i < 64"
  using that by (cases i) (simp_all add: kernel1_def)

lemma kernel1_inv: "proc_inv kernel1"
  by (auto simp: proc_inv_def kernel1_proc) (auto simp: kernel1_def proc0_def)

lemma kernel1_slot: "find (\<lambda>i. pstate (procs kernel1 ! i) = UNUSED) [0..<NPROC] = Some 1"
  unfolding find_Some_iff by (intro exI [of _ 1]) (simp add: kernel1_proc proc0_def)

section \<open>A kernel that can fork\<close>

text \<open>
  Four free pages: one for the trap frame, the root of the new page table and the two tables on the way to the trampoline and the
  trap frame, which share them. The running process has a directory and one open file.
\<close>

unbundle bit_operations_syntax

definition pages4 :: kstate where
  "pages4 = \<lparr>pmem = st64 (st64 (st64 (\<lambda>_. 0) 0x50001000 0x50002000) 0x50002000 0x50003000) 0x50003000 0x50004000,
     freelist = 0x50001000\<rparr>"

definition kernel2 :: kernel where
  "kernel2 = kernel1\<lparr>kmem := pages4, kfs := (kfs kernel1)\<lparr>itable := [inode0\<lparr>iref := 1\<rparr>]\<rparr>,
     ftable := [\<lparr>ftype = FD_DEVICE, fref = 1, readable = True, writable = True, fpipe = 0, fip = None, foff = 0, fmajor = 0\<rparr>],
     procs := proc0\<lparr>pstate := RUNNING, pid := 1, cwd := Some 0, ofile := (ofile proc0)[1 := Some 0]\<rparr> # replicate 63 proc0\<rparr>"

lemmas page_simps = ld64_memset pfn_def kalloc_def Let_def

lemma kalloc4: "kalloc pages4 = (0x50001000, \<lparr>pmem = memset (pmem pages4) 0x50001000 5 4096, freelist = 0x50002000\<rparr>)"
  by (simp add: pages4_def page_simps)

definition root4 :: kstate where
  "root4 = \<lparr>pmem = memset (memset (memset (pmem pages4) 0x50001000 5 4096) 0x50002000 5 4096) 0x50002000 0 4096, freelist = 0x50003000\<rparr>"

lemma uvmcreate4: "uvmcreate \<lparr>pmem = memset (pmem pages4) 0x50001000 5 4096, freelist = 0x50002000\<rparr> = (0x50002000, root4)"
  by (simp add: uvmcreate_def root4_def pages4_def page_simps)

lemma root4_next: "ld64 (pmem root4) 0x50003000 = 0x50004000" "freelist root4 = 0x50003000"
  "ld64 (pmem root4) (0x50002000 + 2040) = 0"
  by (simp_all add: root4_def pages4_def page_simps)

lemma PX_tramp: "PX 2 TRAMPOLINE = 255" "PX (Suc 0) TRAMPOLINE = 511" "PX 0 TRAMPOLINE = 511"
  "PX 2 TRAPFRAME = 255" "PX (Suc 0) TRAPFRAME = 511" "PX 0 TRAPFRAME = 510"
  by (simp_all add: PX_def PXSHIFT_def)



definition mid4 :: kstate where
  "mid4 = \<lparr>pmem = st64 (memset (memset (pmem root4) 0x50003000 5 4096) 0x50003000 0 4096) 0x500027F8 (PA2PTE 0x50003000 OR PTE_V),
     freelist = 0x50004000\<rparr>"

definition tables4 :: kstate where
  "tables4 = \<lparr>pmem = st64 (memset (memset (pmem mid4) 0x50004000 5 4096) 0x50004000 0 4096) 0x50003FF8 (PA2PTE 0x50004000 OR PTE_V),
     freelist = ld64 (pmem mid4) 0x50004000\<rparr>"

lemma mid4_next: "ld64 (pmem mid4) 0x500027F8 = PA2PTE 0x50003000 OR PTE_V" "ld64 (pmem mid4) 0x50003FF8 = 0" "freelist mid4 = 0x50004000"
  by (simp_all add: mid4_def ld64_memset pfn_def)

lemma tables4_next: "ld64 (pmem tables4) 0x500027F8 = PA2PTE 0x50003000 OR PTE_V" 
  "ld64 (pmem tables4) 0x50003FF8 = PA2PTE 0x50004000 OR PTE_V"
  "ld64 (pmem tables4) 0x50004FF8 = 0" "ld64 (pmem tables4) 0x50004FF0 = 0"
  by (simp_all add: tables4_def mid4_next ld64_memset pfn_def)

lemma walk_root4: "walk_loop (Suc (Suc 0)) 0x50002000 TRAMPOLINE True root4 = walk_loop (Suc 0) 0x50003000 TRAMPOLINE True mid4"
proof -
  have "kalloc root4 = (0x50003000, \<lparr>pmem = memset (pmem root4) 0x50003000 5 4096, freelist = 0x50004000\<rparr>)"
    using root4_next by (simp add: kalloc_def)
  moreover have "pte_addr 0x50002000 (Suc (Suc 0)) TRAMPOLINE = 0x500027F8"
    using PX_tramp(1) by (simp add: pte_addr_def numeral_2_eq_2)
  moreover have "ld64 (pmem root4) 0x500027F8 = 0" using root4_next(3) by simp
  ultimately show ?thesis by (simp only: walk_loop.simps Let_def mid4_def) simp
qed

lemma walk_mid4: "walk_loop (Suc 0) 0x50003000 TRAMPOLINE True mid4 = (0x50004FF8, tables4)"
proof -
  have "kalloc mid4 = (0x50004000, \<lparr>pmem = memset (pmem mid4) 0x50004000 5 4096, freelist = ld64 (pmem mid4) 0x50004000\<rparr>)"
    by (simp add: kalloc_def mid4_def)
  moreover have "pte_addr 0x50003000 (Suc 0) TRAMPOLINE = 0x50003FF8" "pte_addr 0x50004000 0 TRAMPOLINE = 0x50004FF8"
    using PX_tramp by (simp_all add: pte_addr_def)
  moreover note mid4_next(2)
  ultimately show ?thesis by (simp only: walk_loop.simps Let_def tables4_def) simp
qed


definition tramp4 :: "u64 \<Rightarrow> kstate" where
  "tramp4 v = tables4\<lparr>pmem := st64 (pmem tables4) 0x50004FF8 v\<rparr>"

lemma map_tramp4: "\<exists>v. mappages 0x50002000 TRAMPOLINE PGSIZE pa perm root4 = Ok (0, tramp4 v)"
proof -
  have "walk 0x50002000 TRAMPOLINE True root4 = Ok (0x50004FF8, tables4)"
    using walk_root4 walk_mid4 by (simp add: walk_def numeral_2_eq_2 [symmetric])
  then show ?thesis by (simp add: mappages_def mappages_loop.simps [of _ TRAMPOLINE] tables4_next tramp4_def) blast
qed

lemma PTE2PA_tab4: "PTE2PA (PA2PTE 0x50003000 OR PTE_V) = 0x50003000" "PTE2PA (PA2PTE 0x50004000 OR PTE_V) = 0x50004000"
    "(PA2PTE 0x50003000 OR PTE_V) AND PTE_V \<noteq> 0" "(PA2PTE 0x50004000 OR PTE_V) AND PTE_V \<noteq> 0"
  by (simp_all add: PTE2PA_def PA2PTE_def)

lemma walk_tramp4: "walk_loop (Suc (Suc 0)) 0x50002000 TRAPFRAME True (tramp4 v) = (0x50004FF0, tramp4 v)"
proof -
  have "pte_addr 0x50002000 (Suc (Suc 0)) TRAPFRAME = 0x500027F8" "pte_addr 0x50003000 (Suc 0) TRAPFRAME = 0x50003FF8"
    "pte_addr 0x50004000 0 TRAPFRAME = 0x50004FF0"
    using PX_tramp by (simp_all add: pte_addr_def numeral_2_eq_2)
  moreover have "ld64 (pmem (tramp4 v)) 0x500027F8 = PA2PTE 0x50003000 OR PTE_V" "ld64 (pmem (tramp4 v)) 0x50003FF8 = PA2PTE 0x50004000 OR PTE_V"
    by (simp_all add: tramp4_def tables4_next)
  ultimately show ?thesis by (simp only: walk_loop.simps Let_def PTE2PA_tab4 if_True simp_thms)
qed

lemma map_trapframe4: "\<exists>s. mappages 0x50002000 TRAPFRAME PGSIZE pa perm (tramp4 v) = Ok (0, s)"
proof -
  have "ld64 (pmem (tramp4 v)) 0x50004FF0 = 0" by (simp add: tramp4_def tables4_next)
  moreover have "walk 0x50002000 TRAPFRAME True (tramp4 v) = Ok (0x50004FF0, tramp4 v)"
    using walk_tramp4 [of v] by (simp add: walk_def numeral_2_eq_2 [symmetric])
  ultimately show ?thesis by (simp add: mappages_def mappages_loop.simps [of _ TRAPFRAME])
qed

lemma proc_pagetable4:
  assumes "kmem k = \<lparr>pmem = memset (pmem pages4) 0x50001000 5 4096, freelist = 0x50002000\<rparr>"
  shows "\<exists>s. proc_pagetable e p k = Ok (0x50002000, k\<lparr>kmem := s\<rparr>)"
proof -
  obtain v where v: "mappages 0x50002000 TRAMPOLINE PGSIZE (trampoline_pa e) (PTE_R OR PTE_X) root4 = Ok (0, tramp4 v)"
    using map_tramp4 by blast
  obtain s where s: "mappages 0x50002000 TRAPFRAME PGSIZE (trapframe_pa (procs k ! p)) (PTE_R OR PTE_W) (tramp4 v) = Ok (0, s)"
    using map_trapframe4 by blast
  show ?thesis using v s by (simp add: proc_pagetable_def on_mem_def k_mappages_def cmd_simps assms uvmcreate4) blast
qed


lemma kernel2_slot: "find (\<lambda>i. pstate (procs kernel2 ! i) = UNUSED) [0..<NPROC] = Some 1"
  unfolding find_Some_iff by (intro exI [of _ 1]) (simp add: kernel2_def proc0_def)

lemma kernel2_alloc: "\<exists>k1. allocproc kenv1 kernel2 = Ok (Some 1, k1) \<and> kfs k1 = kfs kernel2 \<and> ftable k1 = ftable kernel2"
proof -
  have l: "length (procs kernel2) = 64" "kmem kernel2 = pages4" "nextpid kernel2 = 2" by (simp_all add: kernel2_def kernel1_def)
  define k where "k = kernel2\<lparr>nextpid := 3, kmem := \<lparr>pmem = memset (pmem pages4) 0x50001000 5 4096, freelist = 0x50002000\<rparr>,
    procs := (procs kernel2)[1 := (procs kernel2 ! 1)\<lparr>pid := 2, pstate := USED, trapframe_pa := 0x50001000\<rparr>]\<rparr>"
  obtain s where s: "proc_pagetable kenv1 1 k = Ok (0x50002000, k\<lparr>kmem := s\<rparr>)" using proc_pagetable4 [of k kenv1 1] by (auto simp: k_def)
  have "int_succ 2 = 3" by (simp add: int_succ_less)
  then show ?thesis using s
    by (simp add: allocproc_def kernel2_slot allocpid_def upd_proc_def cmd_simps k_kalloc_def on_mem_def kalloc4 l k_def [symmetric])
       (simp add: k_def cmd_simps upd_proc_def)
qed

lemma kernel2_inv: "proc_inv kernel2"
proof -
  have "procs kernel2 ! i = (if i = 0 then proc0\<lparr>pstate := RUNNING, pid := 1, cwd := Some 0, ofile := (ofile proc0)[1 := Some 0]\<rparr> else proc0)"
    if "i < 64" for i using that by (cases i) (simp_all add: kernel2_def)
  then show ?thesis by (auto simp: proc_inv_def) (auto simp: kernel2_def kernel1_def proc0_def)
qed

lemma kernel2_fork: "\<exists>k1. kfork kenv1 kernel2 = Ok (2, k1)"
proof -
  obtain ka where ka: "allocproc kenv1 kernel2 = Ok (Some 1, ka)" "kfs ka = kfs kernel2" "ftable ka = ftable kernel2"
    using kernel2_alloc by blast
  have "length (procs kernel2) = NPROC" by (simp add: kernel2_def)
  then have "allocated 1 kernel2 ka" using ka(1) by (elim allocproc_cases [OF ka(1)]) auto
  then have a: "only 1 kernel2 ka" "pid (procs ka ! 1) = 2" "length (procs ka) = NPROC" "ofile (procs ka ! 1) = ofile (procs kernel2 ! 1)"
    by (auto simp: allocated_def only_def kernel2_def kernel1_def)
  then have p0: "procs ka ! 0 = procs kernel2 ! 0" by (simp add: only_def)
  have ft: "f < length (ftable ka) \<and> 1 \<le> fref (ftable ka ! f)" if "i < NOFILE" "ofile (procs ka ! 0) ! i = Some f" for i f
    using that unfolding p0 ka(3) by (cases "i = 1") (auto simp: kernel2_def proc0_def)
  have "\<exists>r k1. fork_tail 0 1 (procs ka ! 0) ka = Ok (r, k1)" by (rule fork_tail_Ok [OF zero_neq_one]) (rule ft)
  then obtain r k1 where r: "fork_tail 0 1 (procs ka ! 0) ka = Ok (r, k1)" by blast
  then have "r = 2" using fork_rest(1) [OF r] a by (simp add: kernel2_def proc0_def)
  moreover have "psz (procs ka ! 0) = 0" "curproc kernel2 = 0" unfolding p0 by (simp_all add: kernel2_def kernel1_def proc0_def)
  ultimately show ?thesis
    using r ka(1) by (simp add: kfork_alt cmd_simps on_mem_def uvmcopy_def uvmcopy_loop.simps)
qed

theorem fork_child_witness:
  "\<exists>k1 np. kfork kenv1 kernel2 = Ok (2, k1) \<and> proc_inv k1 \<and> procs k1 ! 0 = procs kernel2 ! 0 \<and> forked (myproc kernel2) 0 2 (procs k1 ! np) \<and>
     ofile (procs k1 ! np) ! 1 = Some 0"
proof -
  obtain k1 where k1: "kfork kenv1 kernel2 = Ok (2, k1)" using kernel2_fork by blast
  have c: "curproc kernel2 = 0" "pstate (myproc kernel2) = RUNNING" "pstate (procs kernel2 ! 0) \<noteq> UNUSED" "nextpid kernel2 < 2 ^ 31 - 1"
      "ofile (myproc kernel2) ! 1 = Some 0"
    by (simp_all add: kernel2_def kernel1_def myproc_def proc0_def)
  have "proc_inv k1" "procs k1 ! 0 = procs kernel2 ! 0" "\<exists>np. forked (myproc kernel2) 0 2 (procs k1 ! np)"
    using fork_child [OF kernel2_inv _ c(2) k1 c(4)] c(1,3) by auto
  then show ?thesis using k1 c(5) by (auto simp: forked_def)
qed

section \<open>Killing process 0\<close>

text \<open>
  C26: \<open>kill(0)\<close> succeeds and poisons a free slot. The numbers of unused slots are 0, so \<open>kill\<close> finds the first unused slot,
  the one \<open>fork\<close> will take next, and marks it as killed; \<open>allocproc\<close> does not clear the mark, so the next process that is
  created starts out killed.
\<close>

theorem kill_zero_poisons_slot:
  assumes "proc_inv k" and "find (\<lambda>i. pstate (procs k ! i) = UNUSED) [0..<NPROC] = Some p"
  shows "\<exists>k1. kkill 0 k = Ok (0, k1) \<and> pkilled (procs k1 ! p) \<and> pstate (procs k1 ! p) = UNUSED \<and>
    (\<forall>e q k2. allocproc e k1 = Ok (Some q, k2) \<longrightarrow> q = p \<and> pkilled (procs k2 ! q))"
proof -
  have p: "p < NPROC" "pstate (procs k ! p) = UNUSED" "length (procs k) = NPROC" using find_slot [OF assms(2)] assms(1) by (auto simp: proc_inv_def)
  have u: "pid (procs k ! i) = 0 \<longleftrightarrow> pstate (procs k ! i) = UNUSED" if "i < NPROC" for i using assms(1) that by (simp add: proc_inv_def)
  have f: "find (\<lambda>i. pid (procs k ! i) = 0) [0..<NPROC] = Some p"
    using assms(2) u by (auto simp: find_Some_iff)
  let ?k1 = "k\<lparr>procs := (procs k)[p := (procs k ! p)\<lparr>pkilled := True, pstate := UNUSED\<rparr>]\<rparr>"
  have same: "pstate (procs ?k1 ! i) = pstate (procs k ! i)" for i using p by (cases "i = p") auto
  have "kkill 0 k = Ok (0, ?k1)" using f p(2) by (simp add: kkill_def cmd_simps upd_proc_def)
  moreover have "pkilled (procs ?k1 ! p)" "pstate (procs ?k1 ! p) = UNUSED" using p by simp_all
  moreover have "q = p \<and> pkilled (procs k2 ! q)" if a: "allocproc e ?k1 = Ok (Some q, k2)" for e q k2
  proof -
    have "length (procs ?k1) = NPROC" using p by simp
    then have "allocated q ?k1 k2" using a by (elim allocproc_cases) auto
    then show ?thesis using assms(2) p unfolding allocated_def same by simp
  qed
  ultimately show ?thesis by blast
qed

theorem kill_zero_poisons_slot_witness:
  "\<exists>k1. kkill 0 kernel1 = Ok (0, k1) \<and> pkilled (procs k1 ! 1) \<and> pstate (procs k1 ! 1) = UNUSED"
proof -
  from kill_zero_poisons_slot [OF kernel1_inv kernel1_slot] show ?thesis by blast
qed

end
