(* ===== verification/Xv6_Trap_Spec.thy ===== *)
theory Xv6_Trap_Spec
  imports Xv6_Trap Xv6_Proc_Spec
begin

unbundle bit_operations_syntax

text \<open>
  System calls and traps end to end: what a process finds when it is back in user space, that a process that is killed exits
  at its trap, and what calls with a bad descriptor do.
\<close>

section \<open>Commands of the trap layer\<close>

lemma on_k_apply [cmd_simps]: "on_k c m = obind (c (tk m)) (\<lambda>(a, k). Ok (a, m\<lparr>tk := k\<rparr>))"
  by (simp add: on_k_def)

lemma set_regs_apply [cmd_simps]: "set_regs f m = Ok ((), m\<lparr>tr := f (tr m)\<rparr>)"
  by (simp add: set_regs_def cmd_simps)

lemma upd_me_apply [cmd_simps]: "upd_me f k = Ok ((), k\<lparr>procs := (procs k)[curproc k := f (myproc k)]\<rparr>)"
  by (simp add: upd_me_def upd_proc_def myproc_def cmd_simps)

definition with_tf :: "(trapframe \<Rightarrow> trapframe) \<Rightarrow> kernel \<Rightarrow> kernel" where
  "with_tf f k = k\<lparr>procs := (procs k)[curproc k := (myproc k)\<lparr>tf := f (tf (myproc k))\<rparr>]\<rparr>"

lemma set_tf_apply [cmd_simps]: "set_tf f m = Ok ((), m\<lparr>tk := with_tf f (tk m)\<rparr>)"
  by (simp add: set_tf_def with_tf_def cmd_simps)

lemma set_a0_apply [cmd_simps]: "set_a0 v k = Ok ((), with_tf (\<lambda>t. t\<lparr>a0 := v\<rparr>) k)"
  by (simp add: set_a0_def with_tf_def cmd_simps)

lemma with_tf_simps [simp]:
  "curproc (with_tf f k) = curproc k" "length (procs (with_tf f k)) = length (procs k)"
  "curproc k < length (procs k) \<Longrightarrow> myproc (with_tf f k) = (myproc k)\<lparr>tf := f (tf (myproc k))\<rparr>"
  by (simp_all add: with_tf_def myproc_def)

lemma t_killed_apply [cmd_simps]: "t_killed m = Ok (pkilled (myproc (tk m)), m)"
  by (simp add: t_killed_def cmd_simps)

section \<open>Returning to user space\<close>

text \<open>The instruction \<open>sret\<close>: whether it enters user mode, where, and with interrupts enabled or not.\<close>

definition sret :: "trapregs \<Rightarrow> bool \<times> u64 \<times> bool" where
  "sret r = (sstatus r AND SSTATUS_SPP = 0, sepc r, sstatus r AND SSTATUS_SPIE \<noteq> 0)"

lemma user_status:
  defines "st \<equiv> \<lambda>x :: u64. ((x AND NOT SSTATUS_SIE) AND NOT SSTATUS_SPP) OR SSTATUS_SPIE"
  shows "st x AND SSTATUS_SPP = 0" "st x AND SSTATUS_SPIE \<noteq> 0" "st x AND SSTATUS_SIE = 0"
proof -
  have b: "bit (2 :: u64) n \<longleftrightarrow> n = 1" "bit (32 :: u64) n \<longleftrightarrow> n = 5" "bit (256 :: u64) n \<longleftrightarrow> n = 8" for n
    using bit_exp_iff [where 'a = u64, of 1 n] bit_exp_iff [where 'a = u64, of 5 n] bit_exp_iff [where 'a = u64, of 8 n] by auto
  show "st x AND SSTATUS_SPP = 0" by (rule bit_word_eqI) (simp only: st_def bit_simps b, auto)
  show "st x AND SSTATUS_SIE = 0" by (rule bit_word_eqI) (simp only: st_def bit_simps b, auto)
  have "bit (st x AND SSTATUS_SPIE) 5" by (simp only: st_def bit_simps b) simp
  then show "st x AND SSTATUS_SPIE \<noteq> 0" by auto
qed

lemma usertrap_ret_spec:
  assumes "curproc (tk m) < length (procs (tk m))"
  shows "\<exists>m1. usertrap_ret e v m = Ok (MAKE_SATP (pagetable (myproc (tk m))), m1) \<and>
    sret (tr m1) = (True, epc (tf (myproc (tk m))), True) \<and> \<not> intr_get (tr m1) \<and>
    stvec (tr m1) = TRAMPOLINE + (uservec_va v - trampoline_va v) \<and>
    tk m1 = with_tf (\<lambda>t. t\<lparr>kernel_satp := satp (tr m), kernel_sp := kstack (myproc (tk m)) + PGSIZE,
      kernel_trap := usertrap_va e, kernel_hartid := tp (tr m)\<rparr>) (tk m)"
  using assms user_status [of "sstatus (tr m)"]
  by (simp add: usertrap_ret_def prepare_return_def cmd_simps sret_def intr_get_def intr_off_def)

lemma usertrap_syscall:
  assumes "sstatus (tr m) AND SSTATUS_SPP = 0" and "scause (tr m) = 8"
    and "\<not> pkilled (myproc (tk m))" and "curproc (tk m) < length (procs (tk m))"
    and "num = sint (ucast (a7 (tf (myproc (tk m)))) :: u32)" and "0 < num" and "num < 22"
    and "(syscalls e d pad ! nat (num - 1)) (with_tf (\<lambda>t. t\<lparr>epc := sepc (tr m) + 4\<rparr>) (tk m)) = Ok (Some r, k1)"
    and "curproc k1 < length (procs k1)" and "\<not> pkilled (myproc k1)"
  shows "usertrap e v d pad m = Ok (Resume, m\<lparr>tk := with_tf (\<lambda>t. t\<lparr>a0 := r\<rparr>) k1, tr := intr_on ((tr m)\<lparr>stvec := kernelvec_va v\<rparr>)\<rparr>)"
proof -
  have "with_tf (\<lambda>t. t\<lparr>epc := epc t + 4\<rparr>) (with_tf (\<lambda>t. t\<lparr>epc := pc\<rparr>) (tk m)) = with_tf (\<lambda>t. t\<lparr>epc := pc + 4\<rparr>) (tk m)" for pc
    using assms(4) by (simp add: with_tf_def myproc_def)
  then show ?thesis using assms by (simp add: usertrap_def usertrap_cause_def syscall_def cmd_simps)
qed

text \<open>
  C23: a system call ends where it should. When a process that is not killed executes \<open>ecall\<close> with the number of a
  call that returns \<open>v\<close>, the kernel resumes it, and the return to user space enters user mode with interrupts on, at
  the program counter the call left (the instruction after \<open>ecall\<close> unless \<open>exec\<close> replaced it), with \<open>v\<close> in \<open>a0\<close>
  and every other register as the call left it, and traps going to the trampoline again.
\<close>

theorem syscall_returns:
  assumes "sstatus (tr m) AND SSTATUS_SPP = 0" and "scause (tr m) = 8"
    and "\<not> pkilled (myproc (tk m))" and "curproc (tk m) < length (procs (tk m))"
    and "num = sint (ucast (a7 (tf (myproc (tk m)))) :: u32)" and "0 < num" and "num < 22"
    and "(syscalls e d pad ! nat (num - 1)) (with_tf (\<lambda>t. t\<lparr>epc := sepc (tr m) + 4\<rparr>) (tk m)) = Ok (Some r, k1)"
    and "curproc k1 < length (procs k1)" and "\<not> pkilled (myproc k1)"
  shows "\<exists>m1 m2. usertrap e v d pad m = Ok (Resume, m1) \<and>
    usertrap_ret e v m1 = Ok (MAKE_SATP (pagetable (myproc k1)), m2) \<and>
    sret (tr m2) = (True, epc (tf (myproc k1)), True) \<and> stvec (tr m2) = TRAMPOLINE + (uservec_va v - trampoline_va v) \<and>
    tf (myproc (tk m2)) = (tf (myproc k1))\<lparr>a0 := r, kernel_satp := satp (tr m), kernel_sp := kstack (myproc k1) + PGSIZE,
      kernel_trap := usertrap_va e, kernel_hartid := tp (tr m)\<rparr>"
proof -
  let ?m1 = "m\<lparr>tk := with_tf (\<lambda>t. t\<lparr>a0 := r\<rparr>) k1, tr := intr_on ((tr m)\<lparr>stvec := kernelvec_va v\<rparr>)\<rparr>"
  have "usertrap e v d pad m = Ok (Resume, ?m1)" using assms by (rule usertrap_syscall)
  moreover obtain m2 where "usertrap_ret e v ?m1 = Ok (MAKE_SATP (pagetable (myproc (tk ?m1))), m2)"
      "sret (tr m2) = (True, epc (tf (myproc (tk ?m1))), True)" "stvec (tr m2) = TRAMPOLINE + (uservec_va v - trampoline_va v)"
      "tk m2 = with_tf (\<lambda>t. t\<lparr>kernel_satp := satp (tr ?m1), kernel_sp := kstack (myproc (tk ?m1)) + PGSIZE,
        kernel_trap := usertrap_va e, kernel_hartid := tp (tr ?m1)\<rparr>) (tk ?m1)"
    using usertrap_ret_spec [of ?m1 e v] assms(9) by auto
  ultimately show ?thesis using assms(9) by (intro exI [of _ ?m1] exI [of _ m2]) (simp add: intr_on_def)
qed

section \<open>Killed processes\<close>

text \<open>The running process and the files are the same.\<close>

definition same_user :: "kernel \<Rightarrow> kernel \<Rightarrow> bool" where
  "same_user k k1 \<longleftrightarrow> curproc k1 = curproc k \<and> initproc k1 = initproc k \<and> length (procs k1) = length (procs k) \<and> myproc k1 = myproc k \<and>
     kfs k1 = kfs k \<and> ftable k1 = ftable k \<and> pipes k1 = pipes k"

lemma wakeup_same_user: "curproc k < length (procs k) \<Longrightarrow> \<exists>k1. wakeup c k = Ok ((), k1) \<and> same_user k k1"
  by (simp add: wakeup_def cmd_simps same_user_def myproc_def Let_def)

lemma same_user_trans: "same_user k k1 \<Longrightarrow> same_user k1 k2 \<Longrightarrow> same_user k k2"
  by (simp add: same_user_def)

lemma on_wakeup:
  assumes "curproc (tk m) < length (procs (tk m))"
  shows "\<exists>k1. (if b then on_k (wakeup c) else ret ()) m = Ok ((), m\<lparr>tk := k1\<rparr>) \<and> same_user (tk m) k1"
proof (cases b)
  case True
  then show ?thesis using wakeup_same_user [OF assms, of c] by (auto simp: cmd_simps)
next
  case False
  then show ?thesis by (intro exI [of _ "tk m"]) (simp add: cmd_simps same_user_def)
qed

lemma t_uartintr_same_user:
  assumes "curproc (tk m) < length (procs (tk m))"
  shows "\<exists>m1. t_uartintr v m = Ok ((), m1) \<and> same_user (tk m) (tk m1)"
proof -
  obtain u c x wtx wcons where u: "uartintr (pdump v) (lsr_tx_idle v) (tuart m, tcons m) = ((u, c), x, wtx, wcons)"
    by (metis prod.collapse)
  let ?m = "m\<lparr>tuart := u, tcons := c\<rparr>"
  obtain k1 where k1: "(if wtx then on_k (wakeup (ChAddr (tx_chan v))) else ret ()) ?m = Ok ((), ?m\<lparr>tk := k1\<rparr>)" "same_user (tk m) k1"
    using on_wakeup [of ?m] assms by auto
  obtain k2 where k2: "(if wcons then on_k (wakeup (ChAddr (cons_r v))) else ret ()) (?m\<lparr>tk := k1\<rparr>) = Ok ((), ?m\<lparr>tk := k2\<rparr>)" "same_user k1 k2"
    using on_wakeup [of "?m\<lparr>tk := k1\<rparr>"] assms k1(2) by (auto simp: same_user_def)
  show ?thesis using u k1 k2 same_user_trans by (simp add: t_uartintr_def cmd_simps)
qed

lemma devintr_cases:
  assumes "curproc (tk m) < length (procs (tk m))"
  shows "\<exists>m1. devintr v m = Ok (if scause (tr m) = 0x8000000000000009 then 1 else if scause (tr m) = 0x8000000000000005 then 2 else 0, m1) \<and>
    same_user (tk m) (tk m1) \<and> (scause (tr m) \<notin> {0x8000000000000009, 0x8000000000000005} \<longrightarrow> m1 = m)"
proof -
  have refl: "same_user (tk m) (tk m)" by (simp add: same_user_def)
  consider "scause (tr m) = 0x8000000000000009" | "scause (tr m) = 0x8000000000000005"
    | "scause (tr m) \<notin> {0x8000000000000009, 0x8000000000000005}" by blast
  then show ?thesis
  proof cases
    case 1
    have "\<exists>m1. (if sint (irq v) = int UART0_IRQ then t_uartintr v else ret ()) m = Ok ((), m1) \<and> same_user (tk m) (tk m1)"
      using t_uartintr_same_user [OF assms, of v] refl by (simp add: cmd_simps)
    then show ?thesis using 1 by (auto simp: devintr_def plic_claim_def plic_complete_def plic_write_def cmd_simps)
  next
    case 2
    then show ?thesis
      using wakeup_same_user [of "(tk m)\<lparr>ticks := ticks (tk m) + 1\<rparr>" ChTicks] assms refl
      by (auto simp: devintr_def clockintr_def cmd_simps same_user_def myproc_def)
  next
    case 3
    then show ?thesis using refl by (simp add: devintr_def cmd_simps)
  qed
qed

definition page_fault :: "kenv \<Rightarrow> tmach \<Rightarrow> (u64 \<times> kstate) outcome" where
  "page_fault e m =
     (let p = myproc (tk m) in vmfault (kend e) (psz p) (pagetable p) (pagetable p) (stval (tr m)) (kmem (tk m)))"

text \<open>An access beyond the size of the process is refused.\<close>

lemma page_fault_beyond: "psz (myproc (tk m)) \<le> stval (tr m) \<Longrightarrow> page_fault e m = Ok (0, kmem (tk m))"
  by (simp add: page_fault_def vmfault_def)

text \<open>The process as \<open>usertrap\<close> passes it to \<open>kexit\<close>: marked, with the program counter of the trap.\<close>

definition doomed :: "u64 \<Rightarrow> kernel \<Rightarrow> kernel \<Rightarrow> bool" where
  "doomed pc k k1 \<longleftrightarrow> myproc k1 = (myproc k)\<lparr>tf := (tf (myproc k))\<lparr>epc := pc\<rparr>, pkilled := True\<rparr> \<and>
     curproc k1 = curproc k \<and> initproc k1 = initproc k \<and> kfs k1 = kfs k \<and> ftable k1 = ftable k \<and> pipes k1 = pipes k"

lemma with_tf_files [simp]: "initproc (with_tf f k) = initproc k" "kfs (with_tf f k) = kfs k" "ftable (with_tf f k) = ftable k" "pipes (with_tf f k) = pipes k" "kmem (with_tf f k) = kmem k"
  by (simp_all add: with_tf_def)

lemma doomed_same_user:
  assumes "curproc k < length (procs k)" "same_user (with_tf (\<lambda>t. t\<lparr>epc := pc\<rparr>) k) k1"
  shows "pkilled (myproc k) \<Longrightarrow> doomed pc k k1"
    and "\<exists>k2. setkilled (curproc k1) k1 = Ok ((), k2) \<and> doomed pc k k2"
proof -
  have p: "myproc k1 = (myproc k)\<lparr>tf := (tf (myproc k))\<lparr>epc := pc\<rparr>\<rparr>" "curproc k1 < length (procs k1)"
    "curproc k1 = curproc k" "initproc k1 = initproc k" "kfs k1 = kfs k" "ftable k1 = ftable k" "pipes k1 = pipes k"
    using assms by (simp_all add: same_user_def)
  show "doomed pc k k1" if "pkilled (myproc k)" using p that by (simp add: doomed_def)
  have "setkilled (curproc k1) k1 = Ok ((), k1\<lparr>procs := (procs k1)[curproc k1 := (myproc k1)\<lparr>pkilled := True\<rparr>]\<rparr>)"
    by (simp add: setkilled_def upd_proc_def cmd_simps myproc_def)
  moreover have "myproc (k1\<lparr>procs := (procs k1)[curproc k1 := x]\<rparr>) = x" for x using p(2) by (simp add: myproc_def)
  ultimately show "\<exists>k2. setkilled (curproc k1) k1 = Ok ((), k2) \<and> doomed pc k k2" using p by (simp add: doomed_def)
qed

lemma vmfault_step:
  assumes "curproc (tk m) < length (procs (tk m))" and "b \<Longrightarrow> \<exists>pa s. page_fault e m = Ok (pa, s) \<and> (pa = 0 \<or> q)"
  shows "\<exists>pa k1. (if b then t_vmfault e else ret 0) m = Ok (pa, m\<lparr>tk := k1\<rparr>) \<and> same_user (tk m) k1 \<and> (pa = 0 \<or> q)"
proof (cases b)
  case True
  then obtain pa s where s: "page_fault e m = Ok (pa, s)" "pa = 0 \<or> q" using assms(2) by blast
  then have "t_vmfault e m = Ok (pa, m\<lparr>tk := (tk m)\<lparr>kmem := s\<rparr>\<rparr>)" by (simp add: t_vmfault_def page_fault_def Let_def cmd_simps on_mem_def)
  moreover have "same_user (tk m) ((tk m)\<lparr>kmem := s\<rparr>)" by (simp add: same_user_def myproc_def)
  ultimately show ?thesis using True s(2) by auto
next
  case False
  then show ?thesis by (auto simp: cmd_simps same_user_def intro: exI [of _ "tk m"])
qed

lemma usertrap_exit:
  assumes "sstatus (tr m) AND SSTATUS_SPP = 0"
    and "usertrap_cause e v d pad (m\<lparr>tr := (tr m)\<lparr>stvec := kernelvec_va v\<rparr>, tk := with_tf (\<lambda>t. t\<lparr>epc := sepc (tr m)\<rparr>) (tk m)\<rparr>) = Ok ((True, dev), m0)"
    and "doomed (sepc (tr m)) (tk m) (tk m0)"
  shows "usertrap e v d pad m = obind (kexit e (-1) (tk m0)) (\<lambda>(_, k). Ok (Exited, m0\<lparr>tk := k\<rparr>))"
  using assms by (cases "kexit e (-1) (tk m0)") (auto simp: usertrap_def cmd_simps doomed_def)

text \<open>
  C21: a process that is marked as killed, or that traps for a reason the kernel does not handle, exits at its trap with status -1.
  A marked process that calls the system does not get its call: \<open>kexit\<close> runs on the files as they were. For a trap that is not a system
  call, a device or the timer, and for an access that \<open>vmfault\<close> does not satisfy, such as one beyond the size of the process, the
  kernel sets the mark itself. A mark that another process sets during the \<open>yield\<close> of a timer interrupt takes effect at the next trap.
\<close>

theorem killed_process_exits:
  assumes "sstatus (tr m) AND SSTATUS_SPP = 0" and "curproc (tk m) < length (procs (tk m))"
    and "pkilled (myproc (tk m)) \<or> scause (tr m) \<notin> {8, 0x8000000000000009, 0x8000000000000005}"
    and "scause (tr m) \<in> {13, 15} \<Longrightarrow> \<exists>pa s. page_fault e m = Ok (pa, s) \<and> (pa = 0 \<or> pkilled (myproc (tk m)))"
  shows "\<exists>m0. usertrap e v d pad m = obind (kexit e (-1) (tk m0)) (\<lambda>(_, k). Ok (Exited, m0\<lparr>tk := k\<rparr>)) \<and> doomed (sepc (tr m)) (tk m) (tk m0)"
proof -
  define m1 where "m1 = m\<lparr>tr := (tr m)\<lparr>stvec := kernelvec_va v\<rparr>, tk := with_tf (\<lambda>t. t\<lparr>epc := sepc (tr m)\<rparr>) (tk m)\<rparr>"
  have m1: "scause (tr m1) = scause (tr m)" "stval (tr m1) = stval (tr m)" "tk m1 = with_tf (\<lambda>t. t\<lparr>epc := sepc (tr m)\<rparr>) (tk m)"
      "curproc (tk m1) < length (procs (tk m1))" "pkilled (myproc (tk m1)) = pkilled (myproc (tk m))" "page_fault e m1 = page_fault e m"
    using assms(2) by (simp_all add: m1_def page_fault_def Let_def)
  note exits = usertrap_exit [OF assms(1), where v = v, folded m1_def]
  note dies = doomed_same_user [OF assms(2), of "sepc (tr m)", folded m1(3)]
  obtain m2 where m2: "devintr v m1 = Ok (if scause (tr m) = 0x8000000000000009 then 1 else if scause (tr m) = 0x8000000000000005 then 2 else 0, m2)"
      "same_user (tk m1) (tk m2)" "scause (tr m) \<notin> {0x8000000000000009, 0x8000000000000005} \<longrightarrow> m2 = m1"
    using devintr_cases [OF m1(4), of v] m1(1) by auto
  consider (call) "scause (tr m) = 8" | (dev) "scause (tr m) \<in> {0x8000000000000009, 0x8000000000000005}"
    | (other) "scause (tr m) \<notin> {8, 0x8000000000000009, 0x8000000000000005}" by blast
  then show ?thesis
  proof cases
    case call
    then have "pkilled (myproc (tk m))" using assms(3) by simp
    then have "doomed (sepc (tr m)) (tk m) (tk m1)" using dies(1) by (simp add: same_user_def)
    moreover have "usertrap e v d pad m = obind (kexit e (-1) (tk m1)) (\<lambda>(_, k). Ok (Exited, m1\<lparr>tk := k\<rparr>))"
      using call assms(1) m1(1,5) \<open>pkilled (myproc (tk m))\<close>
      by (cases "kexit e (-1) (tk m1)") (auto simp: usertrap_def cmd_simps m1_def [symmetric] usertrap_cause_def)
    ultimately show ?thesis by blast
  next
    case dev
    then have "doomed (sepc (tr m)) (tk m) (tk m2)" using dies(1) [OF m2(2)] assms(3) by auto
    moreover have "\<exists>d'. usertrap_cause e v d pad m1 = Ok ((True, d'), m2)"
      using dev m1(1) m2(1) by (auto simp: usertrap_cause_def cmd_simps)
    ultimately show ?thesis using exits by blast
  next
    case other
    obtain pa k2 where k2: "(if scause (tr m) = 15 \<or> scause (tr m) = 13 then t_vmfault e else ret 0) m1 = Ok (pa, m1\<lparr>tk := k2\<rparr>)"
        "same_user (tk m1) k2" "pa = 0 \<or> pkilled (myproc (tk m))"
      using vmfault_step [OF m1(4), of "scause (tr m) = 15 \<or> scause (tr m) = 13" e "pkilled (myproc (tk m))"] assms(4) m1(6) by auto
    show ?thesis
    proof (cases "pa = 0")
      case True
      obtain k3 where k3: "setkilled (curproc k2) k2 = Ok ((), k3)" "doomed (sepc (tr m)) (tk m) k3" using dies(2) [OF k2(2)] by blast
      have "usertrap_cause e v d pad m1 = Ok ((True, 0), m1\<lparr>tk := k3\<rparr>)"
        using other m1(1) m2 k2(1) True k3(1) by (simp add: usertrap_cause_def cmd_simps)
      then show ?thesis using exits k3(2) by fastforce
    next
      case False
      then have "doomed (sepc (tr m)) (tk m) k2" using dies(1) [OF k2(2)] k2(3) by simp
      moreover have "usertrap_cause e v d pad m1 = Ok ((True, 0), m1\<lparr>tk := k2\<rparr>)"
        using other m1(1) m2 k2(1) False by (simp add: usertrap_cause_def cmd_simps)
      ultimately show ?thesis using exits by fastforce
    qed
  qed
qed

section \<open>Failing calls\<close>

text \<open>The descriptor in \<open>a0\<close> is out of range or not open.\<close>

definition bad_fd :: "kernel \<Rightarrow> bool" where
  "bad_fd k \<longleftrightarrow> (let fd = sint (ucast (a0 (tf (myproc k))) :: u32) in fd < 0 \<or> fd \<ge> int NOFILE \<or> ofile (myproc k) ! nat fd = None)"

lemma argraw_low: "argraw 0 k = Ok (a0 (tf (myproc k)), k)" "argraw (Suc 0) k = Ok (a1 (tf (myproc k)), k)" "argraw 2 k = Ok (a2 (tf (myproc k)), k)"
  by (simp_all add: argraw_def cmd_simps)

lemma argfd_bad: "bad_fd k \<Longrightarrow> argfd 0 k = Ok (None, k)"
  by (auto simp: argfd_def argint_def argraw_low bad_fd_def Let_def cmd_simps)

lemma fd_calls_bad:
  assumes "bad_fd k" "num \<in> {5, 8, 10, 16, 21}"
  shows "(syscalls e d pad ! nat (num - 1)) k = Ok (Some (-1), k)"
proof -
  note a = argfd_bad [OF assms(1)]
  consider "num = 5" | "num = 8" | "num = 10" | "num = 16" | "num = 21" using assms(2) by auto
  then show ?thesis
    by cases (simp_all add: syscalls_def returns_def sys_read_def sys_fstat_def sys_dup_def sys_write_def sys_close_def
        argaddr_def argint_def argraw_low a cmd_simps)
qed

text \<open>
  C24: system calls report errors and do nothing else. A number that is not in the table, and \<open>read\<close>, \<open>fstat\<close>, \<open>dup\<close>,
  \<open>write\<close> and \<open>close\<close> with a descriptor that is out of range or not open, give the process the result -1 in \<open>a0\<close> and
  leave everything else as it is.
\<close>

theorem failing_syscalls:
  assumes "num = sint (ucast (a7 (tf (myproc k))) :: u32)"
    and "num \<le> 0 \<or> 22 \<le> num \<or> num \<in> {5, 8, 10, 16, 21} \<and> bad_fd k"
  shows "syscall e d pad k = Ok (True, with_tf (\<lambda>t. t\<lparr>a0 := -1\<rparr>) k)"
proof (cases "0 < num \<and> num < 22")
  case True
  then have "num \<in> {5, 8, 10, 16, 21}" "bad_fd k" using assms(2) by auto
  then show ?thesis using True assms(1) fd_calls_bad [of k num e d pad] by (simp add: syscall_def cmd_simps)
qed (use assms(1) in \<open>auto simp: syscall_def cmd_simps\<close>)

section \<open>Examples\<close>

text \<open>The process of the small kernel executes \<open>ecall\<close> with the call number \<open>n\<close>.\<close>

definition calling :: "u64 \<Rightarrow> kernel" where
  "calling n = with_tf (\<lambda>t. t\<lparr>a7 := n, a0 := 99\<rparr>) kernel1"

definition tmach1 :: "u64 \<Rightarrow> tmach" where
  "tmach1 n = \<lparr>tk = calling n,
     tr = \<lparr>sstatus = 0, sepc = 0x1000, scause = 8, stval = 0, stvec = 0, satp = 5, sie_reg = 0, tp = 0, mhartid = 0, stimer = 0\<rparr>,
     tuart = \<lparr>uwrites = [], urx = [], tx_busy = False\<rparr>, tcons = \<lparr>cbuf = replicate 128 0, cr = 0, cw = 0, ce = 0\<rparr>, plic_writes = []\<rparr>"

definition tenv1 :: tenv where
  "tenv1 = \<lparr>irq = 0, lsr_tx_idle = False, rtime = 0, kernelvec_va = 0x40005000, uservec_va = 0x40007000, trampoline_va = 0x40007000,
     tx_chan = 1, cons_r = 2, pdump = [], has_proc = True\<rparr>"

definition devsw1 :: devsw where
  "devsw1 = \<lparr>dev_read = (\<lambda>_. None), dev_write = (\<lambda>_. None)\<rparr>"

lemma kernel1_cur: "curproc kernel1 < length (procs kernel1)" "myproc kernel1 = proc0\<lparr>pstate := RUNNING, pid := 1\<rparr>"
  by (simp_all add: kernel1_def myproc_def)

lemma calling_facts:
  "curproc (calling n) < length (procs (calling n))" "pid (myproc (calling n)) = 1" "\<not> pkilled (myproc (calling n))"
  "a7 (tf (myproc (calling n))) = n" "a0 (tf (myproc (calling n))) = 99" "pagetable (myproc (calling n)) = 0"
  using kernel1_cur by (simp_all add: calling_def proc0_def)

lemma getpid_example:
  "(syscalls e d pad ! nat (11 - 1)) (with_tf f (calling 11)) = Ok (Some 1, with_tf f (calling 11))"
  using calling_facts [of 11] by (simp add: syscalls_def returns_def sys_getpid_def cmd_simps)

theorem syscall_returns_witness:
  "\<exists>m1 m2. usertrap kenv1 tenv1 devsw1 [] (tmach1 11) = Ok (Resume, m1) \<and> usertrap_ret kenv1 tenv1 m1 = Ok (MAKE_SATP 0, m2) \<and>
     sret (tr m2) = (True, 0x1004, True) \<and> a0 (tf (myproc (tk m2))) = 1"
proof -
  let ?k = "with_tf (\<lambda>t. t\<lparr>epc := 0x1004\<rparr>) (calling 11)"
  have k: "curproc ?k < length (procs ?k)" "\<not> pkilled (myproc ?k)" "epc (tf (myproc ?k)) = 0x1004" "pagetable (myproc ?k) = 0"
    using calling_facts [of 11] by simp_all
  have "\<exists>m1 m2. usertrap kenv1 tenv1 devsw1 [] (tmach1 11) = Ok (Resume, m1) \<and>
    usertrap_ret kenv1 tenv1 m1 = Ok (MAKE_SATP (pagetable (myproc ?k)), m2) \<and> sret (tr m2) = (True, epc (tf (myproc ?k)), True) \<and>
    stvec (tr m2) = TRAMPOLINE + (uservec_va tenv1 - trampoline_va tenv1) \<and>
    tf (myproc (tk m2)) = (tf (myproc ?k))\<lparr>a0 := 1, kernel_satp := satp (tr (tmach1 11)), kernel_sp := kstack (myproc ?k) + PGSIZE,
      kernel_trap := usertrap_va kenv1, kernel_hartid := tp (tr (tmach1 11))\<rparr>"
    by (rule syscall_returns [where num = 11])
      (use k calling_facts [of 11] getpid_example [of kenv1 devsw1 "[]"] in \<open>simp_all add: tmach1_def\<close>)
  then show ?thesis using k by auto
qed

text \<open>Process 1 is \<open>init\<close> in the small kernel, and \<open>kexit\<close> panics for it. In the other machine the running process is not.\<close>

definition marked :: tmach where
  "marked = (tmach1 11)\<lparr>tk := (calling 11)\<lparr>initproc := Some 5, procs := (procs (calling 11))[0 := (myproc (calling 11))\<lparr>pkilled := True\<rparr>]\<rparr>\<rparr>"

definition stray_store :: tmach where
  "stray_store = (tmach1 11)\<lparr>tr := (tr (tmach1 11))\<lparr>scause := 15, stval := 0x8000\<rparr>\<rparr>"

theorem killed_process_exits_witness:
  "(\<exists>m0. usertrap kenv1 tenv1 devsw1 [] marked = obind (kexit kenv1 (-1) (tk m0)) (\<lambda>(_, k). Ok (Exited, m0\<lparr>tk := k\<rparr>)) \<and>
      doomed 0x1000 (tk marked) (tk m0)) \<and>
   usertrap kenv1 tenv1 devsw1 [] stray_store = Panic ''init exiting''"
proof -
  have c: "curproc (calling 11) = 0" "initproc (calling 11) = Some 0" "psz (myproc (calling 11)) = 0"
    using kernel1_cur by (simp_all add: calling_def kernel1_def proc0_def)
  have a: "sepc (tr marked) = 0x1000" "sstatus (tr marked) AND SSTATUS_SPP = 0" "scause (tr marked) = 8"
      "curproc (tk marked) < length (procs (tk marked))" "pkilled (myproc (tk marked))"
    using c(1) calling_facts(1) [of 11] by (simp_all add: marked_def tmach1_def myproc_def)
  have b: "sepc (tr stray_store) = 0x1000" "sstatus (tr stray_store) AND SSTATUS_SPP = 0" "scause (tr stray_store) = 15"
      "stval (tr stray_store) = 0x8000" "tk stray_store = calling 11"
    by (simp_all add: stray_store_def tmach1_def)
  have "page_fault kenv1 stray_store = Ok (0, kmem (calling 11))"
    using page_fault_beyond [of stray_store kenv1] b(4,5) c(3) by simp
  then obtain m0 where m0: "usertrap kenv1 tenv1 devsw1 [] stray_store = obind (kexit kenv1 (-1) (tk m0)) (\<lambda>(_, k). Ok (Exited, m0\<lparr>tk := k\<rparr>))"
      "doomed 0x1000 (calling 11) (tk m0)"
    using killed_process_exits [of stray_store kenv1 tenv1 devsw1 "[]"] b calling_facts(1) [of 11] by auto
  have "kexit kenv1 (-1) (tk m0) = Panic ''init exiting''" using m0(2) c(1,2) by (simp add: doomed_def kexit_def cmd_simps)
  then have "usertrap kenv1 tenv1 devsw1 [] stray_store = Panic ''init exiting''" using m0(1) by simp
  then show ?thesis using killed_process_exits [of marked kenv1 tenv1 devsw1 "[]"] a by auto
qed

theorem failing_syscalls_witness:
  "syscall kenv1 devsw1 [] (calling 77) = Ok (True, with_tf (\<lambda>t. t\<lparr>a0 := -1\<rparr>) (calling 77)) \<and>
   syscall kenv1 devsw1 [] (calling 21) = Ok (True, with_tf (\<lambda>t. t\<lparr>a0 := -1\<rparr>) (calling 21))"
  using failing_syscalls [of 77 "calling 77" kenv1 devsw1 "[]"] failing_syscalls [of 21 "calling 21" kenv1 devsw1 "[]"]
    calling_facts [of 77] calling_facts [of 21]
  by (simp add: bad_fd_def)

end
