(* ===== verification/Xv6_Sdhci.thy ===== *)
theory Xv6_Sdhci
  imports Xv6_Bio
begin

unbundle bit_operations_syntax

text \<open>
  The SD card driver, \<open>kernel/sdhci.c\<close>. The host controller is hardware: its state has a type of its own, and what
  reading and writing its registers does is a parameter \<open>host\<close>, by width in bytes and register. Everything the driver does
  is a function of that parameter. The delays only pass time and the messages are left out. The card's state is the record
  \<open>sdcard\<close>; its spin lock is left out, since each operation here runs from its acquire to its release. \<open>buf->data\<close> is the
  list of its bytes.
\<close>

section \<open>The controller\<close>

record 'd host =
  hread :: "nat \<Rightarrow> u32 \<Rightarrow> 'd \<Rightarrow> u32 \<times> 'd"
  hwrite :: "nat \<Rightarrow> u32 \<Rightarrow> u32 \<Rightarrow> 'd \<Rightarrow> 'd"

record sdcard =
  present :: bool
  initialized :: bool
  rca :: u32
  capacity :: u32
  high_capacity :: bool

record 'd sdstate =
  dev :: 'd
  card :: sdcard

type_synonym ('d, 'a) sdcmd = "('d sdstate, 'a) cmd"

abbreviation (input) SDHCI_BLOCK_SIZE :: u32 where "SDHCI_BLOCK_SIZE \<equiv> 0x04"
abbreviation (input) SDHCI_BLOCK_COUNT :: u32 where "SDHCI_BLOCK_COUNT \<equiv> 0x06"
abbreviation (input) SDHCI_ARGUMENT :: u32 where "SDHCI_ARGUMENT \<equiv> 0x08"
abbreviation (input) SDHCI_TRANSFER_MODE :: u32 where "SDHCI_TRANSFER_MODE \<equiv> 0x0C"
abbreviation (input) SDHCI_COMMAND :: u32 where "SDHCI_COMMAND \<equiv> 0x0E"
abbreviation (input) SDHCI_RESPONSE :: u32 where "SDHCI_RESPONSE \<equiv> 0x10"
abbreviation (input) SDHCI_BUFFER :: u32 where "SDHCI_BUFFER \<equiv> 0x20"
abbreviation (input) SDHCI_PRESENT_STATE :: u32 where "SDHCI_PRESENT_STATE \<equiv> 0x24"
abbreviation (input) SDHCI_POWER_CONTROL :: u32 where "SDHCI_POWER_CONTROL \<equiv> 0x29"
abbreviation (input) SDHCI_CLOCK_CONTROL :: u32 where "SDHCI_CLOCK_CONTROL \<equiv> 0x2C"
abbreviation (input) SDHCI_TIMEOUT_CONTROL :: u32 where "SDHCI_TIMEOUT_CONTROL \<equiv> 0x2E"
abbreviation (input) SDHCI_SOFTWARE_RESET :: u32 where "SDHCI_SOFTWARE_RESET \<equiv> 0x2F"
abbreviation (input) SDHCI_INT_STATUS :: u32 where "SDHCI_INT_STATUS \<equiv> 0x30"
abbreviation (input) SDHCI_INT_ENABLE :: u32 where "SDHCI_INT_ENABLE \<equiv> 0x34"
abbreviation (input) SDHCI_SIGNAL_ENABLE :: u32 where "SDHCI_SIGNAL_ENABLE \<equiv> 0x38"
abbreviation (input) SDHCI_INT_ERROR_MASK :: u32 where "SDHCI_INT_ERROR_MASK \<equiv> 0xFFFF8000"

definition sd_read :: "'d host \<Rightarrow> nat \<Rightarrow> u32 \<Rightarrow> ('d, u32) sdcmd" where
  "sd_read h w reg s = (case hread h w reg (dev s) of (v, d) \<Rightarrow> Ok (v, s\<lparr>dev := d\<rparr>))"

definition sd_write :: "'d host \<Rightarrow> nat \<Rightarrow> u32 \<Rightarrow> u32 \<Rightarrow> ('d, unit) sdcmd" where
  "sd_write h w reg v = modify (\<lambda>s. s\<lparr>dev := hwrite h w reg v (dev s)\<rparr>)"

abbreviation (input) SDHCI_READ :: "'d host \<Rightarrow> u32 \<Rightarrow> ('d, u32) sdcmd" where "SDHCI_READ h \<equiv> sd_read h 4"
abbreviation (input) SDHCI_WRITE :: "'d host \<Rightarrow> u32 \<Rightarrow> u32 \<Rightarrow> ('d, unit) sdcmd" where "SDHCI_WRITE h \<equiv> sd_write h 4"
abbreviation (input) SDHCI_WRITE16 :: "'d host \<Rightarrow> u32 \<Rightarrow> u32 \<Rightarrow> ('d, unit) sdcmd" where "SDHCI_WRITE16 h \<equiv> sd_write h 2"
abbreviation (input) SDHCI_READ8 :: "'d host \<Rightarrow> u32 \<Rightarrow> ('d, u32) sdcmd" where "SDHCI_READ8 h \<equiv> sd_read h 1"
abbreviation (input) SDHCI_WRITE8 :: "'d host \<Rightarrow> u32 \<Rightarrow> u32 \<Rightarrow> ('d, unit) sdcmd" where "SDHCI_WRITE8 h \<equiv> sd_write h 1"

section \<open>Commands\<close>

text \<open>The polling loop, with the number of tries that are left; the result is whether the condition was seen.\<close>

primrec wait_loop :: "'d host \<Rightarrow> u32 \<Rightarrow> u32 \<Rightarrow> u32 \<Rightarrow> nat \<Rightarrow> ('d, bool) sdcmd" where
  "wait_loop h reg msk v 0 = ret False"
| "wait_loop h reg msk v (Suc n) =
     bnd (SDHCI_READ h reg) (\<lambda>x. if x AND msk = v then ret True else wait_loop h reg msk v n)"

definition sdhci_wait_for :: "'d host \<Rightarrow> u32 \<Rightarrow> u32 \<Rightarrow> u32 \<Rightarrow> nat \<Rightarrow> ('d, bool) sdcmd" where
  "sdhci_wait_for h reg msk v timeout_ms = wait_loop h reg msk v (timeout_ms * 10)"

datatype rsp = SD_RSP_NONE | SD_RSP_R1 | SD_RSP_R2 | SD_RSP_R3 | SD_RSP_R6 | SD_RSP_R7

definition cmd_flags :: "rsp \<Rightarrow> u32" where
  "cmd_flags r = (case r of SD_RSP_NONE \<Rightarrow> 0 | SD_RSP_R1 \<Rightarrow> 0x1A | SD_RSP_R6 \<Rightarrow> 0x1A | SD_RSP_R7 \<Rightarrow> 0x1A
     | SD_RSP_R2 \<Rightarrow> 0x09 | SD_RSP_R3 \<Rightarrow> 0x02)"

primrec sd_reads :: "'d host \<Rightarrow> u32 list \<Rightarrow> ('d, u32 list) sdcmd" where
  "sd_reads h [] = ret []"
| "sd_reads h (r # rs) = bnd (SDHCI_READ h r) (\<lambda>x. bnd (sd_reads h rs) (\<lambda>xs. ret (x # xs)))"

text \<open>\<open>want\<close> is whether the caller passes a buffer for the response. The result is \<open>None\<close> for -1.\<close>

definition sdhci_send_cmd :: "'d host \<Rightarrow> byte \<Rightarrow> u32 \<Rightarrow> rsp \<Rightarrow> bool \<Rightarrow> ('d, u32 list option) sdcmd" where
  "sdhci_send_cmd h c arg resp_type want =
     bnd (sdhci_wait_for h SDHCI_PRESENT_STATE 3 0 100) (\<lambda>ok.
     if \<not> ok then ret None
     else thn (SDHCI_WRITE h SDHCI_INT_STATUS 0xFFFFFFFF)
         (thn (SDHCI_WRITE h SDHCI_ARGUMENT arg)
         (thn (SDHCI_WRITE16 h SDHCI_COMMAND (push_bit 8 (ucast c) OR cmd_flags resp_type))
         (bnd (sdhci_wait_for h SDHCI_INT_STATUS 1 1 100) (\<lambda>ok.
          if \<not> ok then ret None
          else bnd (SDHCI_READ h SDHCI_INT_STATUS) (\<lambda>status.
            if status AND SDHCI_INT_ERROR_MASK \<noteq> 0 then ret None
            else bnd (if want \<and> resp_type \<noteq> SD_RSP_NONE
                      then sd_reads h (if resp_type = SD_RSP_R2 then [0x10, 0x14, 0x18, 0x1C] else [0x10])
                      else ret []) (\<lambda>resp.
                 thn (SDHCI_WRITE h SDHCI_INT_STATUS status) (ret (Some resp)))))))))"

definition sdhci_send_acmd :: "'d host \<Rightarrow> byte \<Rightarrow> u32 \<Rightarrow> rsp \<Rightarrow> bool \<Rightarrow> ('d, u32 list option) sdcmd" where
  "sdhci_send_acmd h acmd arg resp_type want =
     bnd (gets (\<lambda>s. rca (card s))) (\<lambda>a.
     bnd (sdhci_send_cmd h 55 (push_bit 16 a) SD_RSP_R1 False) (\<lambda>r.
     if r = None then ret None else sdhci_send_cmd h acmd arg resp_type want))"

text \<open>The loop of \<open>sdhci_reset\<close> with the value of \<open>timeout\<close>; the result is that value at its end.\<close>

primrec reset_loop :: "'d host \<Rightarrow> u32 \<Rightarrow> nat \<Rightarrow> ('d, nat) sdcmd" where
  "reset_loop h msk 0 = bnd (SDHCI_READ8 h SDHCI_SOFTWARE_RESET) (\<lambda>x. ret 0)"
| "reset_loop h msk (Suc n) =
     bnd (SDHCI_READ8 h SDHCI_SOFTWARE_RESET) (\<lambda>x. if x AND msk \<noteq> 0 then reset_loop h msk n else ret (Suc n))"

definition sdhci_reset :: "'d host \<Rightarrow> u32 \<Rightarrow> ('d, int) sdcmd" where
  "sdhci_reset h msk =
     thn (SDHCI_WRITE8 h SDHCI_SOFTWARE_RESET msk)
    (bnd (reset_loop h msk 100) (\<lambda>timeout. ret (if timeout = 0 then -1 else 0)))"

definition clock_div :: "u32 \<Rightarrow> u32" where
  "clock_div clock_hz = (let d = (if clock_hz \<ge> 50000000 then 1 else 50000000 div clock_hz) in if d > 256 then 256 else d)"

definition sdhci_set_clock :: "'d host \<Rightarrow> u32 \<Rightarrow> ('d, int) sdcmd" where
  "sdhci_set_clock h clock_hz =
     thn (SDHCI_WRITE16 h SDHCI_CLOCK_CONTROL 0)
    (let clk = push_bit 8 (clock_div clock_hz AND 0xFF) OR 1
     in thn (SDHCI_WRITE16 h SDHCI_CLOCK_CONTROL clk)
       (bnd (sdhci_wait_for h SDHCI_CLOCK_CONTROL 2 2 10) (\<lambda>ok.
        if \<not> ok then ret (-1)
        else thn (SDHCI_WRITE16 h SDHCI_CLOCK_CONTROL (clk OR 4)) (ret 0))))"

section \<open>Initialisation\<close>

definition upd_card :: "(sdcard \<Rightarrow> sdcard) \<Rightarrow> ('d, unit) sdcmd" where
  "upd_card f = modify (\<lambda>s. s\<lparr>card := f (card s)\<rparr>)"

text \<open>The loop that waits for the card to be ready; \<open>Some True\<close> if it is, \<open>Some False\<close> if the tries are used up, \<open>None\<close> if the
  command fails.\<close>

primrec acmd41_loop :: "'d host \<Rightarrow> nat \<Rightarrow> ('d, bool option) sdcmd" where
  "acmd41_loop h 0 = ret (Some False)"
| "acmd41_loop h (Suc n) =
     bnd (sdhci_send_acmd h 41 0x40FF8000 SD_RSP_R3 True) (\<lambda>r.
     case r of None \<Rightarrow> ret None
     | Some resp \<Rightarrow>
       if hd resp AND 0x80000000 \<noteq> 0
       then thn (upd_card (\<lambda>c. c\<lparr>high_capacity := (hd resp AND 0x40000000 \<noteq> 0)\<rparr>)) (ret (Some True))
       else acmd41_loop h n)"

definition csd_capacity :: "bool \<Rightarrow> u32 list \<Rightarrow> u32" where
  "csd_capacity hc resp =
     (if hc then ((push_bit 16 (resp ! 1 AND 0x3F) OR drop_bit 16 (resp ! 2)) + 1) * 1024 else 0)"

text \<open>A command without which the initialisation fails.\<close>

definition need :: "('d, u32 list option) sdcmd \<Rightarrow> (u32 list \<Rightarrow> ('d, int) sdcmd) \<Rightarrow> ('d, int) sdcmd" where
  "need c f = bnd c (\<lambda>r. case r of None \<Rightarrow> ret (-1) | Some resp \<Rightarrow> f resp)"

definition sdhci_card_init :: "'d host \<Rightarrow> ('d, int) sdcmd" where
  "sdhci_card_init h =
     need (sdhci_send_cmd h 0 0 SD_RSP_NONE False) (\<lambda>_.
     bnd (sdhci_send_cmd h 8 0x1AA SD_RSP_R7 True) (\<lambda>r8.
     if (case r8 of None \<Rightarrow> False | Some resp \<Rightarrow> hd resp AND 0xFF \<noteq> 0xAA) then ret (-1)
     else bnd (acmd41_loop h 100) (\<lambda>rdy.
       if rdy \<noteq> Some True then ret (-1)
       else need (sdhci_send_cmd h 2 0 SD_RSP_R2 True) (\<lambda>_.
            need (sdhci_send_cmd h 3 0 SD_RSP_R6 True) (\<lambda>resp.
            thn (upd_card (\<lambda>c. c\<lparr>rca := drop_bit 16 (hd resp)\<rparr>))
           (bnd (gets (\<lambda>s. push_bit 16 (rca (card s)))) (\<lambda>a.
            need (sdhci_send_cmd h 9 a SD_RSP_R2 True) (\<lambda>resp.
            thn (upd_card (\<lambda>c. c\<lparr>capacity := csd_capacity (high_capacity c) resp\<rparr>))
           (need (sdhci_send_cmd h 7 a SD_RSP_R1 False) (\<lambda>_.
            need (sdhci_send_cmd h 16 512 SD_RSP_R1 False) (\<lambda>_.
            thn (sdhci_set_clock h 25000000)
           (thn (upd_card (\<lambda>c. c\<lparr>initialized := True\<rparr>)) (ret 0)))))))))))))"

definition sdhci_init :: "'d host \<Rightarrow> ('d, unit) sdcmd" where
  "sdhci_init h =
     thn (upd_card (\<lambda>c. c\<lparr>present := False, initialized := False, rca := 0\<rparr>))
    (bnd (sdhci_reset h 1) (\<lambda>r.
     if r < 0 then ret ()
     else bnd (SDHCI_READ h SDHCI_PRESENT_STATE) (\<lambda>st.
       if st AND 0x10000 = 0 then ret ()
       else thn (upd_card (\<lambda>c. c\<lparr>present := True\<rparr>))
           (thn (SDHCI_WRITE8 h SDHCI_POWER_CONTROL 0x0F)
           (thn (SDHCI_WRITE8 h SDHCI_TIMEOUT_CONTROL 0x0E)
           (thn (SDHCI_WRITE h SDHCI_INT_ENABLE 0xFFFFFFFF)
           (thn (SDHCI_WRITE h SDHCI_SIGNAL_ENABLE 0)
           (bnd (sdhci_set_clock h 400000) (\<lambda>r.
            if r < 0 then ret () else thn (sdhci_card_init h) (ret ())))))))))) "

section \<open>Blocks\<close>

text \<open>The words that are read before a timeout, and whether there was none.\<close>

primrec read_words :: "'d host \<Rightarrow> nat \<Rightarrow> ('d, u32 list \<times> bool) sdcmd" where
  "read_words h 0 = ret ([], True)"
| "read_words h (Suc n) =
     bnd (sdhci_wait_for h SDHCI_PRESENT_STATE 0x800 0x800 1000) (\<lambda>ok.
     if \<not> ok then ret ([], False)
     else bnd (SDHCI_READ h SDHCI_BUFFER) (\<lambda>x. bnd (read_words h n) (\<lambda>(xs, ok). ret (x # xs, ok))))"

primrec write_words :: "'d host \<Rightarrow> u32 list \<Rightarrow> ('d, bool) sdcmd" where
  "write_words h [] = ret True"
| "write_words h (x # xs) =
     bnd (sdhci_wait_for h SDHCI_PRESENT_STATE 0x400 0x400 1000) (\<lambda>ok.
     if \<not> ok then ret False else thn (SDHCI_WRITE h SDHCI_BUFFER x) (write_words h xs))"

definition sd_complete :: "'d host \<Rightarrow> ('d, int) sdcmd" where
  "sd_complete h =
     bnd (sdhci_wait_for h SDHCI_INT_STATUS 2 2 1000) (\<lambda>ok.
     if \<not> ok then ret (-1)
     else bnd (SDHCI_READ h SDHCI_INT_STATUS) (\<lambda>status.
       if status AND SDHCI_INT_ERROR_MASK \<noteq> 0 then ret (-1)
       else thn (SDHCI_WRITE h SDHCI_INT_STATUS status) (ret 0)))"

text \<open>Storing the words in the buffer.\<close>

definition put_words :: "byte list \<Rightarrow> u32 list \<Rightarrow> byte list" where
  "put_words buf xs = blit buf 0 (concat (map (le_bytes 4) xs))"

definition sdhci_read_block :: "'d host \<Rightarrow> u32 \<Rightarrow> byte list \<Rightarrow> ('d, int \<times> byte list) sdcmd" where
  "sdhci_read_block h bno buf =
     bnd (gets (\<lambda>s. initialized (card s))) (\<lambda>i.
     if \<not> i then ret (-1, buf)
     else thn (SDHCI_WRITE16 h SDHCI_BLOCK_SIZE 512)
         (thn (SDHCI_WRITE16 h SDHCI_BLOCK_COUNT 1)
         (thn (SDHCI_WRITE16 h SDHCI_TRANSFER_MODE 0x10)
         (bnd (sdhci_send_cmd h 17 bno SD_RSP_R1 False) (\<lambda>r.
          if r = None then ret (-1, buf)
          else bnd (read_words h (512 div 4)) (\<lambda>(xs, ok).
            if \<not> ok then ret (-1, put_words buf xs)
            else bnd (sd_complete h) (\<lambda>r. ret (r, put_words buf xs))))))))"

definition sdhci_write_block :: "'d host \<Rightarrow> u32 \<Rightarrow> byte list \<Rightarrow> ('d, int) sdcmd" where
  "sdhci_write_block h bno buf =
     bnd (gets (\<lambda>s. initialized (card s))) (\<lambda>i.
     if \<not> i then ret (-1)
     else thn (SDHCI_WRITE16 h SDHCI_BLOCK_SIZE 512)
         (thn (SDHCI_WRITE16 h SDHCI_BLOCK_COUNT 1)
         (thn (SDHCI_WRITE16 h SDHCI_TRANSFER_MODE 0)
         (bnd (sdhci_send_cmd h 24 bno SD_RSP_R1 False) (\<lambda>r.
          if r = None then ret (-1)
          else bnd (write_words h (map (\<lambda>i. get32 buf (4 * i)) [0..<512 div 4])) (\<lambda>ok.
            if \<not> ok then ret (-1) else sd_complete h))))))"

text \<open>\<open>virtio_disk_rw\<close> of this driver.\<close>

definition sd_disk_rw :: "'d host \<Rightarrow> buf \<Rightarrow> bool \<Rightarrow> ('d, buf) sdcmd" where
  "sd_disk_rw h b write =
     bnd (if write then bnd (sdhci_write_block h (blockno b) (bdata b)) (\<lambda>r. ret (r, bdata b))
          else sdhci_read_block h (blockno b) (bdata b)) (\<lambda>(r, d).
     if r < 0 then panic ''sdhci: I/O error'' else ret (b\<lparr>bdata := d\<rparr>))"

section \<open>What reaches the card\<close>

lemma length_read_words: "read_words h n s = Ok ((xs, ok), s') \<Longrightarrow> length xs \<le> n"
  by (induction n arbitrary: s xs ok s') (auto simp: cmd_simps obind_eq_Ok split: if_splits)

lemma length_le_words: "length (concat (map (le_bytes 4) xs)) = 4 * length xs"
  by (induction xs) auto

lemma put_words_rest:
  "length xs \<le> 128 \<Longrightarrow> length buf = BSIZE \<Longrightarrow>
     length (put_words buf xs) = BSIZE \<and> drop 512 (put_words buf xs) = drop 512 buf"
  by (simp add: put_words_def blit_def length_le_words)

lemma sdhci_read_block_rest:
  "sdhci_read_block h bno buf s = Ok ((r, d), s') \<Longrightarrow> length buf = BSIZE \<Longrightarrow>
     length d = BSIZE \<and> drop 512 d = drop 512 buf"
  by (auto simp: sdhci_read_block_def cmd_simps obind_eq_Ok put_words_rest dest!: length_read_words split: if_splits)

lemma sdhci_write_block_half:
  assumes "take 512 buf = take 512 buf'"
  shows "sdhci_write_block h bno buf = sdhci_write_block h bno buf'"
proof -
  have "get32 buf (4 * i) = get32 buf' (4 * i)" if "i < 128" for i
  proof -
    have "slice c (4 * i) 4 = take 4 (drop (4 * i) (take 512 c))" for c :: "byte list"
      using that by (simp add: slice_def drop_take min_def)
    then show ?thesis using assms by (simp add: get32_def)
  qed
  then have "map (\<lambda>i. get32 buf (4 * i)) [0..<512 div 4] = map (\<lambda>i. get32 buf' (4 * i)) [0..<512 div 4]"
    by simp
  then show ?thesis by (simp only: sdhci_write_block_def)
qed

text \<open>C25: The SD driver moves half of each block. Whatever the controller does, a read of a buffer of \<open>BSIZE\<close> bytes that
  succeeds leaves its last 512 bytes as they were, and what a write does to the controller and to the driver's state does
  not depend on the last 512 bytes of the buffer: two buffers that differ only there are written alike.\<close>

theorem sd_moves_half_block:
  assumes "length (bdata b) = BSIZE"
  shows "(sd_disk_rw h b False s = Ok (b', s') \<longrightarrow> drop 512 (bdata b') = drop 512 (bdata b)) \<and>
    (take 512 (bdata b) = take 512 xs \<longrightarrow> sd_disk_rw h b True s = Ok (b, s') \<longrightarrow>
      sd_disk_rw h (b\<lparr>bdata := xs\<rparr>) True s = Ok (b\<lparr>bdata := xs\<rparr>, s'))"
proof (intro conjI impI)
  show "drop 512 (bdata b') = drop 512 (bdata b)" if "sd_disk_rw h b False s = Ok (b', s')"
    using that assms by (auto simp: sd_disk_rw_def cmd_simps obind_eq_Ok dest!: sdhci_read_block_rest split: if_splits)
  show "sd_disk_rw h (b\<lparr>bdata := xs\<rparr>) True s = Ok (b\<lparr>bdata := xs\<rparr>, s')"
    if "take 512 (bdata b) = take 512 xs" "sd_disk_rw h b True s = Ok (b, s')"
  proof -
    from that(2) obtain r where "sdhci_write_block h (blockno b) (bdata b) s = Ok (r, s')" "\<not> r < 0"
      by (auto simp: sd_disk_rw_def cmd_simps obind_eq_Ok split: if_splits)
    then show ?thesis unfolding sdhci_write_block_half [OF that(1)] by (simp add: sd_disk_rw_def cmd_simps)
  qed
qed

text \<open>A controller that is always ready, delivers a fixed word and counts the words it is given.\<close>

definition ready_host :: "nat host" where
  "ready_host = \<lparr>hread = \<lambda>w reg n. (if reg = SDHCI_PRESENT_STATE then 0xC00 else if reg = SDHCI_INT_STATUS then 3 else 7, n),
     hwrite = \<lambda>w reg v n. if reg = SDHCI_BUFFER then Suc n else n\<rparr>"

definition ready_card :: sdcard where
  "ready_card = \<lparr>present = True, initialized = True, rca = 0, capacity = 0, high_capacity = True\<rparr>"

lemma wait_loop_hit:
  "hread h 4 reg (dev s) = (x, dev s) \<Longrightarrow> x AND m = v \<Longrightarrow> 0 < n \<Longrightarrow> wait_loop h reg m v n s = Ok (True, s)"
  by (cases n) (simp_all add: cmd_simps sd_read_def)

lemma ready_wait:
  "sdhci_wait_for ready_host SDHCI_PRESENT_STATE 3 0 100 s = Ok (True, s)"
  "sdhci_wait_for ready_host SDHCI_PRESENT_STATE 0x800 0x800 1000 s = Ok (True, s)"
  "sdhci_wait_for ready_host SDHCI_PRESENT_STATE 0x400 0x400 1000 s = Ok (True, s)"
  "sdhci_wait_for ready_host SDHCI_INT_STATUS 1 1 100 s = Ok (True, s)"
  "sdhci_wait_for ready_host SDHCI_INT_STATUS 2 2 1000 s = Ok (True, s)"
  by (simp_all add: sdhci_wait_for_def wait_loop_hit ready_host_def)

lemma ready_io:
  "sd_read ready_host 4 SDHCI_INT_STATUS s = Ok (3, s)" "sd_read ready_host 4 SDHCI_BUFFER s = Ok (7, s)"
  "sd_write ready_host w SDHCI_BUFFER v s = Ok ((), s\<lparr>dev := Suc (dev s)\<rparr>)"
  "reg \<noteq> SDHCI_BUFFER \<Longrightarrow> sd_write ready_host w reg v s = Ok ((), s)"
  by (simp_all add: sd_read_def sd_write_def ready_host_def cmd_simps)

lemma ready_read_words: "read_words ready_host n s = Ok ((replicate n 7, True), s)"
  by (induction n arbitrary: s) (simp_all add: cmd_simps ready_wait ready_io)

lemma ready_write_words: "write_words ready_host xs s = Ok (True, s\<lparr>dev := length xs + dev s\<rparr>)"
  by (induction xs arbitrary: s) (simp_all add: cmd_simps ready_wait ready_io)

lemma ready_send_cmd: "sdhci_send_cmd ready_host c a r False s = Ok (Some [], s)"
  by (simp add: sdhci_send_cmd_def cmd_simps ready_wait ready_io)

lemma ready_complete: "sd_complete ready_host s = Ok (0, s)"
  by (simp add: sd_complete_def cmd_simps ready_wait ready_io)

lemmas ready_simps = ready_io ready_read_words ready_write_words ready_send_cmd ready_complete

lemma ready_read:
  "sd_disk_rw ready_host b False \<lparr>dev = 0, card = ready_card\<rparr> =
     Ok (b\<lparr>bdata := put_words (bdata b) (replicate 128 7)\<rparr>, \<lparr>dev = 0, card = ready_card\<rparr>)"
  by (simp add: sd_disk_rw_def sdhci_read_block_def cmd_simps ready_simps ready_card_def)

lemma ready_write:
  "sd_disk_rw ready_host b True \<lparr>dev = 0, card = ready_card\<rparr> = Ok (b, \<lparr>dev = 128, card = ready_card\<rparr>)"
  by (simp add: sd_disk_rw_def sdhci_write_block_def cmd_simps ready_simps ready_card_def)

lemma length_buf0: "length (bdata buf0) = BSIZE"
  by (simp add: buf0_def)

theorem sd_moves_half_block_witness:
  "length (bdata buf0) = BSIZE \<and>
   drop 512 (put_words (bdata buf0) (replicate 128 7)) = drop 512 (bdata buf0) \<and>
   sd_disk_rw ready_host (buf0\<lparr>bdata := take 512 (bdata buf0)\<rparr>) True \<lparr>dev = 0, card = ready_card\<rparr> =
     Ok (buf0\<lparr>bdata := take 512 (bdata buf0)\<rparr>, \<lparr>dev = 128, card = ready_card\<rparr>)"
  using sd_moves_half_block [OF length_buf0, of ready_host "\<lparr>dev = 0, card = ready_card\<rparr>"
      "buf0\<lparr>bdata := put_words (bdata buf0) (replicate 128 7)\<rparr>" "\<lparr>dev = 0, card = ready_card\<rparr>"]
    sd_moves_half_block [OF length_buf0, of ready_host "\<lparr>dev = 0, card = ready_card\<rparr>" buf0
      "\<lparr>dev = 128, card = ready_card\<rparr>" "take 512 (bdata buf0)"]
  by (simp add: ready_read ready_write length_buf0)

end
