(* ===== verification/Xv6_Umalloc.thy ===== *)
theory Xv6_Umalloc
  imports Xv6_Prelude
begin

text \<open>
  The allocator of user programs, \<open>user/umalloc.c\<close>. Addresses are byte addresses; a \<open>Header\<close> takes 16 bytes, and the store
  of headers is a function from the address of a header to each of its two fields. \<open>base\<close> is the address of the static
  header \<open>base\<close>, below the heap. \<open>brk\<close> is the size of the process, which \<open>sbrk\<close> returns and changes; whether the kernel has
  the memory to grow is the parameter \<open>grow\<close>; \<open>Xv6_Umalloc_Sbrk\<close> relates it to the modelled system call. The pages up to the end
  of the one that \<open>brk\<close> lies in are mapped, and a store beyond them kills the process. That is checked where the allocator
  writes a header outside the blocks it knows, in \<open>morecore\<close>. The two loops may run forever on a damaged list, so they are
  partial functions and the correctness theorems show that they return.
\<close>

record mheap =
  hptr :: "nat \<Rightarrow> nat"
  hsize :: "nat \<Rightarrow> nat"
  freep :: nat
  brk :: nat

type_synonym grow = "nat \<Rightarrow> nat \<Rightarrow> bool"

definition set_ptr :: "nat \<Rightarrow> nat \<Rightarrow> mheap \<Rightarrow> mheap" where
  "set_ptr p v s = s\<lparr>hptr := (hptr s)(p := v)\<rparr>"

definition set_size :: "nat \<Rightarrow> nat \<Rightarrow> mheap \<Rightarrow> mheap" where
  "set_size p v s = s\<lparr>hsize := (hsize s)(p := v mod 2 ^ 32)\<rparr>"

text \<open>\<open>p + p->s.size\<close>\<close>

definition hend :: "mheap \<Rightarrow> nat \<Rightarrow> nat" where
  "hend s p = p + 16 * hsize s p"

partial_function (option) free_scan :: "mheap \<Rightarrow> nat \<Rightarrow> nat \<Rightarrow> nat option" where
  "free_scan s bp p =
     (if bp > p \<and> bp < hptr s p then Some p
      else if p \<ge> hptr s p \<and> (bp > p \<or> bp < hptr s p) then Some p
      else free_scan s bp (hptr s p))"

definition free_at :: "nat \<Rightarrow> nat \<Rightarrow> mheap \<Rightarrow> mheap" where
  "free_at bp p s =
     (let n = hptr s p;
          s1 = (if hend s bp = n then set_ptr bp (hptr s n) (set_size bp (hsize s bp + hsize s n) s)
                else set_ptr bp n s);
          s2 = (if hend s1 p = bp then set_ptr p (hptr s1 bp) (set_size p (hsize s1 p + hsize s1 bp) s1)
                else set_ptr p bp s1)
      in s2\<lparr>freep := p\<rparr>)"

definition free :: "nat \<Rightarrow> mheap \<Rightarrow> mheap option" where
  "free ap s = (let bp = ap - 16 in map_option (\<lambda>p. free_at bp p s) (free_scan s bp (freep s)))"

text \<open>The system call as its caller sees it (\<open>sys_sbrk\<close>, \<open>growproc\<close>): -1 is \<open>None\<close>; a size that would be negative wraps around
  and is ignored.\<close>

definition sbrk :: "grow \<Rightarrow> int \<Rightarrow> mheap \<Rightarrow> nat option \<times> mheap" where
  "sbrk grow n s =
     (if n > 0 then if grow (brk s) (nat n) then (Some (brk s), s\<lparr>brk := brk s + nat n\<rparr>) else (None, s)
      else if int (brk s) + n < 0 then (Some (brk s), s)
      else (Some (brk s), s\<lparr>brk := nat (int (brk s) + n)\<rparr>))"

text \<open>The argument of \<open>sbrk\<close> is an \<open>int\<close>.\<close>

definition int_arg :: "nat \<Rightarrow> int" where
  "int_arg n = sint (of_nat n :: 32 word)"

text \<open>A function of the program comes back with a result or the process is killed.\<close>

datatype 'a run = Done 'a | Fault

text \<open>The bytes below the end of the page of \<open>brk\<close>.\<close>

definition mapped :: "mheap \<Rightarrow> nat \<Rightarrow> bool" where
  "mapped s a \<longleftrightarrow> a < (brk s + 4095) div 4096 * 4096"

text \<open>The field \<open>size\<close> is the bytes 8 to 11 of a header.\<close>

definition morecore :: "grow \<Rightarrow> nat \<Rightarrow> mheap \<Rightarrow> (nat \<times> mheap) run option" where
  "morecore grow nu0 s =
     (let nu = (if nu0 < 4096 then 4096 else nu0)
      in case sbrk grow (int_arg (nu * 16)) s of
           (None, s1) \<Rightarrow> Some (Done (0, s1))
         | (Some hp, s1) \<Rightarrow>
             if \<not> mapped s1 (hp + 11) then Some Fault
             else map_option (\<lambda>s2. Done (freep s2, s2)) (free (hp + 16) (set_size hp nu s1)))"

definition take_block :: "nat \<Rightarrow> nat \<Rightarrow> nat \<Rightarrow> mheap \<Rightarrow> nat \<times> mheap" where
  "take_block nunits prevp p s =
     (if hsize s p = nunits then (p + 16, (set_ptr prevp (hptr s p) s)\<lparr>freep := prevp\<rparr>)
      else let s1 = set_size p (hsize s p - nunits) s;
               q = hend s1 p
           in (q + 16, (set_size q nunits s1)\<lparr>freep := prevp\<rparr>))"

partial_function (option) malloc_loop :: "grow \<Rightarrow> nat \<Rightarrow> nat \<Rightarrow> nat \<Rightarrow> mheap \<Rightarrow> (nat \<times> mheap) run option" where
  "malloc_loop grow nunits prevp p s =
     (if hsize s p \<ge> nunits then Some (Done (take_block nunits prevp p s))
      else if p = freep s
      then Option.bind (morecore grow nunits s) (\<lambda>r.
           case r of Fault \<Rightarrow> Some Fault
           | Done (q, s1) \<Rightarrow> if q = 0 then Some (Done (0, s1)) else malloc_loop grow nunits q (hptr s1 q) s1)
      else malloc_loop grow nunits p (hptr s p) s)"

definition malloc :: "grow \<Rightarrow> nat \<Rightarrow> nat \<Rightarrow> mheap \<Rightarrow> (nat \<times> mheap) run option" where
  "malloc grow base nbytes s =
     (let nunits = (nbytes + 16 - 1) div 16 + 1;
          s1 = (if freep s = 0 then set_size base 0 (set_ptr base base (s\<lparr>freep := base\<rparr>)) else s)
      in malloc_loop grow nunits (freep s1) (hptr s1 (freep s1)) s1)"

end
