(* ===== verification/Xv6_Umalloc_Spec.thy ===== *)
theory Xv6_Umalloc_Spec
  imports Xv6_Umalloc
begin

text \<open>
  Correctness of the allocator: the free list is a circular list of blocks in the order of their addresses that never touch
  (adjacent free blocks are always joined), the blocks handed out and the free blocks do not overlap and lie in the
  process's memory, and both loops return.
\<close>

section \<open>The free list\<close>

definition nxt :: "nat \<Rightarrow> nat list \<Rightarrow> nat" where
  "nxt e l = hd (l @ [e])"

primrec linked :: "mheap \<Rightarrow> nat \<Rightarrow> nat list \<Rightarrow> bool" where
  "linked s e [] \<longleftrightarrow> True"
| "linked s e (a # l) \<longleftrightarrow> hptr s a = nxt e l \<and> linked s e l"

definition ext :: "mheap \<Rightarrow> nat \<Rightarrow> nat set" where
  "ext s a = {a..<hend s a}"

definition freelist :: "nat \<Rightarrow> mheap \<Rightarrow> nat list \<Rightarrow> bool" where
  "freelist base s fl \<longleftrightarrow> (\<exists>l. fl = base # l) \<and> linked s base fl \<and> sorted_wrt (\<lambda>a b. hend s a < b) fl \<and>
     hsize s base = 0 \<and> (\<forall>a\<in>set fl. a = base \<or> hsize s a > 0 \<and> base + 16 \<le> a \<and> hend s a \<le> brk s)"

definition free_ext :: "mheap \<Rightarrow> nat list \<Rightarrow> nat set" where
  "free_ext s fl = (\<Union>a\<in>set fl. ext s a)"

definition inv_list :: "nat \<Rightarrow> mheap \<Rightarrow> nat set \<Rightarrow> nat list \<Rightarrow> bool" where
  "inv_list base s al fl \<longleftrightarrow> freelist base s fl \<and> freep s \<in> set fl \<and> (\<forall>a\<in>al. ext s a \<inter> free_ext s fl = {})"

definition minv :: "nat \<Rightarrow> mheap \<Rightarrow> nat set \<Rightarrow> bool" where
  "minv base s al \<longleftrightarrow> 0 < base \<and> base + 16 \<le> brk s \<and> brk s \<le> 2 ^ 36 \<and>
     (if freep s = 0 then al = {}
      else (\<exists>fl. inv_list base s al fl) \<and>
        (\<forall>a\<in>al. hsize s a > 0 \<and> base + 16 \<le> a \<and> hend s a \<le> brk s \<and> (\<forall>b\<in>al. a \<noteq> b \<longrightarrow> ext s a \<inter> ext s b = {})))"

lemma linked_append: "linked s e (xs @ ys) \<longleftrightarrow> linked s (nxt e ys) xs \<and> linked s e ys"
  by (induction xs) (auto simp: nxt_def hd_append split: list.split)

lemma linked_cong: "(\<And>a. a \<in> set l \<Longrightarrow> hptr s a = hptr t a) \<Longrightarrow> linked s e l \<longleftrightarrow> linked t e l"
  by (induction l) auto

lemma linked_upd: "p \<notin> set l \<Longrightarrow> hptr t = (hptr s)(p := v) \<Longrightarrow> linked t e l \<longleftrightarrow> linked s e l"
  by (rule linked_cong) auto

lemma nxt_simps [simp]: "nxt e [] = e" "nxt e (a # l) = a"
  by (simp_all add: nxt_def)

lemma le_hend: "a \<le> hend s a"
  by (simp add: hend_def)

lemma ext_disjoint:
  assumes "hsize s a > 0" "hsize s b > 0" "ext s a \<inter> ext s b = {}"
  shows "hend s a \<le> b \<or> hend s b \<le> a"
proof (rule ccontr)
  assume "\<not> (hend s a \<le> b \<or> hend s b \<le> a)"
  then have "max a b \<in> ext s a \<inter> ext s b" using assms(1,2) by (auto simp: ext_def hend_def max_def)
  then show False using assms(3) by simp
qed

lemma freelist_hd: "freelist base s (us @ p # vs) \<Longrightarrow> nxt p us = base"
  by (cases us) (auto simp: freelist_def)

lemma freelist_split:
  assumes "freelist base s (xs @ p # ys)"
  shows "hptr s p = nxt base ys" "\<forall>x\<in>set xs. hend s x < p" "\<forall>y\<in>set ys. hend s p < y"
    "\<forall>x\<in>set xs. \<forall>y\<in>set ys. hend s x < y"
  using assms by (auto simp: freelist_def linked_append sorted_wrt_append)

text \<open>The scan of \<open>free\<close> ends at the last block below the one that is freed.\<close>

lemma free_scan_up:
  assumes "linked s base (q # ys)" "sorted_wrt (<) (q # ys)" "q < bp" "bp \<notin> set ys" "base \<le> q"
  shows "\<exists>us p vs. free_scan s bp q = Some p \<and> q # ys = us @ p # vs \<and> p < bp \<and> (\<forall>y\<in>set vs. bp < y)"
  using assms
proof (induction ys arbitrary: q)
  case Nil
  then have "free_scan s bp q = Some q" by (subst free_scan.simps) auto
  then show ?case using Nil by (intro exI [of _ "[]"]) auto
next
  case (Cons y ys)
  show ?case
  proof (cases "bp < y")
    case True
    then have "free_scan s bp q = Some q" using Cons.prems by (subst free_scan.simps) auto
    then show ?thesis using Cons.prems True by (intro exI [of _ "[]"]) auto
  next
    case False
    then have "free_scan s bp q = free_scan s bp y" using Cons.prems by (subst free_scan.simps) auto
    moreover obtain us p vs where "free_scan s bp y = Some p" "y # ys = us @ p # vs" "p < bp" "\<forall>y\<in>set vs. bp < y"
      using Cons.IH [of y] Cons.prems False by auto
    ultimately show ?thesis by (intro exI [of _ "q # us"]) auto
  qed
qed

lemma free_scan_wrap:
  assumes "linked s base (q # ys)" "sorted_wrt (<) (q # ys)" "bp < q" "base < bp"
  shows "free_scan s bp q = free_scan s bp base"
  using assms
proof (induction ys arbitrary: q)
  case Nil
  then show ?case by (subst free_scan.simps) auto
next
  case (Cons y ys)
  then have "free_scan s bp q = free_scan s bp y" by (subst free_scan.simps) auto
  then show ?case using Cons by simp
qed

lemma sorted_addr: "sorted_wrt (\<lambda>a b. hend s a < b) l \<Longrightarrow> sorted_wrt (<) l"
  by (induction l) (auto intro: le_less_trans [OF le_hend])

lemma free_scan_Some:
  assumes fl: "freelist base s fl" and "q \<in> set fl" "base < bp" "bp \<notin> set fl"
  shows "\<exists>us p vs. free_scan s bp q = Some p \<and> fl = us @ p # vs \<and> p < bp \<and> (\<forall>y\<in>set vs. bp < y)"
proof -
  obtain l where l: "fl = base # l" using fl by (auto simp: freelist_def)
  have srt: "sorted_wrt (<) fl" using fl sorted_addr by (auto simp: freelist_def)
  have lnk: "linked s base fl" using fl by (simp add: freelist_def)
  obtain as bs where q: "fl = as @ q # bs" using assms(2) by (auto simp: in_set_conv_decomp)
  have ge: "base \<le> q" using srt l assms(2) by auto
  have qb: "linked s base (q # bs)" "sorted_wrt (<) (q # bs)"
    using lnk srt unfolding q by (simp_all add: linked_append sorted_wrt_append)
  show ?thesis
  proof (cases "q < bp")
    case True
    have "bp \<notin> set bs" using assms(4) q by simp
    from free_scan_up [OF qb True this ge] obtain us p vs where
      *: "free_scan s bp q = Some p" "q # bs = us @ p # vs" "p < bp" "\<forall>y\<in>set vs. bp < y" by blast
    then have "fl = (as @ us) @ p # vs" using q by simp
    then show ?thesis using * by blast
  next
    case False
    then have "bp < q" using assms(2,4) by (metis nat_neq_iff)
    then have "free_scan s bp q = free_scan s bp base" using free_scan_wrap [OF qb] assms(3) by simp
    then show ?thesis using free_scan_up [of s base base l bp] lnk srt l assms(3,4) by auto
  qed
qed

section \<open>Freeing a block\<close>

text \<open>The list after the block is linked in and joined with its successor, before it is joined with its predecessor.\<close>

definition pre_list :: "nat \<Rightarrow> mheap \<Rightarrow> nat list \<Rightarrow> nat \<Rightarrow> nat \<Rightarrow> nat list \<Rightarrow> bool" where
  "pre_list base s us p bp vs \<longleftrightarrow> nxt p us = base \<and> linked s base (us @ p # bp # vs) \<and>
     sorted_wrt (\<lambda>a b. hend s a < b) (us @ p # vs) \<and> sorted_wrt (\<lambda>a b. hend s a < b) (bp # vs) \<and> hend s p \<le> bp \<and> p < bp \<and>
     hsize s base = 0 \<and> (\<forall>a\<in>set (us @ p # bp # vs). a = base \<or> hsize s a > 0 \<and> base + 16 \<le> a \<and> hend s a \<le> brk s)"

lemma hsize_sets [simp]:
  "hsize (set_ptr a v s) = hsize s" "hptr (set_size a v s) = hptr s" "brk (set_ptr a v s) = brk s" "brk (set_size a v s) = brk s"
  "hptr (set_ptr a v s) = (hptr s)(a := v)" "hsize (set_size a v s) = (hsize s)(a := v mod 2 ^ 32)"
  "freep (set_ptr a v s) = freep s" "freep (set_size a v s) = freep s"
  by (simp_all add: set_ptr_def set_size_def)

lemma hend_sets [simp]:
  "hend (set_ptr a v s) = hend s" "a \<noteq> b \<Longrightarrow> hend (set_size b v s) a = hend s a"
  "hend (s\<lparr>freep := f\<rparr>) = hend s" "hend (s\<lparr>hptr := g\<rparr>) = hend s" "hend (s\<lparr>brk := m\<rparr>) = hend s"
  by (auto simp: hend_def)

lemma ext_sets [simp]:
  "ext (set_ptr a v s) = ext s" "a \<noteq> b \<Longrightarrow> ext (set_size b v s) a = ext s a" "ext (s\<lparr>freep := f\<rparr>) = ext s"
  by (auto simp: ext_def)

lemma size_bound: "hsize s a > 0 \<Longrightarrow> base + 16 \<le> a \<Longrightarrow> hend s a \<le> m \<Longrightarrow> m \<le> 2 ^ 36 \<Longrightarrow> hsize s a < 2 ^ 32"
  by (simp add: hend_def)

text \<open>Joining two free blocks that touch.\<close>

lemma join_hend:
  assumes "hend s a = b" "hsize s a + hsize s b < 2 ^ 32"
  shows "hend (set_size a (hsize s a + hsize s b) s) a = hend s b"
    and "ext (set_size a (hsize s a + hsize s b) s) a = ext s a \<union> ext s b"
proof -
  show *: "hend (set_size a (hsize s a + hsize s b) s) a = hend s b" using assms by (simp add: hend_def)
  show "ext (set_size a (hsize s a + hsize s b) s) a = ext s a \<union> ext s b"
    unfolding ext_def * using assms(1) le_hend [of a s] le_hend [of b s] by auto
qed

lemma join_bound:
  assumes "hend s a = b" "base + 16 \<le> a" "hend s b \<le> m" "m \<le> 2 ^ 36"
  shows "hsize s a + hsize s b < 2 ^ 32"
  using assms by (simp add: hend_def)

definition join_next :: "nat \<Rightarrow> nat \<Rightarrow> mheap \<Rightarrow> mheap" where
  "join_next bp n s = (if hend s bp = n then set_ptr bp (hptr s n) (set_size bp (hsize s bp + hsize s n) s) else set_ptr bp n s)"

lemma free_at_alt:
  assumes "p \<noteq> bp"
  shows "free_at bp p s = (let t = set_ptr p bp (join_next bp (hptr s p) s) in
     (if hend t p = bp then set_ptr p (hptr t bp) (set_size p (hsize t p + hsize t bp) t) else t)\<lparr>freep := p\<rparr>)"
  using assms by (simp add: free_at_def join_next_def Let_def set_ptr_def set_size_def hend_def)

lemma sorted_mono: "sorted_wrt (\<lambda>a b. hend s a < b) l \<Longrightarrow> (\<And>a. a \<in> set l \<Longrightarrow> hend t a = hend s a) \<Longrightarrow> sorted_wrt (\<lambda>a b. hend t a < b) l"
  by (induction l) auto

lemma free_ext_cong: "(\<And>a. a \<in> set l \<Longrightarrow> ext t a = ext s a) \<Longrightarrow> free_ext t l = free_ext s l"
  by (auto simp: free_ext_def)

lemma free_ext_simps [simp]:
  "free_ext s (xs @ ys) = free_ext s xs \<union> free_ext s ys" "free_ext s (a # l) = ext s a \<union> free_ext s l" "free_ext s [] = {}"
  by (auto simp: free_ext_def)

lemma free_ext_sets [simp]: "free_ext (set_ptr a v s) = free_ext s" "free_ext (s\<lparr>freep := f\<rparr>) = free_ext s"
  by (auto simp: free_ext_def)

text \<open>A block to be freed in the gap after \<open>p\<close>.\<close>

definition gap :: "nat \<Rightarrow> mheap \<Rightarrow> nat list \<Rightarrow> nat \<Rightarrow> nat \<Rightarrow> nat list \<Rightarrow> bool" where
  "gap base s us p bp vs \<longleftrightarrow> freelist base s (us @ p # vs) \<and> p < bp \<and> (\<forall>y\<in>set vs. bp < y) \<and> hsize s bp > 0 \<and> base + 16 \<le> bp \<and>
     hend s bp \<le> brk s \<and> brk s \<le> 2 ^ 36 \<and> hend s p \<le> bp \<and> (\<forall>y\<in>set vs. hend s bp \<le> y)"

lemma gap_facts:
  assumes "gap base s us p bp vs"
  shows "nxt p us = base" "hsize s base = 0" "p < bp" "hend s p \<le> bp" "hsize s bp > 0" "base + 16 \<le> bp" "hend s bp \<le> brk s"
    "bp \<notin> set us" "bp \<noteq> p" "bp \<notin> set vs" "p \<notin> set us" "p \<notin> set vs" "bp \<noteq> base"
    "hptr s p = nxt base vs" "linked s p us" "linked s base vs" "sorted_wrt (\<lambda>a b. hend s a < b) (us @ p # vs)"
    "\<And>a. a \<in> set (us @ p # vs) \<Longrightarrow> a = base \<or> hsize s a > 0 \<and> base + 16 \<le> a \<and> hend s a \<le> brk s"
proof -
  have fl: "freelist base s (us @ p # vs)" using assms by (simp add: gap_def)
  note sp = freelist_split [OF fl]
  show "nxt p us = base" by (rule freelist_hd [OF fl])
  have "\<forall>x\<in>set us. x < p" "\<forall>y\<in>set vs. p < y" using sp(2,3) le_hend by (blast intro: le_less_trans)+
  then show "bp \<notin> set us" "bp \<noteq> p" "bp \<notin> set vs" "p \<notin> set us" "p \<notin> set vs" "bp \<noteq> base"
    using assms by (auto simp: gap_def)
  show "hptr s p = nxt base vs" by (rule sp(1))
qed (use assms in \<open>auto simp: gap_def freelist_def linked_append\<close>)

lemma insert_apart:
  assumes g: "gap base s us p bp vs" and "hend s bp \<noteq> hptr s p"
  shows "pre_list base (set_ptr p bp (set_ptr bp (hptr s p) s)) us p bp vs"
proof -
  note f = gap_facts [OF g]
  let ?t = "set_ptr p bp (set_ptr bp (hptr s p) s)"
  have "\<forall>y\<in>set vs. nxt base vs \<le> y" using sorted_addr [OF f(17)] by (cases vs) (auto simp: sorted_wrt_append)
  moreover have "vs \<noteq> [] \<longrightarrow> hend s bp < nxt base vs" using assms f(14) by (cases vs) (auto simp: gap_def)
  ultimately have "\<forall>y\<in>set vs. hend s bp < y" by (cases vs) (auto intro: less_le_trans)
  moreover have "linked ?t p us \<longleftrightarrow> linked s p us" "linked ?t base vs \<longleftrightarrow> linked s base vs" by (rule linked_cong; use f in auto)+
  ultimately show ?thesis unfolding pre_list_def using f by (auto simp: linked_append sorted_wrt_append)
qed

lemma insert_touch:
  assumes g: "gap base s us p bp (n # vs)" and n: "hend s bp = n"
  defines "t \<equiv> set_ptr p bp (set_ptr bp (hptr s n) (set_size bp (hsize s bp + hsize s n) s))"
  shows "pre_list base t us p bp vs \<and> free_ext t (us @ p # bp # vs) = free_ext s (us @ p # n # vs) \<union> ext s bp"
proof -
  note f = gap_facts [OF g]
  have "hend s n \<le> brk s" using f(18) [of n] f(6) n le_hend [of bp s] by auto
  then have sz: "hsize s bp + hsize s n < 2 ^ 32" using join_bound [OF n f(6)] g by (simp add: gap_def)
  note j = join_hend [OF n sz]
  have he: "hend t a = (if a = bp then hend s n else hend s a)" for a by (simp add: t_def j(1))
  have ee: "ext t a = (if a = bp then ext s bp \<union> ext s n else ext s a)" for a by (simp add: t_def j(2))
  have "linked t p us \<longleftrightarrow> linked s p us" "linked t base (n # vs) \<longleftrightarrow> linked s base (n # vs)"
    by (rule linked_cong; use f in \<open>auto simp: t_def\<close>)+
  then have "linked t base (us @ p # bp # vs)" using f by (simp add: linked_append) (simp add: t_def)
  moreover have "sorted_wrt (\<lambda>a b. hend t a < b) (us @ p # vs)"
    by (rule sorted_mono [of s]) (use f in \<open>auto simp: he sorted_wrt_append\<close>)
  moreover from this have "sorted_wrt (\<lambda>a b. hend t a < b) (bp # vs)" using f(17) by (simp add: he sorted_wrt_append)
  moreover have "a = base \<or> hsize t a > 0 \<and> base + 16 \<le> a \<and> hend t a \<le> brk t" if "a \<in> set (us @ p # bp # vs)" for a
    using f(5,6) f(18) [of a] that sz \<open>hend s n \<le> brk s\<close> by (cases "a = bp") (auto simp: he, auto simp: t_def)
  ultimately have "pre_list base t us p bp vs" using f unfolding pre_list_def by (simp add: he) (simp add: t_def)
  moreover have "free_ext t us = free_ext s us" "free_ext t vs = free_ext s vs"
    by (rule free_ext_cong; use f in \<open>auto simp: ee\<close>)+
  then have "free_ext t (us @ p # bp # vs) = free_ext s (us @ p # n # vs) \<union> ext s bp" using f(9) by (auto simp: ee)
  ultimately show ?thesis ..
qed

lemma insert_block:
  assumes g: "gap base s us p bp vs"
  defines "t \<equiv> set_ptr p bp (join_next bp (hptr s p) s)"
  shows "\<exists>vs'. pre_list base t us p bp vs' \<and> free_ext t (us @ p # bp # vs') = free_ext s (us @ p # vs) \<union> ext s bp"
proof (cases "hend s bp = hptr s p")
  case False
  then show ?thesis using insert_apart [OF g] by (intro exI [of _ vs]) (auto simp: t_def join_next_def)
next
  case True
  then have "nxt base vs \<noteq> base" using le_hend [of bp s] gap_facts(6,14) [OF g] by auto
  then obtain n vs' where vs: "vs = n # vs'" by (cases vs) auto
  then have "hptr s p = n" using gap_facts(14) [OF g] by simp
  then show ?thesis using True insert_touch [OF g [unfolded vs]] by (intro exI [of _ vs']) (auto simp: t_def join_next_def vs)
qed

lemma pre_list_apart:
  assumes pre: "pre_list base t us p bp vs" and "hend t p \<noteq> bp"
  shows "freelist base (t\<lparr>freep := p\<rparr>) (us @ p # bp # vs)"
proof -
  have "\<exists>l. us @ p # bp # vs = base # l" using pre by (cases us) (auto simp: pre_list_def)
  moreover have "\<forall>x\<in>set us. hend t x < bp" using pre by (auto simp: pre_list_def sorted_wrt_append)
  ultimately show ?thesis unfolding freelist_def using assms linked_cong [of _ "t\<lparr>freep := p\<rparr>" t]
    by (auto simp: pre_list_def sorted_wrt_append)
qed

lemma pre_list_touch:
  assumes pre: "pre_list base t us p bp vs" and "brk t \<le> 2 ^ 36" and touch: "hend t p = bp"
  defines "t2 \<equiv> (set_ptr p (hptr t bp) (set_size p (hsize t p + hsize t bp) t))\<lparr>freep := p\<rparr>"
  shows "freelist base t2 (us @ p # vs) \<and> free_ext t2 (us @ p # vs) = free_ext t (us @ p # bp # vs)"
proof -
  have pp: "p = base \<or> hsize t p > 0 \<and> base + 16 \<le> p" "hend t bp \<le> brk t" "hsize t base = 0" "p < bp"
    using pre by (auto simp: pre_list_def)
  then have "p \<noteq> base" using touch by (auto simp: hend_def)
  then have sz: "hsize t p + hsize t bp < 2 ^ 32" using join_bound [OF touch, of base "brk t"] pp assms(2) by simp
  have us: "\<forall>x\<in>set us. x < p" using pre le_hend [of _ t] by (auto simp: pre_list_def sorted_wrt_append intro: le_less_trans)
  have "sorted_wrt (\<lambda>a b. hend t a < b) (p # vs)" using pre by (simp add: pre_list_def sorted_wrt_append)
  then have fresh: "p \<notin> set us" "p \<notin> set vs" using us le_hend [of p t] by auto
  note j = join_hend [OF touch sz]
  have nb: "hptr t bp = nxt base vs" "linked t p us" "linked t base vs" using pre by (simp_all add: pre_list_def linked_append)
  have t2: "t2 = (set_ptr p (nxt base vs) (set_size p (hsize t p + hsize t bp) t))\<lparr>freep := p\<rparr>" using nb by (simp add: t2_def)
  have he: "hend t2 a = (if a = p then hend t bp else hend t a)" for a by (simp add: t2 j(1))
  have ee: "ext t2 a = (if a = p then ext t p \<union> ext t bp else ext t a)" for a by (simp add: t2 j(2))
  have "\<exists>l. us @ p # vs = base # l" using pre by (cases us) (auto simp: pre_list_def)
  moreover have "linked t2 p us" "linked t2 base vs"
    using nb fresh linked_upd [of p _ t2 t "nxt base vs"] by (simp_all add: t2)
  moreover have "sorted_wrt (\<lambda>a b. hend t2 a < b) us"
    by (rule sorted_mono [of t]) (use pre fresh in \<open>auto simp: he pre_list_def sorted_wrt_append\<close>)
  moreover have "sorted_wrt (\<lambda>a b. hend t2 a < b) vs"
    by (rule sorted_mono [of t]) (use pre fresh in \<open>auto simp: he pre_list_def sorted_wrt_append\<close>)
  moreover have "\<forall>x\<in>set us. hend t2 x < p \<and> (\<forall>y\<in>set vs. hend t2 x < y)" "\<forall>y\<in>set vs. hend t2 p < y"
    using pre fresh by (auto simp: he pre_list_def sorted_wrt_append)
  moreover have "\<forall>a\<in>set (us @ p # vs). a = base \<or> hsize t2 a > 0 \<and> base + 16 \<le> a \<and> hend t2 a \<le> brk t2"
    using pre pp sz \<open>p \<noteq> base\<close> by (auto simp: he pre_list_def) (auto simp: t2)
  ultimately have "freelist base t2 (us @ p # vs)"
    unfolding freelist_def using \<open>p \<noteq> base\<close> pp by (auto simp: linked_append sorted_wrt_append) (simp_all add: t2)
  moreover have "free_ext t2 (us @ p # vs) = free_ext t (us @ p # bp # vs)"
  proof -
    have "free_ext t2 us = free_ext t us" "free_ext t2 vs = free_ext t vs" by (rule free_ext_cong; use fresh in \<open>auto simp: ee\<close>)+
    then show ?thesis by (auto simp: ee)
  qed
  ultimately show ?thesis ..
qed

lemma join_prev:
  assumes "pre_list base t us p bp vs" and "brk t \<le> 2 ^ 36"
  defines "t2 \<equiv> (if hend t p = bp then set_ptr p (hptr t bp) (set_size p (hsize t p + hsize t bp) t) else t)\<lparr>freep := p\<rparr>"
  shows "\<exists>fl. freelist base t2 fl \<and> p \<in> set fl \<and> free_ext t2 fl = free_ext t (us @ p # bp # vs)"
proof (cases "hend t p = bp")
  case True
  then show ?thesis using pre_list_touch [OF assms(1,2) True] by (intro exI [of _ "us @ p # vs"]) (simp add: t2_def)
next
  case False
  then show ?thesis using pre_list_apart [OF assms(1) False] by (intro exI [of _ "us @ p # bp # vs"]) (simp add: t2_def)
qed

lemma free_at_sizes: "a \<noteq> bp \<Longrightarrow> a \<noteq> p \<Longrightarrow> hsize (free_at bp p s) a = hsize s a" "brk (free_at bp p s) = brk s" "freep (free_at bp p s) = p"
  by (simp_all add: free_at_def Let_def)

lemma free_spec:
  assumes fl: "freelist base s fl" "freep s \<in> set fl" and brk: "brk s \<le> 2 ^ 36"
    and bp: "hsize s bp > 0" "base + 16 \<le> bp" "hend s bp \<le> brk s" and dis: "ext s bp \<inter> free_ext s fl = {}"
  shows "\<exists>s' fl'. free (bp + 16) s = Some s' \<and> freelist base s' fl' \<and> freep s' \<in> set fl' \<and>
    free_ext s' fl' = free_ext s fl \<union> ext s bp \<and> brk s' = brk s \<and> (\<forall>a. a \<notin> insert bp (set fl) \<longrightarrow> hsize s' a = hsize s a)"
proof -
  have apart: "hend s bp \<le> f \<or> hend s f \<le> bp" if "f \<in> set fl" for f
  proof (cases "f = base")
    case True
    then show ?thesis using fl bp(2) by (simp add: freelist_def hend_def)
  next
    case False
    then have "hsize s f > 0" using that fl(1) unfolding freelist_def by blast
    moreover have "ext s bp \<inter> ext s f = {}" using dis that unfolding free_ext_def by blast
    ultimately show ?thesis using ext_disjoint [of s bp f] bp(1) by blast
  qed
  have "bp \<notin> set fl"
  proof
    assume "bp \<in> set fl"
    from apart [OF this] show False using bp(1) by (simp add: hend_def)
  qed
  then obtain us p vs where p: "free_scan s bp (freep s) = Some p" "fl = us @ p # vs" "p < bp" "\<forall>y\<in>set vs. bp < y"
    using free_scan_Some [OF fl, of bp] bp(2) by auto
  have "hend s p \<le> bp" using apart [of p] p bp(1) le_hend [of bp s] by (auto simp: p(2))
  moreover have "hend s bp \<le> y" if "y \<in> set vs" for y using apart [of y] that p(4) le_hend [of y s] by (auto simp: p(2))
  moreover define t where "t = set_ptr p bp (join_next bp (hptr s p) s)"
  ultimately obtain vs' where vs': "pre_list base t us p bp vs'" "free_ext t (us @ p # bp # vs') = free_ext s fl \<union> ext s bp"
    using insert_block [of base s us p bp vs] p fl(1) bp brk by (auto simp: gap_def)
  have "brk t \<le> 2 ^ 36" using brk by (simp add: t_def join_next_def)
  have fa: "free_at bp p s = (if hend t p = bp then set_ptr p (hptr t bp) (set_size p (hsize t p + hsize t bp) t) else t)\<lparr>freep := p\<rparr>"
    using free_at_alt [of p bp s] p(3) unfolding t_def Let_def by blast
  from join_prev [OF vs'(1) \<open>brk t \<le> 2 ^ 36\<close>, folded fa] obtain fl' where
    "freelist base (free_at bp p s) fl'" "p \<in> set fl'" "free_ext (free_at bp p s) fl' = free_ext t (us @ p # bp # vs')"
    by blast
  moreover have "free (bp + 16) s = Some (free_at bp p s)" by (simp add: free_def p)
  ultimately show ?thesis using vs'(2) free_at_sizes p(2) by (intro exI [of _ "free_at bp p s"] exI [of _ fl']) auto
qed

lemma freelist_order:
  assumes "freelist base s fl" "f \<in> set fl" "g \<in> set fl" "f \<noteq> g"
  shows "hend s f < g \<or> hend s g < f"
proof -
  obtain us vs where fl: "fl = us @ f # vs" using assms(2) by (auto simp: in_set_conv_decomp)
  then show ?thesis using assms(3,4) freelist_split(2,3) [OF assms(1) [unfolded fl]] by auto
qed

lemma freelist_covers:
  assumes fl: "freelist base s fl" and sub: "{a..<b} \<subseteq> free_ext s fl" and "a < b"
  shows "\<exists>f\<in>set fl. f \<le> a \<and> b \<le> hend s f"
proof -
  have "a \<in> free_ext s fl" using assms by auto
  then obtain f where f: "f \<in> set fl" "f \<le> a" "a < hend s f" by (auto simp: free_ext_def ext_def)
  have "b \<le> hend s f"
  proof (rule ccontr)
    assume "\<not> b \<le> hend s f"
    then have "hend s f \<in> free_ext s fl" using sub f by (intro subsetD [OF sub]) auto
    then obtain g where g: "g \<in> set fl" "g \<le> hend s f" "hend s f < hend s g" by (auto simp: free_ext_def ext_def)
    then show False using freelist_order [OF fl f(1) g(1)] le_hend [of f s] by auto
  qed
  then show ?thesis using f by blast
qed

lemma own_block:
  assumes "ext s b \<inter> free_ext s fl = {}" "hsize s b > 0"
  shows "b \<notin> free_ext s fl \<and> b \<notin> set fl"
proof -
  have b: "b \<in> ext s b" using assms(2) by (simp add: ext_def hend_def)
  then have "b \<notin> free_ext s fl" using assms(1) by blast
  moreover have "b \<in> free_ext s fl" if "b \<in> set fl" using b that unfolding free_ext_def by blast
  ultimately show ?thesis by blast
qed

text \<open>What the list of free blocks and the set of blocks in use have in common with the invariant.\<close>

lemma minvI:
  assumes "0 < base" "base + 16 \<le> brk s" "brk s \<le> 2 ^ 36" "freelist base s fl" "freep s \<in> set fl"
    and "\<And>a. a \<in> al \<Longrightarrow> ext s a \<inter> free_ext s fl = {} \<and> hsize s a > 0 \<and> base + 16 \<le> a \<and> hend s a \<le> brk s"
    and "\<And>a b. a \<in> al \<Longrightarrow> b \<in> al \<Longrightarrow> a \<noteq> b \<Longrightarrow> ext s a \<inter> ext s b = {}"
  shows "minv base s al"
proof -
  have "freep s \<noteq> 0" using assms(1,4,5) unfolding freelist_def by (metis add_is_0 less_numeral_extra(3) le_zero_eq zero_neq_numeral)
  moreover have "inv_list base s al fl" using assms by (simp add: inv_list_def)
  ultimately show ?thesis unfolding minv_def using assms by auto
qed

lemma free_minv:
  assumes inv: "minv base s al" and "a \<in> al"
  shows "\<exists>s' fl. free (a + 16) s = Some s' \<and> minv base s' (al - {a}) \<and> (\<forall>b\<in>al - {a}. hsize s' b = hsize s b) \<and>
    brk s' = brk s \<and> inv_list base s' (al - {a}) fl \<and> (\<exists>f\<in>set fl. hsize s a \<le> hsize s' f)"
proof -
  have al: "\<And>b. b \<in> al \<Longrightarrow> hsize s b > 0 \<and> base + 16 \<le> b \<and> hend s b \<le> brk s"
    "\<And>b c. b \<in> al \<Longrightarrow> c \<in> al \<Longrightarrow> b \<noteq> c \<Longrightarrow> ext s b \<inter> ext s c = {}"
    using inv assms(2) by (auto simp: minv_def split: if_splits)
  obtain fl where fl: "freelist base s fl" "freep s \<in> set fl" "\<And>b. b \<in> al \<Longrightarrow> ext s b \<inter> free_ext s fl = {}"
    using inv assms(2) by (auto simp: minv_def inv_list_def split: if_splits)
  have lims: "0 < base" "base + 16 \<le> brk s" "brk s \<le> 2 ^ 36" using inv by (simp_all add: minv_def)
  obtain s' fl' where s': "free (a + 16) s = Some s'" "freelist base s' fl'" "freep s' \<in> set fl'"
    "free_ext s' fl' = free_ext s fl \<union> ext s a" "brk s' = brk s" "\<forall>b. b \<notin> insert a (set fl) \<longrightarrow> hsize s' b = hsize s b"
    using free_spec [OF fl(1,2) lims(3)] al(1) [OF assms(2)] fl(3) [OF assms(2)] by blast
  have own: "b \<notin> set fl" if "b \<in> al" for b using own_block fl(3) al(1) that by blast
  then have same: "hsize s' b = hsize s b" if "b \<in> al - {a}" for b using s'(6) that by blast
  then have same': "ext s' b = ext s b" "hend s' b = hend s b" if "b \<in> al - {a}" for b using that by (simp_all add: ext_def hend_def)
  have blk: "ext s' b \<inter> free_ext s' fl' = {} \<and> hsize s' b > 0 \<and> base + 16 \<le> b \<and> hend s' b \<le> brk s'" if "b \<in> al - {a}" for b
    using that al(1) [of b] al(2) [of b a] assms(2) fl(3) [of b] by (auto simp: same same' s'(4,5))
  have "minv base s' (al - {a})"
  proof (rule minvI [OF lims(1) _ _ s'(2,3) blk])
    show "ext s' b \<inter> ext s' c = {}" if "b \<in> al - {a}" "c \<in> al - {a}" "b \<noteq> c" for b c
      using that al(2) [of b c] by (simp add: same')
  qed (use lims in \<open>simp_all add: s'(5)\<close>)
  moreover have "\<exists>f\<in>set fl'. f \<le> a \<and> hend s a \<le> hend s' f"
    by (rule freelist_covers [OF s'(2)]) (use s'(4) al(1) [OF assms(2)] in \<open>auto simp: ext_def hend_def\<close>)
  then obtain f where f: "f \<in> set fl'" "f \<le> a" "hend s a \<le> hend s' f" by blast
  then have "hsize s a \<le> hsize s' f" by (simp add: hend_def)
  ultimately show ?thesis using s' same f(1) blk unfolding inv_list_def by blast
qed

section \<open>Taking a block\<close>

lemma freelist_distinct: "freelist base s fl \<Longrightarrow> distinct fl"
  using sorted_addr [of s fl] by (auto simp: freelist_def strict_sorted_iff)

text \<open>The part of a free list that a block is cut from, as a claim on both kinds of cut.\<close>

definition cut :: "nat \<Rightarrow> mheap \<Rightarrow> nat list \<Rightarrow> nat \<Rightarrow> nat \<Rightarrow> mheap \<Rightarrow> bool" where
  "cut base s fl n a s' \<longleftrightarrow> (\<exists>fl'. freelist base s' fl' \<and> freep s' \<in> set fl' \<and> hsize s' a = n \<and> ext s' a \<subseteq> free_ext s fl \<and>
     free_ext s' fl' = free_ext s fl - ext s' a) \<and> brk s' = brk s \<and> (\<forall>b. b \<notin> insert a (set fl) \<longrightarrow> hsize s' b = hsize s b)"

lemma cut_whole:
  assumes fl: "freelist base s (us @ pv # x # vs)"
  shows "cut base s (us @ pv # x # vs) (hsize s x) x ((set_ptr pv (hptr s x) s)\<lparr>freep := pv\<rparr>)"
proof -
  let ?s = "(set_ptr pv (hptr s x) s)\<lparr>freep := pv\<rparr>"
  have d: "distinct (us @ pv # x # vs)" by (rule freelist_distinct [OF fl])
  have l: "linked s pv us" "hptr s x = nxt base vs" "linked s base vs" using fl by (auto simp: freelist_def linked_append)
  have "linked ?s pv us" "linked ?s base vs" using l d linked_upd [of pv us ?s s "hptr s x"] linked_upd [of pv vs ?s s "hptr s x"] by auto
  moreover have "\<exists>l. us @ pv # vs = base # l" using fl by (cases us) (auto simp: freelist_def)
  ultimately have "freelist base ?s (us @ pv # vs)"
    unfolding freelist_def using fl l(2) by (auto simp: freelist_def linked_append sorted_wrt_append)
  moreover have "ext s x \<inter> ext s f = {}" if "f \<in> set (us @ pv # vs)" for f
  proof -
    have "f \<noteq> x" "f \<in> set (us @ pv # x # vs)" using that d by auto
    then show ?thesis using freelist_order [OF fl, of f x] by (auto simp: ext_def)
  qed
  then have "free_ext s (us @ pv # vs) = free_ext s (us @ pv # x # vs) - ext s x" by (auto simp: free_ext_def)
  ultimately show ?thesis unfolding cut_def by (intro conjI exI [of _ "us @ pv # vs"]) auto
qed

text \<open>A free block may shrink; what is stored elsewhere does not matter.\<close>

lemma shrink_freelist:
  assumes fl: "freelist base s (us @ x # vs)" and "x \<noteq> base" "0 < hsize t x" "hsize t x \<le> hsize s x"
    and same: "hptr t = hptr s" "brk t = brk s" "\<And>a. a \<in> set (us @ vs) \<Longrightarrow> hsize t a = hsize s a"
  shows "freelist base t (us @ x # vs)"
proof -
  let ?fl = "us @ x # vs"
  have h: "hend t a = hend s a" if "a \<in> set (us @ vs)" for a using same(3) [OF that] by (simp add: hend_def)
  have hx: "hend t x \<le> hend s x" using assms(4) by (simp add: hend_def)
  have "sorted_wrt (\<lambda>a b. hend t a < b) us" "sorted_wrt (\<lambda>a b. hend t a < b) vs"
    by (rule sorted_mono [of s]; use fl h in \<open>auto simp: freelist_def sorted_wrt_append\<close>)+
  moreover have "\<forall>u\<in>set us. hend t u < x \<and> (\<forall>y\<in>set vs. hend t u < y)" using freelist_split(2,4) [OF fl] h by auto
  moreover have "\<forall>y\<in>set vs. hend t x < y" using freelist_split(3) [OF fl] hx by (auto intro: le_less_trans)
  ultimately have "sorted_wrt (\<lambda>a b. hend t a < b) ?fl" by (simp add: sorted_wrt_append)
  moreover have "linked t base ?fl \<longleftrightarrow> linked s base ?fl" by (rule linked_cong) (simp add: same)
  moreover have "a = base \<or> hsize t a > 0 \<and> base + 16 \<le> a \<and> hend t a \<le> brk t" if "a \<in> set ?fl" for a
  proof -
    have "a = base \<or> hsize s a > 0 \<and> base + 16 \<le> a \<and> hend s a \<le> brk s" using fl that unfolding freelist_def by blast
    then show ?thesis using that h [of a] hx same(2) same(3) [of a] assms(3) by (cases "a = x") auto
  qed
  moreover have "base \<in> set (us @ vs)" using fl assms(2) by (cases us) (auto simp: freelist_def)
  then have "hsize t base = 0" using fl same(3) by (simp add: freelist_def)
  ultimately show ?thesis using fl unfolding freelist_def by blast
qed

lemma cut_tail:
  assumes fl: "freelist base s (us @ x # vs)" and "0 < n" "n < hsize s x" "brk s \<le> 2 ^ 36" "x \<noteq> base" "pv \<in> set (us @ x # vs)"
  defines "q \<equiv> x + 16 * (hsize s x - n)"
  shows "cut base s (us @ x # vs) n q ((set_size q n (set_size x (hsize s x - n) s))\<lparr>freep := pv\<rparr>)"
proof -
  define t where "t = (set_size q n (set_size x (hsize s x - n) s))\<lparr>freep := pv\<rparr>"
  let ?fl = "us @ x # vs"
  have x: "hsize s x > 0 \<and> base + 16 \<le> x \<and> hend s x \<le> brk s" using fl assms(5) by (auto simp: freelist_def)
  then have "hsize s x < 2 ^ 32" using size_bound [of s x base "brk s"] assms(4) by blast
  then have sz: "n mod 2 ^ 32 = n" "(hsize s x - n) mod 2 ^ 32 = hsize s x - n" using assms(3) by auto
  have q: "x < q" "q < hend s x" "q + 16 * n = hend s x" using assms(2,3) by (auto simp: q_def hend_def algebra_simps)
  have nq: "q \<notin> set ?fl" using freelist_order [OF fl, of x q] q le_hend [of q s] by fastforce
  have d: "distinct ?fl" by (rule freelist_distinct [OF fl])
  have h: "hend t a = (if a = x then q else if a = q then hend s x else hend s a)" for a
    using q(1,3) sz by (auto simp: t_def hend_def q_def)
  have size: "hsize t a = (if a = q then n else if a = x then hsize s x - n else hsize s a)" for a
    using q(1) sz by (simp add: t_def)
  have tf: "freep t \<in> set ?fl" "brk t = brk s" "hptr t = hptr s" using assms(6) by (simp_all add: t_def)
  have fl': "freelist base t ?fl"
    by (rule shrink_freelist [OF fl assms(5)]) (use assms(2,3) q(1) d nq tf in \<open>auto simp: size\<close>)
  have "ext t q = {q..<hend s x}" "ext t x = {x..<q}" "ext s x = {x..<hend s x}" using q(1) by (auto simp: ext_def h)
  moreover have "ext t f = ext s f \<and> ext s f \<inter> ext s x = {}" if "f \<in> set us \<union> set vs" for f
  proof -
    have "f \<noteq> x" "f \<noteq> q" "f \<in> set ?fl" using that d nq by auto
    then show ?thesis using freelist_order [OF fl, of f x] by (auto simp: ext_def h)
  qed
  then have "free_ext t us = free_ext s us" "free_ext t vs = free_ext s vs" "free_ext s us \<inter> ext s x = {}" "free_ext s vs \<inter> ext s x = {}"
    by (auto simp: free_ext_def)
  moreover have "{q..<hend s x} \<subseteq> {x..<hend s x}" "{x..<q} = {x..<hend s x} - {q..<hend s x}" using q by auto
  ultimately have "free_ext t ?fl = free_ext s ?fl - ext t q" "ext t q \<subseteq> free_ext s ?fl" by auto
  then show ?thesis unfolding cut_def t_def [symmetric] using fl' tf by (intro conjI exI [of _ ?fl]) (auto simp: size)
qed

lemma take_block_cut:
  assumes fl: "freelist base s fl" "pv \<in> set fl" "hptr s pv = x" and n: "0 < n" "n \<le> hsize s x" and "brk s \<le> 2 ^ 36"
  shows "\<exists>a s'. take_block n pv x s = (a + 16, s') \<and> cut base s fl n a s'"
proof -
  obtain us vs0 where us: "fl = us @ pv # vs0" using fl(2) by (auto simp: in_set_conv_decomp)
  have "x \<noteq> base" using n fl(1) by (auto simp: freelist_def)
  moreover have "x = nxt base vs0" using freelist_split(1) [OF fl(1) [unfolded us]] fl(3) by simp
  ultimately obtain vs where f: "fl = us @ pv # x # vs" using us by (cases vs0) auto
  show ?thesis
  proof (cases "hsize s x = n")
    case True
    then show ?thesis using cut_whole [OF fl(1) [unfolded f]] by (auto simp: take_block_def f)
  next
    case False
    let ?q = "x + 16 * (hsize s x - n)"
    have x: "hsize s x < 2 ^ 32" using fl(1) \<open>x \<noteq> base\<close> size_bound [of s x base "brk s"] assms(6) by (auto simp: f freelist_def)
    have "cut base s fl n ?q ((set_size ?q n (set_size x (hsize s x - n) s))\<lparr>freep := pv\<rparr>)"
      using cut_tail [of base s "us @ [pv]" x vs n pv] fl(1) n False \<open>x \<noteq> base\<close> assms(6) by (simp add: f)
    then show ?thesis using False x by (auto simp: take_block_def Let_def hend_def)
  qed
qed

lemma cut_minv:
  assumes inv: "minv base s al" "freep s \<noteq> 0" and l: "inv_list base s al fl" and c: "cut base s fl n a s'" and "0 < n"
  shows "minv base s' (insert a al) \<and> a \<notin> al \<and> hsize s' a = n \<and> (\<forall>b\<in>al. hsize s' b = hsize s b)"
proof -
  have al: "\<And>b. b \<in> al \<Longrightarrow> hsize s b > 0 \<and> base + 16 \<le> b \<and> hend s b \<le> brk s"
    "\<And>b c. b \<in> al \<Longrightarrow> c \<in> al \<Longrightarrow> b \<noteq> c \<Longrightarrow> ext s b \<inter> ext s c = {}"
    and lims: "0 < base" "base + 16 \<le> brk s" "brk s \<le> 2 ^ 36"
    using inv by (auto simp: minv_def)
  have fl: "freelist base s fl" "freep s \<in> set fl" "\<And>b. b \<in> al \<Longrightarrow> ext s b \<inter> free_ext s fl = {}"
    using l by (auto simp: inv_list_def)
  obtain fl' where s': "freelist base s' fl'" "freep s' \<in> set fl'" "hsize s' a = n" "ext s' a \<subseteq> free_ext s fl"
    "free_ext s' fl' = free_ext s fl - ext s' a" "brk s' = brk s" "\<And>b. b \<notin> insert a (set fl) \<Longrightarrow> hsize s' b = hsize s b"
    using c unfolding cut_def by blast
  have own: "b \<notin> free_ext s fl \<and> b \<notin> set fl" if "b \<in> al" for b
    using own_block fl(3) al(1) that by blast
  have "a \<in> ext s' a" using s'(3) assms(5) by (simp add: ext_def hend_def)
  then have "a \<notin> al" using s'(4) own by blast
  have same: "hsize s' b = hsize s b" if "b \<in> al" for b using s'(7) [of b] own [OF that] that \<open>a \<notin> al\<close> by blast
  then have same': "ext s' b = ext s b" "hend s' b = hend s b" if "b \<in> al" for b using that by (simp_all add: ext_def hend_def)
  obtain f where f: "f \<in> set fl" "f \<le> a" "hend s' a \<le> hend s f"
    using freelist_covers [OF fl(1) s'(4) [unfolded ext_def]] s'(3) assms(5) by (auto simp: hend_def)
  then have "f \<noteq> base" using fl(1) assms(5) s'(3) by (auto simp: freelist_def hend_def)
  then have a: "base + 16 \<le> a" "hend s' a \<le> brk s'" using f fl(1) s'(6) by (auto simp: freelist_def)
  have cross: "ext s' a \<inter> ext s b = {}" if "b \<in> al" for b using fl(3) [OF that] s'(4) by blast
  have "minv base s' (insert a al)"
  proof (rule minvI [OF lims(1) _ _ s'(1,2)])
    show "ext s' b \<inter> free_ext s' fl' = {} \<and> hsize s' b > 0 \<and> base + 16 \<le> b \<and> hend s' b \<le> brk s'" if "b \<in> insert a al" for b
      using that a s'(3) assms(5) al(1) [of b] fl(3) [of b] by (auto simp: same same' s'(5,6))
    show "ext s' b \<inter> ext s' d = {}" if "b \<in> insert a al" "d \<in> insert a al" "b \<noteq> d" for b d
      using that al(2) [of b d] cross [of b] cross [of d] by (auto simp: same' Int_commute)
  qed (use lims in \<open>simp_all add: s'(6)\<close>)
  then show ?thesis using \<open>a \<notin> al\<close> s'(3) same by blast
qed

section \<open>The search\<close>

primrec path :: "mheap \<Rightarrow> nat \<Rightarrow> nat list \<Rightarrow> bool" where
  "path s a [] \<longleftrightarrow> True"
| "path s a (b # l) \<longleftrightarrow> hptr s a = b \<and> path s b l"

lemma path_append: "path s a (xs @ ys) \<longleftrightarrow> path s a xs \<and> path s (last (a # xs)) ys"
  by (induction xs arbitrary: a) auto

lemma linked_path: "linked s e (a # l) \<Longrightarrow> path s a (l @ [e])"
  by (induction l arbitrary: a) auto

lemma ring_path:
  assumes fl: "freelist base s fl" "q \<in> set fl"
  shows "\<exists>r. path s q (r @ [q]) \<and> q \<notin> set r \<and> set (r @ [q]) = set fl"
proof -
  obtain us vs where f: "fl = us @ q # vs" using fl(2) by (auto simp: in_set_conv_decomp)
  have d: "distinct fl" by (rule freelist_distinct [OF fl(1)])
  have l: "linked s q us" "linked s base (q # vs)" "nxt q us = base"
    using fl(1) freelist_hd [of base s us q vs] by (auto simp: f freelist_def linked_append)
  have "path s q (vs @ us @ [q])"
  proof (cases us)
    case Nil
    then show ?thesis using linked_path [OF l(2)] l(3) by simp
  next
    case (Cons b us')
    then show ?thesis using linked_path [OF l(2)] linked_path [of s q b us'] l by (auto simp: path_append split: if_splits)
  qed
  then show ?thesis using d by (intro exI [of _ "vs @ us"]) (auto simp: f)
qed

lemma malloc_search:
  assumes "path s prev (r @ [freep s])" "freep s \<notin> set r"
  shows "(\<exists>pv x. pv \<in> set (prev # r) \<and> hptr s pv = x \<and> n \<le> hsize s x \<and>
      malloc_loop g n prev (hd (r @ [freep s])) s = Some (Done (take_block n pv x s))) \<or>
    (\<forall>x\<in>set (r @ [freep s]). hsize s x < n) \<and>
      malloc_loop g n prev (hd (r @ [freep s])) s = Option.bind (morecore g n s) (\<lambda>r.
        case r of Fault \<Rightarrow> Some Fault | Done (q, s1) \<Rightarrow> if q = 0 then Some (Done (0, s1)) else malloc_loop g n q (hptr s1 q) s1)"
  using assms
proof (induction r arbitrary: prev)
  case Nil
  then show ?case by (cases "n \<le> hsize s (freep s)") (auto simp: malloc_loop.simps [of g n _ "freep s"])
next
  case (Cons x r)
  show ?case
  proof (cases "n \<le> hsize s x")
    case True
    then show ?thesis using Cons.prems by (auto simp: malloc_loop.simps [of g n prev x])
  next
    case False
    have "hptr s x = hd (r @ [freep s])" using Cons.prems by (cases r) auto
    then have "malloc_loop g n prev x s = malloc_loop g n x (hd (r @ [freep s])) s"
      using False Cons.prems by (auto simp: malloc_loop.simps [of g n prev x])
    then show ?thesis using Cons.IH [of x] Cons.prems False by auto
  qed
qed

section \<open>More memory\<close>

lemma int_arg_large: "2 ^ 31 \<le> n \<Longrightarrow> n < 2 ^ 32 \<Longrightarrow> int_arg n = int n - 2 ^ 32"
proof -
  assume n: "2 ^ 31 \<le> n" "n < 2 ^ 32"
  then have "n div 2 ^ 31 = 1" by simp
  then have "bit n 31" by (simp add: bit_iff_odd)
  then have b: "bit (int n) 31" by (simp add: bit_of_nat_iff_bit)
  have t: "take_bit 32 (int n) = int n" using n(2) by (intro take_bit_int_eq_self) simp_all
  have "int_arg n = signed_take_bit 31 (int n)" by (simp add: int_arg_def signed_of_nat)
  also have "\<dots> = int n - 2 ^ 32" using b t by (simp add: signed_take_bit_eq_take_bit_minus)
  finally show ?thesis .
qed

lemma int_arg_small: "n < 2 ^ 31 \<Longrightarrow> int_arg n = int n"
  by (simp add: int_arg_def sint_uint unsigned_of_nat signed_take_bit_int_eq_self take_bit_nat_eq_self)

lemma mapped_below: "a < brk s \<Longrightarrow> mapped s a"
  by (simp add: mapped_def)

text \<open>The block that \<open>sbrk\<close> adds above the old end of the memory.\<close>

lemma grown_minv:
  assumes inv: "minv base s al" "freep s \<noteq> 0" and nu: "0 < nu" "nu < 2 ^ 32" "brk s + 16 * nu \<le> 2 ^ 36"
  defines "t \<equiv> set_size (brk s) nu (s\<lparr>brk := brk s + 16 * nu\<rparr>)"
  shows "minv base t (insert (brk s) al) \<and> brk s \<notin> al \<and> hsize t (brk s) = nu \<and> (\<forall>b\<in>al. hsize t b = hsize s b)"
proof -
  have al: "\<And>b. b \<in> al \<Longrightarrow> hsize s b > 0 \<and> base + 16 \<le> b \<and> hend s b \<le> brk s"
    "\<And>b c. b \<in> al \<Longrightarrow> c \<in> al \<Longrightarrow> b \<noteq> c \<Longrightarrow> ext s b \<inter> ext s c = {}"
    and lims: "0 < base" "base + 16 \<le> brk s" "brk s \<le> 2 ^ 36"
    using inv by (auto simp: minv_def)
  obtain fl where fl: "freelist base s fl" "freep s \<in> set fl" "\<And>b. b \<in> al \<Longrightarrow> ext s b \<inter> free_ext s fl = {}"
    using inv by (auto simp: minv_def inv_list_def)
  have hend: "hend s f \<le> brk s \<and> f < brk s" if "f \<in> set fl \<union> al" for f
    using that fl(1) al(1) [of f] lims le_hend [of f s] by (auto simp: freelist_def hend_def)
  have size: "hsize t f = (if f = brk s then nu else hsize s f)" for f using nu(2) by (simp add: t_def)
  have same: "hend t f = hend s f" "ext t f = ext s f" if "f \<in> set fl \<union> al" for f
    using hend [OF that] by (simp_all add: hend_def ext_def size)
  have brk: "brk t = brk s + 16 * nu" "hend t (brk s) = brk t" using nu(2) by (simp_all add: t_def hend_def)
  have fx: "free_ext t fl = free_ext s fl" by (rule free_ext_cong) (simp add: same)
  have below: "ext s f \<inter> ext t (brk s) = {}" if "f \<in> set fl \<union> al" for f using hend [OF that] by (auto simp: ext_def)
  have "sorted_wrt (\<lambda>a b. hend t a < b) fl" by (rule sorted_mono [of s]) (use fl(1) in \<open>auto simp: freelist_def same\<close>)
  moreover have "linked t base fl \<longleftrightarrow> linked s base fl" by (rule linked_cong) (simp add: t_def)
  moreover have "a = base \<or> hsize t a > 0 \<and> base + 16 \<le> a \<and> hend t a \<le> brk t" if "a \<in> set fl" for a
    using fl(1) that hend [of a] same(1) [of a] nu brk(1) by (auto simp: freelist_def size)
  moreover have "hsize t base = 0" using fl(1) lims(2) by (simp add: size freelist_def)
  ultimately have "freelist base t fl" using fl(1) unfolding freelist_def by blast
  moreover have "freep t \<in> set fl" using fl(2) by (simp add: t_def)
  ultimately have "minv base t (insert (brk s) al)"
  proof (rule minvI [OF lims(1), rotated 2])
    show "ext t b \<inter> free_ext t fl = {} \<and> hsize t b > 0 \<and> base + 16 \<le> b \<and> hend t b \<le> brk t" if "b \<in> insert (brk s) al" for b
    proof (cases "b = brk s")
      case True
      have "ext t (brk s) \<inter> free_ext s fl = {}" using below by (auto simp: free_ext_def)
      then show ?thesis using True brk lims nu by (simp add: fx size)
    next
      case False
      then show ?thesis using that al(1) [of b] fl(3) [of b] brk(1) by (auto simp: same fx size)
    qed
    show "ext t b \<inter> ext t c = {}" if "b \<in> insert (brk s) al" "c \<in> insert (brk s) al" "b \<noteq> c" for b c
      using that al(2) [of b c] below [of b] below [of c] by (auto simp: same)
  qed (use lims nu in \<open>simp_all add: brk(1)\<close>)
  then show ?thesis using hend size by auto
qed

lemma morecore_spec:
  assumes inv: "minv base s al" "freep s \<noteq> 0" and n: "n * 16 < 2 ^ 31" and grow: "\<And>b m. grow b m \<Longrightarrow> b + m \<le> 2 ^ 36"
  shows "morecore grow n s = Some (Done (0, s)) \<or>
    (\<exists>s' fl. morecore grow n s = Some (Done (freep s', s')) \<and> minv base s' al \<and> (\<forall>b\<in>al. hsize s' b = hsize s b) \<and>
       inv_list base s' al fl \<and> freep s' \<noteq> 0 \<and> (\<exists>f\<in>set fl. n \<le> hsize s' f))"
proof -
  define nu where "nu = (if n < 4096 then 4096 else n)"
  have nu: "nu * 16 < 2 ^ 31" "0 < nu" "nu < 2 ^ 32" "n \<le> nu" using n by (auto simp: nu_def)
  show ?thesis
  proof (cases "grow (brk s) (nu * 16)")
    case False
    then have "sbrk grow (int_arg (nu * 16)) s = (None, s)" using nu int_arg_small [of "nu * 16"] by (simp add: sbrk_def nat_mult_distrib)
    then show ?thesis by (simp add: morecore_def nu_def [symmetric])
  next
    case True
    define t where "t = set_size (brk s) nu (s\<lparr>brk := brk s + 16 * nu\<rparr>)"
    have sb: "sbrk grow (int_arg (nu * 16)) s = (Some (brk s), s\<lparr>brk := brk s + 16 * nu\<rparr>)"
      using True nu int_arg_small [of "nu * 16"] by (simp add: sbrk_def nat_mult_distrib mult.commute)
    have "brk s + 16 * nu \<le> 2 ^ 36" using grow [OF True] by (simp add: mult.commute)
    from grown_minv [OF inv nu(2,3) this, folded t_def]
    have t: "minv base t (insert (brk s) al)" "brk s \<notin> al" "hsize t (brk s) = nu" "\<forall>b\<in>al. hsize t b = hsize s b" by blast+
    have "insert (brk s) al - {brk s} = al" using t(2) by simp
    then obtain s' fl where s': "free (brk s + 16) t = Some s'" "minv base s' al" "\<forall>b\<in>al. hsize s' b = hsize t b"
      "inv_list base s' al fl" "\<exists>f\<in>set fl. nu \<le> hsize s' f"
      using free_minv [OF t(1), of "brk s"] t(3) by auto
    have "freep s' \<noteq> 0" using s'(4) inv(1) by (auto simp: inv_list_def freelist_def minv_def)
    moreover have "mapped (s\<lparr>brk := brk s + 16 * nu\<rparr>) (brk s + 11)" using nu(2) by (intro mapped_below) simp
    ultimately have "morecore grow n s = Some (Done (freep s', s'))" "freep s' \<noteq> 0"
      using s'(1) sb by (simp_all add: morecore_def nu_def [symmetric] t_def)
    then show ?thesis using s' t(4) nu(4) by (auto intro: le_trans)
  qed
qed

lemma take_minv:
  assumes inv: "minv base s al" "freep s \<noteq> 0" and fl: "inv_list base s al fl" and "pv \<in> set fl" "0 < n" "n \<le> hsize s (hptr s pv)"
  shows "\<exists>a s'. take_block n pv (hptr s pv) s = (a + 16, s') \<and> minv base s' (insert a al) \<and> a \<notin> al \<and> hsize s' a = n \<and>
    (\<forall>b\<in>al. hsize s' b = hsize s b)"
proof -
  have "brk s \<le> 2 ^ 36" using inv by (simp add: minv_def)
  moreover have "freelist base s fl" using fl by (simp add: inv_list_def)
  ultimately obtain a s' where "take_block n pv (hptr s pv) s = (a + 16, s')" "cut base s fl n a s'"
    using take_block_cut assms(4-6) by blast
  then show ?thesis using cut_minv [OF inv fl _ assms(5)] by blast
qed

section \<open>Correctness\<close>

text \<open>Searching the whole list: a block that is large enough is taken, otherwise more memory is asked for.\<close>

lemma search_minv:
  assumes inv: "minv base s al" "freep s \<noteq> 0" and fl: "inv_list base s al fl" and "0 < n"
  shows "(\<exists>a s'. malloc_loop g n (freep s) (hptr s (freep s)) s = Some (Done (a + 16, s')) \<and> minv base s' (insert a al) \<and> a \<notin> al \<and>
      hsize s' a = n \<and> (\<forall>b\<in>al. hsize s' b = hsize s b)) \<or>
    (\<forall>x\<in>set fl. hsize s x < n) \<and>
      malloc_loop g n (freep s) (hptr s (freep s)) s = Option.bind (morecore g n s) (\<lambda>r.
        case r of Fault \<Rightarrow> Some Fault | Done (q, s1) \<Rightarrow> if q = 0 then Some (Done (0, s1)) else malloc_loop g n q (hptr s1 q) s1)"
proof -
  obtain r where r: "path s (freep s) (r @ [freep s])" "freep s \<notin> set r" "set (r @ [freep s]) = set fl"
    using ring_path fl unfolding inv_list_def by blast
  have "hptr s (freep s) = hd (r @ [freep s])" using r(1) by (cases r) auto
  with malloc_search [OF r(1,2), of n g] show ?thesis
  proof (elim disjE exE conjE)
    fix pv x
    assume "pv \<in> set (freep s # r)" "hptr s pv = x" "n \<le> hsize s x"
      "malloc_loop g n (freep s) (hd (r @ [freep s])) s = Some (Done (take_block n pv x s))" "hptr s (freep s) = hd (r @ [freep s])"
    then show ?thesis using take_minv [OF inv fl, of pv n] r(3) assms(4) by auto
  next
    assume "\<forall>x\<in>set (r @ [freep s]). hsize s x < n" "hptr s (freep s) = hd (r @ [freep s])"
      "malloc_loop g n (freep s) (hd (r @ [freep s])) s = Option.bind (morecore g n s) (\<lambda>r.
        case r of Fault \<Rightarrow> Some Fault | Done (q, s1) \<Rightarrow> if q = 0 then Some (Done (0, s1)) else malloc_loop g n q (hptr s1 q) s1)"
    then show ?thesis unfolding r(3) by simp
  qed
qed

lemma malloc_loop_minv:
  assumes inv: "minv base s al" "freep s \<noteq> 0" and n: "0 < n" "n * 16 < 2 ^ 31" and grow: "\<And>b m. grow b m \<Longrightarrow> b + m \<le> 2 ^ 36"
  shows "\<exists>r s'. malloc_loop grow n (freep s) (hptr s (freep s)) s = Some (Done (r, s')) \<and> (\<forall>b\<in>al. hsize s' b = hsize s b) \<and>
    (r = 0 \<and> minv base s' al \<or> (\<exists>a. r = a + 16 \<and> minv base s' (insert a al) \<and> a \<notin> al \<and> hsize s' a = n))"
proof -
  obtain fl where fl: "inv_list base s al fl" using inv by (auto simp: minv_def)
  show ?thesis
  proof (rule disjE [OF search_minv [OF inv fl n(1), of grow]])
    assume m: "(\<forall>x\<in>set fl. hsize s x < n) \<and>
      malloc_loop grow n (freep s) (hptr s (freep s)) s = Option.bind (morecore grow n s) (\<lambda>r.
        case r of Fault \<Rightarrow> Some Fault | Done (q, s1) \<Rightarrow> if q = 0 then Some (Done (0, s1)) else malloc_loop grow n q (hptr s1 q) s1)"
    show ?thesis
    proof (rule disjE [OF morecore_spec [OF inv n(2) grow]])
      assume "morecore grow n s = Some (Done (0, s))"
      then show ?thesis using m inv by auto
    next
      assume "\<exists>s' fl. morecore grow n s = Some (Done (freep s', s')) \<and> minv base s' al \<and> (\<forall>b\<in>al. hsize s' b = hsize s b) \<and>
        inv_list base s' al fl \<and> freep s' \<noteq> 0 \<and> (\<exists>f\<in>set fl. n \<le> hsize s' f)"
      then obtain s' fl' where s': "morecore grow n s = Some (Done (freep s', s'))" "minv base s' al" "\<forall>b\<in>al. hsize s' b = hsize s b"
        "inv_list base s' al fl'" "freep s' \<noteq> 0" "\<exists>f\<in>set fl'. n \<le> hsize s' f" by blast
      then have "\<not> (\<forall>x\<in>set fl'. hsize s' x < n)" by (auto simp: not_less)
      with search_minv [OF s'(2,5,4) n(1), of grow] obtain a s2 where
        a: "malloc_loop grow n (freep s') (hptr s' (freep s')) s' = Some (Done (a + 16, s2))" "minv base s2 (insert a al)" "a \<notin> al"
          "hsize s2 a = n" "\<forall>b\<in>al. hsize s2 b = hsize s' b" by blast
      then have "malloc_loop grow n (freep s) (hptr s (freep s)) s = Some (Done (a + 16, s2))" using m s'(1,5) by simp
      then show ?thesis using a s'(3) by auto
    qed
  qed blast
qed

lemma minv_start:
  assumes "minv base s al" "freep s = 0"
  shows "minv base (set_size base 0 (set_ptr base base (s\<lparr>freep := base\<rparr>))) al"
proof -
  have "al = {}" using assms by (simp add: minv_def)
  moreover have "minv base (set_size base 0 (set_ptr base base (s\<lparr>freep := base\<rparr>))) {}"
    by (rule minvI [of _ _ "[base]"]) (use assms in \<open>auto simp: minv_def freelist_def\<close>)
  ultimately show ?thesis by simp
qed

text \<open>C27: \<open>malloc\<close> hands out fresh memory. It always returns; it gives 0 and keeps every block, or a new block that has room for
  the bytes asked for, overlaps neither a block in use nor a free block nor the header \<open>base\<close>, and lies within the memory of
  the process. The blocks in use keep their sizes. The request is below 2 GiB and the machine has no more than 64 GiB.\<close>

theorem malloc_fresh_block:
  assumes "minv base s al" and "nbytes < 2 ^ 31 - 32" and "\<And>b m. grow b m \<Longrightarrow> b + m \<le> 2 ^ 36"
  shows "\<exists>r s'. malloc grow base nbytes s = Some (Done (r, s')) \<and> (\<forall>b\<in>al. hsize s' b = hsize s b) \<and>
    (r = 0 \<and> minv base s' al \<or>
     (\<exists>a. r = a + 16 \<and> a \<notin> al \<and> minv base s' (insert a al) \<and> a + 16 + nbytes \<le> hend s' a))"
proof -
  define n where "n = (nbytes + 16 - 1) div 16 + 1"
  define t where "t = (if freep s = 0 then set_size base 0 (set_ptr base base (s\<lparr>freep := base\<rparr>)) else s)"
  have n: "0 < n" "n * 16 < 2 ^ 31" "16 + nbytes \<le> 16 * n" using assms(2) by (auto simp: n_def)
  have "minv base t al" using minv_start assms(1) by (simp add: t_def)
  moreover have "freep t \<noteq> 0" using assms(1) by (simp add: t_def minv_def)
  moreover have "hsize t b = hsize s b" if "b \<in> al" for b using assms(1) that by (auto simp: t_def minv_def)
  moreover have "malloc grow base nbytes s = malloc_loop grow n (freep t) (hptr t (freep t)) t"
    unfolding malloc_def Let_def n_def t_def ..
  ultimately obtain r s' where "malloc grow base nbytes s = Some (Done (r, s'))" "\<forall>b\<in>al. hsize s' b = hsize s b"
    "r = 0 \<and> minv base s' al \<or> (\<exists>a. r = a + 16 \<and> minv base s' (insert a al) \<and> a \<notin> al \<and> hsize s' a = n)"
    using malloc_loop_minv [of base t al n grow] n(1,2) assms(3) by auto
  then show ?thesis using n(3) by (intro exI [of _ r] exI [of _ s']) (auto simp: hend_def)
qed

text \<open>C28: \<open>free\<close> takes a block back. It always returns, the block is in use no more and the others are kept, with free blocks that
  touch joined to one; and the memory is available: a request that fits the block that was freed succeeds, even if the kernel
  has no more memory to give.\<close>

theorem free_reusable:
  assumes "minv base s al" and "a \<in> al"
  shows "\<exists>s'. free (a + 16) s = Some s' \<and> minv base s' (al - {a}) \<and> (\<forall>b\<in>al - {a}. hsize s' b = hsize s b) \<and>
    (\<forall>grow nbytes. a + 16 + nbytes \<le> hend s a \<longrightarrow> (\<exists>r s2. malloc grow base nbytes s' = Some (Done (r, s2)) \<and> r \<noteq> 0))"
proof -
  obtain s' fl where s': "free (a + 16) s = Some s'" "minv base s' (al - {a})" "\<forall>b\<in>al - {a}. hsize s' b = hsize s b"
    "inv_list base s' (al - {a}) fl" "\<exists>f\<in>set fl. hsize s a \<le> hsize s' f"
    using free_minv [OF assms] by blast
  have f: "freep s' \<noteq> 0" using s'(2,4) by (auto simp: minv_def inv_list_def freelist_def)
  have "\<exists>r s2. malloc grow base nbytes s' = Some (Done (r, s2)) \<and> r \<noteq> 0" if "a + 16 + nbytes \<le> hend s a" for grow nbytes
  proof -
    define n where "n = (nbytes + 16 - 1) div 16 + 1"
    have "n \<le> hsize s a" using that by (auto simp: n_def hend_def)
    then have "\<not> (\<forall>x\<in>set fl. hsize s' x < n)" using s'(5) by (auto simp: not_less intro: le_trans)
    moreover have "0 < n" by (simp add: n_def)
    ultimately obtain r s2 where "malloc_loop grow n (freep s') (hptr s' (freep s')) s' = Some (Done (r, s2))" "r \<noteq> 0"
      using search_minv [OF s'(2) f s'(4), of n grow] by auto
    then show ?thesis using f by (auto simp: malloc_def n_def)
  qed
  then show ?thesis using s' by blast
qed


section \<open>Examples\<close>

text \<open>A program with its static data below 4096 that has not allocated anything.\<close>

definition heap0 :: mheap where
  "heap0 = \<lparr>hptr = \<lambda>_. 0, hsize = \<lambda>_. 0, freep = 0, brk = 4096\<rparr>"

lemma heap0_inv: "minv 64 heap0 {}"
  by (simp add: minv_def heap0_def)

lemma heap0_malloc: "\<exists>s'. malloc (\<lambda>b m. b + m \<le> 2 ^ 20) 64 100 heap0 = Some (Done (69520, s'))"
  by (simp add: malloc_def heap0_def, subst malloc_loop.simps,
      simp add: morecore_def mapped_def int_arg_small sbrk_def free_def free_scan.simps [of _ _ 64] free_at_def hend_def,
      subst malloc_loop.simps, simp add: take_block_def hend_def)

theorem malloc_fresh_block_witness:
  "\<exists>s'. malloc (\<lambda>b m. b + m \<le> 2 ^ 20) 64 100 heap0 = Some (Done (69520, s')) \<and> minv 64 s' {69504} \<and> 69504 + 116 \<le> hend s' 69504"
  using malloc_fresh_block [OF heap0_inv, of 100 "\<lambda>b m. b + m \<le> 2 ^ 20"] heap0_malloc by auto

text \<open>A heap with one block of 8 units in use and nothing free.\<close>

definition heap1 :: mheap where
  "heap1 = \<lparr>hptr = \<lambda>_. 64, hsize = (\<lambda>_. 0)(4096 := 8), freep = 64, brk = 4224\<rparr>"

lemma heap1_inv: "minv 64 heap1 {4096}"
  by (rule minvI [of _ _ "[64]"]) (auto simp: heap1_def freelist_def ext_def hend_def)

theorem free_reusable_witness:
  "\<exists>s'. free 4112 heap1 = Some s' \<and> minv 64 s' {} \<and> (\<exists>r s2. malloc (\<lambda>_ _. False) 64 112 s' = Some (Done (r, s2)) \<and> r \<noteq> 0)"
proof -
  have "4096 + 16 + 112 \<le> hend heap1 4096" by (simp add: heap1_def hend_def)
  moreover obtain s' where "free (4096 + 16) heap1 = Some s'" "minv 64 s' ({4096} - {4096})"
    "\<forall>grow nbytes. 4096 + 16 + nbytes \<le> hend heap1 4096 \<longrightarrow> (\<exists>r s2. malloc grow 64 nbytes s' = Some (Done (r, s2)) \<and> r \<noteq> 0)"
    using free_reusable [OF heap1_inv] by blast
  ultimately show ?thesis by auto
qed


end
