(* ===== verification/Xv6_Umalloc_Sbrk.thy ===== *)
theory Xv6_Umalloc_Sbrk
  imports Xv6_Umalloc Xv6_Syscall
begin

text \<open>
  The \<open>sbrk\<close> that the allocator is modelled with is the system call: whenever the modelled \<open>sys_sbrk\<close> returns, the result and the
  new size of the process are those of \<open>sbrk\<close> for a suitable answer of the parameter \<open>grow\<close>.
\<close>

section \<open>The size that the kernel sets\<close>

lemma uvmalloc_page_result: "uvmalloc_page ke pt oldsz a xperm s = Ok (r, s') \<Longrightarrow> r = None \<or> r = Some 0"
  by (auto simp: uvmalloc_page_def Let_def obind_eq_Ok split: prod.splits if_splits)

lemma uvmalloc_loop_result: "uvmalloc_loop ke pt oldsz a newsz xperm s = Ok (r, s') \<Longrightarrow> r = newsz \<or> r = 0"
proof (induction ke pt oldsz a newsz xperm s rule: uvmalloc_loop.induct)
  case (1 ke pt oldsz a newsz xperm s)
  then show ?case
  proof (cases "a < newsz")
    case True
    then obtain q s1 where q: "uvmalloc_page ke pt oldsz a xperm s = Ok (q, s1)"
        "(case q of Some v \<Rightarrow> Ok (v, s1) | None \<Rightarrow> uvmalloc_loop ke pt oldsz (a + PGSIZE) newsz xperm s1) = Ok (r, s')"
      using 1(2) by (subst (asm) uvmalloc_loop.simps) (auto simp: obind_eq_Ok)
    show ?thesis using uvmalloc_page_result [OF q(1)] q(2) 1(1) [OF True q(1)] by auto
  next
    case False
    then show ?thesis using 1(2) by (subst (asm) uvmalloc_loop.simps) simp
  qed
qed

lemma uvmalloc_result: "uvmalloc ke pt oldsz newsz xperm s = Ok (r, s') \<Longrightarrow> oldsz \<le> newsz \<Longrightarrow> r = newsz \<or> r = 0"
  by (auto simp: uvmalloc_def split: if_splits dest: uvmalloc_loop_result)

lemma uvmdealloc_result: "uvmdealloc ke pt oldsz newsz s = Ok (r, s') \<Longrightarrow> r = (if newsz \<ge> oldsz then oldsz else newsz)"
  by (auto simp: uvmdealloc_def obind_eq_Ok split: if_splits)

lemma uint_plus_int:
  fixes sz :: u64
  assumes "uint sz < 2 ^ 63" "- (2 ^ 31) \<le> n" "n < 2 ^ 31"
  shows "0 \<le> uint sz + n \<Longrightarrow> uint (sz + of_int n) = uint sz + n" "uint sz + n < 0 \<Longrightarrow> sz \<le> sz + of_int n"
proof -
  have "sz + of_int n = of_int (uint sz + n)" by simp
  also have "uint \<dots> = (uint sz + n) mod 2 ^ LENGTH(64)" by (rule uint_word_of_int)
  finally have u: "uint (sz + of_int n) = (uint sz + n) mod 2 ^ 64" by simp
  show "uint (sz + of_int n) = uint sz + n" if "0 \<le> uint sz + n"
    unfolding u by (rule mod_pos_pos_trivial [OF that]) (use assms in simp)
  show "sz \<le> sz + of_int n" if "uint sz + n < 0"
  proof -
    have "- (2 ^ 31) \<le> uint sz + n" using uint_ge_0 [of sz] assms(2) by linarith
    then have "(uint sz + n + 2 ^ 64) mod 2 ^ 64 = uint sz + n + 2 ^ 64"
      using that by (intro mod_pos_pos_trivial) simp_all
    then have "uint (sz + of_int n) = uint sz + n + 2 ^ 64" using u by simp
    then show ?thesis using assms(1,2) unfolding word_le_def by simp
  qed
qed

text \<open>The new size of the process after a change by \<open>n\<close>.\<close>

definition resized :: "int \<Rightarrow> u64 \<Rightarrow> int" where
  "resized n sz = (if uint sz + n < 0 then uint sz else uint sz + n)"

lemma upd_me_size: "curproc k < length (procs k) \<Longrightarrow> upd_me (\<lambda>x. x\<lparr>psz := v\<rparr>) k = Ok (u, k1) \<Longrightarrow> psz (myproc k1) = v"
  by (auto simp: upd_me_def upd_proc_def myproc_def cmd_simps)

lemma growproc_size:
  assumes "growproc e n k = Ok (r, k1)" "curproc k < length (procs k)" "uint (psz (myproc k)) < 2 ^ 63" "- (2 ^ 31) \<le> n" "n < 2 ^ 31"
  shows "r = -1 \<and> 0 < n \<and> psz (myproc k1) = psz (myproc k) \<or> r = 0 \<and> uint (psz (myproc k1)) = resized n (psz (myproc k))"
proof -
  let ?p = "myproc k"
  note p = uint_plus_int [OF assms(3-5)]
  consider (grow) "0 < n" | (shrink) "n < 0" | (zero) "n = 0" by linarith
  then show ?thesis
  proof cases
    case grow
    then have "0 \<le> uint (psz ?p) + n" "\<not> uint (psz ?p) + n < 0" using uint_ge_0 [of "psz ?p"] by linarith+
    then have new: "uint (psz ?p + of_int n) = resized n (psz ?p)" "psz ?p \<le> psz ?p + of_int n"
      using p(1) grow by (simp_all add: resized_def word_le_def)
    show ?thesis
    proof (cases "psz ?p + of_int n > TRAPFRAME")
      case True
      then show ?thesis using assms(1) grow by (simp add: growproc_def Let_def cmd_simps)
    next
      case False
      then obtain sz1 s where s: "uvmalloc (kend e) (pagetable ?p) (psz ?p) (psz ?p + of_int n) PTE_W (kmem k) = Ok (sz1, s)"
          "(if sz1 = 0 then ret (-1) else thn (upd_me (\<lambda>x. x\<lparr>psz := sz1\<rparr>)) (ret 0)) (k\<lparr>kmem := s\<rparr>) = Ok (r, k1)"
        using assms(1) grow by (auto simp: growproc_def Let_def cmd_simps on_mem_def obind_eq_Ok)
      show ?thesis
        using s(2) grow new(1) uvmalloc_result [OF s(1) new(2)] upd_me_size [of "k\<lparr>kmem := s\<rparr>" sz1 "()" k1] assms(2)
        by (cases "sz1 = 0") (auto simp: cmd_simps obind_eq_Ok myproc_def)
    qed
  next
    case shrink
    then obtain sz1 s where s: "uvmdealloc (kend e) (pagetable ?p) (psz ?p) (psz ?p + of_int n) (kmem k) = Ok (sz1, s)"
        "upd_me (\<lambda>x. x\<lparr>psz := sz1\<rparr>) (k\<lparr>kmem := s\<rparr>) = Ok ((), k1)" "r = 0"
      using assms(1) by (auto simp: growproc_def Let_def cmd_simps on_mem_def obind_eq_Ok)
    have "uint sz1 = resized n (psz ?p)"
      using p shrink uvmdealloc_result [OF s(1)] by (cases "uint (psz ?p) + n < 0") (simp_all add: resized_def word_le_def)
    then show ?thesis using upd_me_size [OF _ s(2)] assms(2) s(3) by simp
  next
    case zero
    then show ?thesis using assms(1) by (simp add: growproc_def cmd_simps Let_def resized_def)
  qed
qed

section \<open>The system call\<close>

lemma sys_sbrk_refines:
  assumes "sys_sbrk e k = Ok (r, k1)" "curproc k < length (procs k)" "uint (psz (myproc k)) < 2 ^ 63"
    and "n = sint (ucast (a0 (tf (myproc k))) :: u32)" "sint (ucast (a1 (tf (myproc k))) :: u32) = SBRK_EAGER"
    and "brk s = unat (psz (myproc k))"
  shows "\<exists>grow q s1. sbrk grow n s = (q, s1) \<and> r = (case q of None \<Rightarrow> -1 | Some a \<Rightarrow> of_nat a) \<and> brk s1 = unat (psz (myproc k1))"
proof -
  have n: "- (2 ^ 31) \<le> n" "n < 2 ^ 31" using sint_greater_eq [of "ucast (a0 (tf (myproc k))) :: u32"] sint_less [of "ucast (a0 (tf (myproc k))) :: u32"]
    by (simp_all add: assms(4))
  obtain g where g: "growproc e n k = Ok (g, k1)" "r = (if g < 0 then -1 else psz (myproc k))"
    using assms(1,4,5) by (auto simp: sys_sbrk_def argint_def argraw_def cmd_simps obind_eq_Ok split: if_splits)
  from growproc_size [OF g(1) assms(2,3) n] show ?thesis
  proof
    assume "g = -1 \<and> 0 < n \<and> psz (myproc k1) = psz (myproc k)"
    then show ?thesis using g(2) assms(6) by (intro exI [of _ "\<lambda>_ _. False"]) (simp add: sbrk_def)
  next
    assume "g = 0 \<and> uint (psz (myproc k1)) = resized n (psz (myproc k))"
    moreover have "unat (psz (myproc k1)) = nat (uint (psz (myproc k1)))" by (rule unat_eq_nat_uint)
    moreover have "\<not> (0 < n \<and> uint (psz (myproc k)) + n < 0)" using uint_ge_0 [of "psz (myproc k)"] by linarith
    ultimately show ?thesis using g(2) assms(6)
      by (intro exI [of _ "\<lambda>_ _. True"]) (auto simp: sbrk_def resized_def nat_add_distrib)
  qed
qed

end
