(* ===== verification/Spec2Isabelle.thy ===== *)
theory Spec2Isabelle
  imports Xv6_Vm_Grow Xv6_Log_Crash Xv6_Log_Ops Xv6_Exec Xv6_Grep Xv6_Userland Xv6_Sh_Print Xv6_Sh_Run Xv6_Console_Spec
    Xv6_Sched_Spec Xv6_Trap_Spec Xv6_Sdhci Xv6_Umalloc_Spec Xv6_Umalloc_Sbrk
begin

text \<open>
  Verification of the xv6 kernel and user programs in the port to the OrangePi RV2 (RISC-V, Sv39), as C functions translated
  to functions of higher-order logic on explicit states. File names are relative to \<open>src/\<close>.

  \<^bold>\<open>How the code is modelled.\<close> A C function is a definition with its name (a suffix or prefix where the name is taken:
  \<open>sd_disk_rw\<close> is \<open>virtio_disk_rw\<close> of \<open>kernel/sdhci.c\<close>, \<open>user_printint\<close> the printer of \<open>user/printf.c\<close>), a \<open>struct\<close> a record, an
  enumeration a datatype, an integer a word of its width, and a loop a recursive function. The result of a function that may
  not return normally is an \<open>outcome\<close> (\<open>Xv6_Prelude\<close>): \<open>Ok\<close>, \<open>Panic\<close> with the message, \<open>Blocks\<close> where the code spins or
  sleeps, \<open>Diverge\<close> where a loop has used up its fuel and \<open>Undefined\<close> where C gives no meaning. Code that threads a large state
  through many calls is written with the commands \<open>ret\<close>, \<open>bnd\<close>, \<open>thn\<close>, \<open>panic\<close>, \<open>gets\<close> and \<open>modify\<close>. What the sources
  only rely on (hardware registers, linker addresses, the bytes a device delivers, whether memory is left) is an argument.
  Sections under a spin lock are atomic; the lock and scheduling theories, where the interleaving is the point, are step
  relations of any number of CPUs.

  \<^bold>\<open>Theories.\<close>

  \<^item> \<open>Xv6_Prelude\<close>, \<open>Xv6_Riscv\<close>, \<open>Xv6_Bytes\<close>: outcomes, commands, byte-addressed memory, the macros of \<open>kernel/riscv.h\<close>,
    \<open>kernel/memlayout.h\<close> and \<open>kernel/param.h\<close>, and byte arrays with their little-endian fields.
  \<^item> \<open>Xv6_String\<close>: \<open>kernel/string.c\<close>, loop by loop, with overlapping copies.
  \<^item> \<open>Xv6_Lock\<close>: \<open>kernel/spinlock.c\<close>, \<open>kernel/sleeplock.c\<close>. Mutual exclusion in every interleaving, a spinning CPU that
    gets the lock a few steps of its owner later, and the interrupt state restored by a critical section.
  \<^item> \<open>Xv6_Sched\<close>, \<open>Xv6_Sched_Spec\<close>: \<open>scheduler\<close>, \<open>sched\<close>, \<open>yield\<close>, \<open>sleep\<close> and \<open>wakeup\<close> of \<open>kernel/proc.c\<close> as steps of several
    CPUs with interrupts at every point. No check fails, a process runs on one CPU at a time, no wakeup is lost.
  \<^item> \<open>Xv6_Kalloc\<close>: \<open>kernel/kalloc.c\<close> with the free list in memory; it refines a stack of pages. The locale \<open>page_allocator\<close> is
    what the page table code uses of it, interpreted on \<open>kalloc\<close> and \<open>kfree\<close>.
  \<^item> \<open>Xv6_Vm\<close>, \<open>Xv6_Vm_Tree\<close>, \<open>Xv6_Vm_Spec\<close>, \<open>Xv6_Vm_User\<close>, \<open>Xv6_Vm_Grow\<close>: \<open>kernel/vm.c\<close> on the three-level tables in memory. Mapping
    and unmapping refine updates of a partial map, and growing an address space is all or nothing.
  \<^item> \<open>Xv6_Bio\<close>, \<open>Xv6_Bio_Lru\<close>, \<open>Xv6_Bio_Spec\<close>, \<open>Xv6_Bio_Abs\<close>: \<open>kernel/ramdisk.c\<close> and \<open>kernel/bio.c\<close> with the linked LRU list. The locale
    \<open>block_driver\<close> is the contract of the disk, interpreted on the RAM disk; the cache is consistent and writes through.
  \<^item> \<open>Xv6_Sdhci\<close>: \<open>kernel/sdhci.c\<close>, the driver that the Makefile links, over any host controller. It moves half of each block.
  \<^item> \<open>Xv6_Log\<close>, \<open>Xv6_Log_Spec\<close>, \<open>Xv6_Log_Crash\<close>, \<open>Xv6_Log_Ops\<close>: \<open>kernel/log.c\<close>. A crash at any disk write of a commit or of a
    recovery leaves, after recovery, all or nothing of the transaction; the reservation of \<open>begin_op\<close> is always enough.
  \<^item> \<open>Xv6_Fs\<close>, \<open>Xv6_Dir\<close>: \<open>kernel/fs.c\<close>: blocks, inodes, contents, directories and paths, over the cache and the log.
  \<^item> \<open>Xv6_Pipe\<close>: \<open>kernel/pipe.c\<close>. In every interleaving of readers and writers the bytes come out in order.
  \<^item> \<open>Xv6_Kernel\<close>, \<open>Xv6_File\<close>, \<open>Xv6_Proc\<close>, \<open>Xv6_Sysfile\<close>, \<open>Xv6_Exec\<close>, \<open>Xv6_Syscall\<close>: the state of the whole kernel and, on it,
    \<open>kernel/file.c\<close>, the process table of \<open>kernel/proc.c\<close>, \<open>kernel/sysfile.c\<close>, \<open>kernel/exec.c\<close>, \<open>kernel/sysproc.c\<close> and the
    dispatcher of \<open>kernel/syscall.c\<close>. \<open>Xv6_Proc_Spec\<close>: \<open>fork\<close> keeps the table consistent and makes a copy of its parent,
    and \<open>kill(0)\<close> marks a free slot.
  \<^item> \<open>Xv6_Printf\<close>, \<open>Xv6_Console\<close>, \<open>Xv6_Console_Spec\<close>: \<open>kernel/printf.c\<close>, \<open>user/printf.c\<close>, \<open>kernel/uart.c\<close>, \<open>kernel/console.c\<close>. Numbers
    are printed in decimal and read back; the console ring refines the edited line; a write sends one byte per interrupt.
  \<^item> \<open>Xv6_Trap\<close>, \<open>Xv6_Trap_Spec\<close>: \<open>kernel/trap.c\<close>, \<open>kernel/plic.c\<close>, \<open>kernel/start.c\<close>, the timer call of \<open>kernel/sbi.c\<close>. A system call
    ends in user mode with its result, a process that is killed or faults exits at its trap, failing calls change nothing but \<open>a0\<close>.
  \<^item> \<open>Xv6_Sh\<close>, \<open>Xv6_Sh_Spec\<close>, \<open>Xv6_Sh_Print\<close>, \<open>Xv6_Sh_Run\<close>: \<open>user/sh.c\<close>. The parser ends on every line and undoes printing; pipelines
    and redirections run their commands with the right descriptors.
  \<^item> \<open>Xv6_Umalloc\<close>, \<open>Xv6_Umalloc_Spec\<close>, \<open>Xv6_Umalloc_Sbrk\<close>: \<open>user/umalloc.c\<close>. \<open>malloc\<close> and \<open>free\<close> return and keep blocks apart; requests
    from 2 GiB on are not refused, but kill the process or are granted without memory. The \<open>sbrk\<close> of the allocator is what
    the modelled \<open>sys_sbrk\<close> does.
  \<^item> \<open>Xv6_Grep\<close>, \<open>Xv6_Userland\<close>: \<open>user/grep.c\<close>, the counters of \<open>user/wc.c\<close>, the generator of \<open>user/grind.c\<close> and the names of \<open>user/ls.c\<close>.

  \<^bold>\<open>How the parts interact.\<close> A trap (\<open>usertrap\<close>) runs the dispatcher (\<open>syscall\<close>), which runs the call of its number on the state
  \<open>kernel\<close>; the layers below are lifted to that state where they are used: the file system (\<open>on_fs\<close>) works on the log, the log
  on the cache, the cache on the disk, and the address space operations (\<open>on_mem\<close>) on the page allocator. Where a call sleeps
  its outcome is \<open>Blocks\<close>, and what happens across the sleep is the subject of the step relations \<open>lock_step\<close>, \<open>sched_step\<close>,
  \<open>log_step\<close> and \<open>pipe_step\<close>, whose invariants hold in every reachable state.

  \<^bold>\<open>Fuel and bounds.\<close> A traversal of the LRU list has fuel \<open>NBUF + 1\<close>, which \<open>Xv6_Bio_Lru\<close> proves to be enough. The shell's parse
  functions have fuel for the depth of their calls, and \<open>Xv6_Sh_Spec\<close> shows that \<open>parsecmd\<close> starts with enough. The loops
  of \<open>user/umalloc.c\<close> are partial functions, and their theorems say that they return. The polling loops of the SD driver count
  their tries as the code does. Other loops are structural or have a termination proof. Theorems on the user allocator
  assume a machine with at most 64 GiB, so that the 32-bit sizes of blocks do not wrap around; this one has 512 MiB.

  \<^bold>\<open>Where the model is coarser than C.\<close> Signed arithmetic wraps around as the machine's does where the code can reach the limits:
  in \<open>printint\<close> for the most negative number, in \<open>atoi\<close> for the largest ones, and in \<open>allocpid\<close>; \<open>do_rand\<close> is checked for overflow
  instead. \<open>noff\<close> counts the spin locks a CPU holds and is an integer, as are the reference counts. The index of \<open>memset\<close> is a
  natural number up to its 32-bit argument. In \<open>pipe_step\<close> the copies from and to the user succeed and the mark of a killed process
  does not change within a section. A mark that is set during the \<open>yield\<close> of \<open>usertrap\<close> is seen at the next trap, as in the
  code, which does not test again. \<open>runcmd\<close> is modelled with the effect of each call on the descriptors, and its \<open>malloc\<close>
  succeeds.

  \<^bold>\<open>Not modelled.\<close> Assembly (\<open>kernel/entry.S\<close>, \<open>kernel/swtch.S\<close>, \<open>kernel/trampoline.S\<close>, \<open>kernel/kernelvec.S\<close>), the linker scripts and
  the inline assembly of \<open>kernel/riscv.h\<close> and \<open>kernel/sbi.c\<close> beyond the registers that the trap code uses; the order of the
  initialisation calls in \<open>kernel/main.c\<close>; \<open>kernel/virtio_disk.c\<close> and \<open>kernel/disk_stub.c\<close>, which the build does not link;
  \<open>procdump\<close> and messages that are only printed; caches, the translation lookaside buffer and weak memory; the loop of the
  shell over its input; programs that only make system calls (\<open>user/cat.c\<close>, \<open>user/init.c\<close> and the like), the test programs
  (\<open>user/usertests.c\<close> and others), and \<open>mkfs/mkfs.c\<close>, which runs on the build host. The file system layer above the log
  (\<open>Xv6_Fs\<close> to \<open>Xv6_Exec\<close>) is modelled completely, but properties are proved of the layers below it, of processes and of the
  failing calls only.
\<close>

end
